(* ===== verification/Rust_Prelude.thy ===== *)
theory Rust_Prelude
  imports Main "HOL-Library.Sublist" "HOL-Library.Monad_Syntax" "HOL-Library.Char_ord"
    "HOL-Library.List_Lexorder"
begin

text \<open>
  Shared vocabulary of the development. A Rust \<open>&str\<close>, \<open>String\<close>, \<open>&[u8]\<close> or \<open>Vec<u8>\<close> is a
  \<^typ>\<open>string\<close>, one \<^typ>\<open>char\<close> per byte, so lengths and offsets are byte lengths and byte offsets
  as in the code. A computation that may panic has the type \<open>'a panics\<close>, with \<^const>\<open>None\<close> for the
  panic, and is sequenced with the option monad. The theory also holds the substring search of
  \<open>str::find\<close> and the facts about it that every scanning loop of the program needs.
\<close>

type_synonym bytes = string
type_synonym 'a panics = "'a option"

abbreviation byte :: "char \<Rightarrow> nat" where
  "byte c \<equiv> of_char c"

named_theorems string_ops \<open>definitions of the small string operations of the Rust library\<close>

section \<open>Generic facts\<close>

lemma drop_lessI: "xs \<noteq> [] \<Longrightarrow> 0 < n \<Longrightarrow> length (drop n xs) < length xs"
  by (simp add: length_greater_0_conv [symmetric] del: length_greater_0_conv)

lemma prefix_same_cases2:
  "prefix xs (ys @ zs) \<Longrightarrow> prefix xs ys \<or> (\<exists>us. xs = ys @ us \<and> prefix us zs)"
  by (metis prefix_append)

section \<open>Substring search\<close>

text \<open>
  \<open>str_find n s\<close> is \<open>s.find(n)\<close>: the byte offset of the first occurrence of \<open>n\<close> in \<open>s\<close>.
\<close>

fun str_find :: "string \<Rightarrow> string \<Rightarrow> nat option" where
  "str_find n [] = (if n = [] then Some 0 else None)"
| "str_find n (c # cs) =
     (if prefix n (c # cs) then Some 0 else map_option Suc (str_find n cs))"

definition str_contains :: "string \<Rightarrow> string \<Rightarrow> bool" where
  "str_contains s n = (str_find n s \<noteq> None)"

lemma str_find_Some_split:
  "str_find n s = Some p \<Longrightarrow> s = take p s @ n @ drop (p + length n) s \<and> p + length n \<le> length s"
proof (induction n s arbitrary: p rule: str_find.induct)
  case (1 n)
  then show ?case by (simp split: if_splits)
next
  case (2 n c cs)
  show ?case
  proof (cases "prefix n (c # cs)")
    case True
    with "2.prems" have "p = 0" by simp
    with True show ?thesis using prefix_length_le [OF True] by (auto simp: prefix_def)
  next
    case False
    with "2.prems" obtain q where q: "str_find n cs = Some q" "p = Suc q" by auto
    from "2.IH" [OF False q(1)] q(2) show ?thesis by auto
  qed
qed

lemma str_find_append:
  "\<exists>p \<le> length pre. str_find n (pre @ n @ post) = Some p"
proof (induction pre)
  case Nil
  show ?case
  proof (cases "n @ post")
    case (Cons a list)
    then have "prefix n (a # list)" by (metis prefixI)
    with Cons show ?thesis by simp
  qed simp
next
  case (Cons c pre)
  then obtain p where "p \<le> length pre" "str_find n (pre @ n @ post) = Some p" by blast
  then show ?case by auto
qed

lemma str_find_None_iff: "str_find n s = None \<longleftrightarrow> \<not> sublist n s"
proof
  assume *: "str_find n s = None"
  show "\<not> sublist n s"
  proof
    assume "sublist n s"
    then obtain pre post where "s = pre @ n @ post" by (auto simp: sublist_def)
    with str_find_append [of pre n post] * show False by auto
  qed
next
  assume "\<not> sublist n s"
  then show "str_find n s = None"
    using str_find_Some_split [of n s] by (cases "str_find n s") (auto simp: sublist_def)
qed

lemma str_contains_sublist: "str_contains s n \<longleftrightarrow> sublist n s"
  using str_find_None_iff [of n s] by (auto simp: str_contains_def)

lemma str_find_first:
  "str_find n s = Some p \<Longrightarrow> q < p \<Longrightarrow> \<not> prefix n (drop q s)"
proof (induction n s arbitrary: p q rule: str_find.induct)
  case (1 n)
  then show ?case by (simp split: if_splits)
next
  case (2 n c cs)
  show ?case
  proof (cases "prefix n (c # cs)")
    case True
    with 2 show ?thesis by simp
  next
    case False
    with "2.prems" obtain r where r: "str_find n cs = Some r" "p = Suc r" by auto
    show ?thesis
    proof (cases q)
      case 0
      with False show ?thesis by simp
    next
      case (Suc q')
      with r "2.prems" "2.IH" [OF False r(1), of q'] show ?thesis by simp
    qed
  qed
qed

lemma str_find_eqI:
  assumes "prefix n (drop p s)" "p \<le> length s" "\<And>q. q < p \<Longrightarrow> \<not> prefix n (drop q s)"
  shows "str_find n s = Some p"
proof -
  from assms(1) obtain t where "drop p s = n @ t" by (auto simp: prefix_def)
  then have "s = take p s @ n @ t" by (metis append_take_drop_id)
  with str_find_append [of "take p s" n t] assms(2) obtain r
    where r: "r \<le> p" "str_find n s = Some r" by auto
  from str_find_Some_split [OF r(2)] have "s = take r s @ n @ drop (r + length n) s" "r \<le> length s"
    by auto
  then have "drop r s = n @ drop (r + length n) s"
    by (metis append_eq_conv_conj length_take min.absorb2)
  then have "prefix n (drop r s)" by (metis prefixI)
  with assms(3) r(1) have "r = p" by (meson le_neq_implies_less)
  with r show ?thesis by simp
qed

subsection \<open>Scanning for every occurrence\<close>

text \<open>
  The recurring loop \<open>while let Some(p) = s[idx..].find(n) { start = idx + p + n.len(); ...; idx = start }\<close>:
  \<open>scan_after n s\<close> lists the texts \<open>s[start..]\<close> its body sees, in order.
\<close>

function scan_after :: "string \<Rightarrow> string \<Rightarrow> string list" where
  "scan_after n s =
     (if n = [] then []
      else case str_find n s of
             None \<Rightarrow> []
           | Some p \<Rightarrow> drop (p + length n) s # scan_after n (drop (p + length n) s))"
  by pat_completeness auto
termination
proof (relation "measure (\<lambda>(n, s). length s)", goal_cases)
  case (2 n s p)
  from str_find_Some_split [OF "2"(2)] have "p + length n \<le> length s" by simp
  with "2"(1) show ?case by (cases n) auto
qed simp

declare scan_after.simps [simp del]

text \<open>
  A needle none of whose proper prefixes is also a suffix cannot overlap itself; for such a needle
  the loop meets every occurrence.
\<close>

definition unbordered :: "string \<Rightarrow> bool" where
  "unbordered n = (n \<noteq> [] \<and> list_all (\<lambda>k. take k n \<noteq> drop (length n - k) n) [1..<length n])"

lemma unborderedD:
  "unbordered n \<Longrightarrow> 0 < k \<Longrightarrow> k < length n \<Longrightarrow> take k n \<noteq> drop (length n - k) n"
  by (auto simp: unbordered_def list_all_iff)

lemma unbordered_no_overlap:
  assumes n: "unbordered n" and eq: "a @ n @ b = c @ n @ d"
    and lt: "length a < length c"
  shows "length a + length n \<le> length c"
proof (rule ccontr)
  assume "\<not> ?thesis"
  then have o: "length c < length a + length n" by simp
  define k where "k = length a + length n - length c"
  have k: "0 < k" "k < length n" using o lt by (auto simp: k_def)
  have "take (length n) (drop (length c) (a @ n @ b)) = n"
    using eq by simp
  moreover have "drop (length c) (a @ n @ b) = drop (length n - k) n @ b"
    using lt o by (simp add: k_def)
  ultimately have "take k n = drop (length n - k) n"
    using k by (metis append_eq_conv_conj diff_diff_cancel length_drop less_imp_le take_append
        append_take_drop_id take_take min.absorb1)
  with unborderedD [OF n k] show False by simp
qed

text \<open>Such a needle is found exactly where it was put, if the text before it does not hold it.\<close>

lemma str_find_after:
  assumes n: "unbordered n" and a: "\<not> sublist n a"
  shows "str_find n (a @ n @ b) = Some (length a)"
proof -
  obtain p where p: "p \<le> length a" "str_find n (a @ n @ b) = Some p"
    using str_find_append by blast
  have sp: "take p (a @ n @ b) @ n @ drop (p + length n) (a @ n @ b) = a @ n @ b"
    by (rule sym) (rule str_find_Some_split [OF p(2), THEN conjunct1])
  have "p = length a"
  proof (rule ccontr)
    assume "p \<noteq> length a"
    with p(1) have lt: "length (take p (a @ n @ b)) < length a" by simp
    from unbordered_no_overlap [OF n sp lt] p(1) have le: "p + length n \<le> length a" by simp
    have "take (length n) (drop p (a @ n @ b)) = n"
      using sp p(1) by (metis append_eq_conv_conj length_append length_take le min.absorb2 trans_le_add1)
    with le have "take (length n) (drop p a) = n" by simp
    then have "a = take p a @ n @ drop (length n) (drop p a)"
      by (metis append_take_drop_id)
    with a show False by (metis sublist_appendI)
  qed
  with p show ?thesis by simp
qed

lemma scan_after_complete:
  assumes "unbordered n"
  shows "post \<in> set (scan_after n (pre @ n @ post))"
proof (induction "length pre" arbitrary: pre rule: less_induct)
  case less
  have ne: "n \<noteq> []" using assms by (simp add: unbordered_def)
  obtain p where p: "p \<le> length pre" "str_find n (pre @ n @ post) = Some p"
    using str_find_append by blast
  let ?s = "pre @ n @ post"
  have sp: "take p ?s @ n @ drop (p + length n) ?s = pre @ n @ post"
    by (rule sym) (rule str_find_Some_split [OF p(2), THEN conjunct1])
  show ?case
  proof (cases "p = length pre")
    case True
    then show ?thesis using ne p(2) by (simp add: scan_after.simps [of n ?s])
  next
    case False
    with p(1) have "length (take p ?s) < length pre" by simp
    from unbordered_no_overlap [OF assms sp this] p(1)
    have le: "p + length n \<le> length pre" by simp
    then have "drop (p + length n) ?s = drop (p + length n) pre @ n @ post" by simp
    moreover have "length (drop (p + length n) pre) < length pre"
      using ne le by (cases n) auto
    then have "post \<in> set (scan_after n (drop (p + length n) pre @ n @ post))"
      by (rule less)
    ultimately show ?thesis using ne p(2) by (simp add: scan_after.simps [of n ?s])
  qed
qed

lemma scan_after_sound:
  "t \<in> set (scan_after n s) \<Longrightarrow> \<exists>pre. s = pre @ n @ t"
proof (induction n s rule: scan_after.induct)
  case (1 n s)
  from "1.prems" obtain p where p: "n \<noteq> []" "str_find n s = Some p"
    and t: "t = drop (p + length n) s \<or> t \<in> set (scan_after n (drop (p + length n) s))"
    by (cases "str_find n s") (auto simp: scan_after.simps [of n s] split: if_splits)
  from str_find_Some_split [OF p(2)]
  have s: "s = take p s @ n @ drop (p + length n) s" by simp
  from t show ?case
  proof
    assume "t = drop (p + length n) s"
    with s show ?thesis by metis
  next
    assume "t \<in> set (scan_after n (drop (p + length n) s))"
    with "1.IH" [OF p] obtain pre where "drop (p + length n) s = pre @ n @ t" by blast
    with s have "s = (take p s @ n @ pre) @ n @ t" by simp
    then show ?thesis by blast
  qed
qed

end
