(* ===== verification/Rust_Str.thy ===== *)
theory Rust_Str
  imports Rust_Prelude
begin

text \<open>
  The part of Rust's \<open>str\<close>, \<open>char\<close> and \<open>u8\<close> library the program uses, on byte strings: UTF-8
  validity and lossy decoding (\<open>str::from_utf8\<close>, \<open>String::from_utf8_lossy\<close>), characters as their
  UTF-8 byte sequences (\<open>str::chars\<close>), \<open>is_char_boundary\<close>, splitting and trimming, ASCII case
  folding, and integer parsing. The lemmas are the laws the components rely on: lossy decoding
  always yields valid UTF-8 and is the identity on valid UTF-8, and a valid string cut at a
  character boundary has two valid halves.
\<close>

section \<open>Bytes\<close>

definition is_ascii_whitespace :: "char \<Rightarrow> bool" where
  [string_ops]: "is_ascii_whitespace c = (byte c \<in> {9, 10, 12, 13, 32})"

definition is_ascii_digit :: "char \<Rightarrow> bool" where
  [string_ops]: "is_ascii_digit c = (48 \<le> byte c \<and> byte c \<le> 57)"

definition is_ascii_hexdigit :: "char \<Rightarrow> bool" where
  [string_ops]: "is_ascii_hexdigit c =
     (is_ascii_digit c \<or> (65 \<le> byte c \<and> byte c \<le> 70) \<or> (97 \<le> byte c \<and> byte c \<le> 102))"

definition is_ascii_alphanumeric :: "char \<Rightarrow> bool" where
  [string_ops]: "is_ascii_alphanumeric c =
     (is_ascii_digit c \<or> (65 \<le> byte c \<and> byte c \<le> 90) \<or> (97 \<le> byte c \<and> byte c \<le> 122))"

definition ascii_lower :: "char \<Rightarrow> char" where
  "ascii_lower c = (if 65 \<le> byte c \<and> byte c \<le> 90 then char_of (byte c + 32) else c)"

definition ascii_upper :: "char \<Rightarrow> char" where
  "ascii_upper c = (if 97 \<le> byte c \<and> byte c \<le> 122 then char_of (byte c - 32) else c)"

definition to_ascii_lowercase :: "string \<Rightarrow> string" where
  "to_ascii_lowercase s = map ascii_lower s"

definition to_ascii_uppercase :: "string \<Rightarrow> string" where
  "to_ascii_uppercase s = map ascii_upper s"

definition eq_ignore_ascii_case :: "string \<Rightarrow> string \<Rightarrow> bool" where
  "eq_ignore_ascii_case a b = (to_ascii_lowercase a = to_ascii_lowercase b)"

lemma ascii_lower_idem [simp]: "ascii_lower (ascii_lower c) = ascii_lower c"
  by (auto simp: ascii_lower_def)

lemma to_ascii_lowercase_idem [simp]:
  "to_ascii_lowercase (to_ascii_lowercase s) = to_ascii_lowercase s"
  by (simp add: to_ascii_lowercase_def)

lemma length_to_ascii_lowercase [simp]: "length (to_ascii_lowercase s) = length s"
  by (simp add: to_ascii_lowercase_def)

text \<open>\<open>u8 as char\<close> pushed onto a \<open>String\<close>: the Latin-1 code point in UTF-8.\<close>

definition push_byte_as_char :: "char \<Rightarrow> string" where
  "push_byte_as_char c =
     (if byte c < 128 then [c]
      else [char_of (192 + byte c div 64), char_of (128 + byte c mod 64)])"

section \<open>UTF-8\<close>

definition is_continuation :: "char \<Rightarrow> bool" where
  "is_continuation c = (128 \<le> byte c \<and> byte c < 192)"

text \<open>The byte at an offset, 0 past the end (\<open>safe_get\<close> of the decoder in \<open>core::str\<close>).\<close>

definition safe_get :: "string \<Rightarrow> nat \<Rightarrow> nat" where
  "safe_get s i = (if i < length s then byte (s ! i) else 0)"

definition cont_byte :: "nat \<Rightarrow> bool" where
  "cont_byte n = (128 \<le> n \<and> n < 192)"

definition second_ok3 :: "nat \<Rightarrow> nat \<Rightarrow> bool" where
  "second_ok3 b0 b1 =
     (if b0 = 224 then 160 \<le> b1 \<and> b1 < 192
      else if b0 = 237 then 128 \<le> b1 \<and> b1 < 160
      else 128 \<le> b1 \<and> b1 < 192)"

definition second_ok4 :: "nat \<Rightarrow> nat \<Rightarrow> bool" where
  "second_ok4 b0 b1 =
     (if b0 = 240 then 144 \<le> b1 \<and> b1 < 192
      else if b0 = 244 then 128 \<le> b1 \<and> b1 < 144
      else 128 \<le> b1 \<and> b1 < 192)"

text \<open>
  One step of the decoder on a non-empty string: whether the string starts with a well-formed
  character, and how many bytes the character, or else the ill-formed sequence, takes.
\<close>

definition utf8_chunk :: "string \<Rightarrow> bool \<times> nat" where
  "utf8_chunk s =
     (let b0 = safe_get s 0; b1 = safe_get s 1; b2 = safe_get s 2; b3 = safe_get s 3 in
      if b0 < 128 then (True, 1)
      else if 194 \<le> b0 \<and> b0 \<le> 223 then
        (if cont_byte b1 then (True, 2) else (False, 1))
      else if 224 \<le> b0 \<and> b0 \<le> 239 then
        (if second_ok3 b0 b1 then (if cont_byte b2 then (True, 3) else (False, 2)) else (False, 1))
      else if 240 \<le> b0 \<and> b0 \<le> 244 then
        (if second_ok4 b0 b1 then
           (if cont_byte b2 then (if cont_byte b3 then (True, 4) else (False, 3)) else (False, 2))
         else (False, 1))
      else (False, 1))"

definition replacement_char :: string where
  "replacement_char = [CHR 0xEF, CHR 0xBF, CHR 0xBD]"

lemma utf8_chunk_pos: "utf8_chunk s = (ok, n) \<Longrightarrow> 0 < n"
  by (auto simp: utf8_chunk_def Let_def split: if_splits)

lemma utf8_chunk_pos' [simp]: "0 < snd (utf8_chunk s)"
  using utf8_chunk_pos [of s] by (cases "utf8_chunk s") auto

function utf8_valid :: "string \<Rightarrow> bool" where
  "utf8_valid s =
     (if s = [] then True
      else fst (utf8_chunk s) \<and> utf8_valid (drop (snd (utf8_chunk s)) s))"
  by pat_completeness auto
termination
  by (relation "measure length") (auto intro: drop_lessI)

function from_utf8_lossy :: "string \<Rightarrow> string" where
  "from_utf8_lossy s =
     (if s = [] then []
      else (if fst (utf8_chunk s) then take (snd (utf8_chunk s)) s else replacement_char)
           @ from_utf8_lossy (drop (snd (utf8_chunk s)) s))"
  by pat_completeness auto
termination
  by (relation "measure length") (auto intro: drop_lessI)

text \<open>The characters of a valid string, each as its UTF-8 bytes.\<close>

function str_chars :: "string \<Rightarrow> string list" where
  "str_chars s =
     (if s = [] then []
      else take (snd (utf8_chunk s)) s # str_chars (drop (snd (utf8_chunk s)) s))"
  by pat_completeness auto
termination
  by (relation "measure length") (auto intro: drop_lessI)

declare utf8_valid.simps [simp del] from_utf8_lossy.simps [simp del] str_chars.simps [simp del]

definition is_char_boundary :: "string \<Rightarrow> nat \<Rightarrow> bool" where
  "is_char_boundary s i =
     (i = 0 \<or> i = length s \<or> (i < length s \<and> \<not> is_continuation (s ! i)))"

text \<open>\<open>s[i..].chars().next()\<close>: slicing inside a character panics; otherwise the first character and
  the text after it.\<close>

definition next_char :: "string \<Rightarrow> (string \<times> string) panics" where
  "next_char s =
     (if s = [] \<or> is_continuation (hd s) then None
      else Some (take (snd (utf8_chunk s)) s, drop (snd (utf8_chunk s)) s))"

lemma next_char_shorter: "next_char s = Some (c, t) \<Longrightarrow> length t < length s"
  by (auto simp: next_char_def split: if_splits intro: drop_lessI)

lemma utf8_valid_Nil [simp]: "utf8_valid []"
  by (simp add: utf8_valid.simps)

lemma from_utf8_lossy_Nil [simp]: "from_utf8_lossy [] = []"
  by (simp add: from_utf8_lossy.simps)

lemma str_chars_Nil [simp]: "str_chars [] = []"
  by (simp add: str_chars.simps)

lemma safe_get_pos: "0 < safe_get s i \<Longrightarrow> i < length s"
  by (simp add: safe_get_def split: if_splits)

lemma utf8_chunk_True_length:
  "s \<noteq> [] \<Longrightarrow> utf8_chunk s = (True, n) \<Longrightarrow> n \<le> length s"
  using safe_get_pos [of s 1] safe_get_pos [of s 2] safe_get_pos [of s 3]
  by (auto simp: utf8_chunk_def Let_def cont_byte_def second_ok3_def second_ok4_def Suc_le_eq
      split: if_splits)

lemma safe_get_append [simp]: "i < length s \<Longrightarrow> safe_get (s @ t) i = safe_get s i"
  by (simp add: safe_get_def nth_append)

text \<open>A well-formed character is recognised whatever follows it.\<close>

lemma utf8_chunk_append:
  assumes "s \<noteq> []" "utf8_chunk s = (True, n)"
  shows "utf8_chunk (s @ t) = (True, n)"
proof -
  from assms(1) have "safe_get (s @ t) 0 = safe_get s 0" by simp
  moreover have "1 < n \<Longrightarrow> safe_get (s @ t) 1 = safe_get s 1"
    using utf8_chunk_True_length [OF assms] by simp
  moreover have "2 < n \<Longrightarrow> safe_get (s @ t) 2 = safe_get s 2"
    using utf8_chunk_True_length [OF assms] by simp
  moreover have "3 < n \<Longrightarrow> safe_get (s @ t) 3 = safe_get s 3"
    using utf8_chunk_True_length [OF assms] by simp
  ultimately show ?thesis
    using assms(2) by (auto simp: utf8_chunk_def Let_def split: if_splits)
qed

lemma utf8_valid_append: "utf8_valid s \<Longrightarrow> utf8_valid t \<Longrightarrow> utf8_valid (s @ t)"
proof (induction s rule: utf8_valid.induct)
  case (1 s)
  show ?case
  proof (cases "s = []")
    case True
    with 1 show ?thesis by simp
  next
    case False
    with "1.prems"(1) have c: "utf8_chunk s = (True, snd (utf8_chunk s))"
      and v: "utf8_valid (drop (snd (utf8_chunk s)) s)"
      by (auto simp: utf8_valid.simps [of s] prod_eq_iff)
    have le: "snd (utf8_chunk s) \<le> length s" by (rule utf8_chunk_True_length [OF False c])
    have "utf8_valid (drop (snd (utf8_chunk s)) s @ t)"
      using "1.IH" [OF False v] "1.prems"(2) by simp
    with False le show ?thesis
      by (simp add: utf8_valid.simps [of "s @ t"] utf8_chunk_append [OF False c])
  qed
qed

lemma utf8_valid_Cons:
  assumes "utf8_valid s" "s \<noteq> []"
  obtains n where "utf8_chunk s = (True, n)" "0 < n" "n \<le> length s" "utf8_valid (drop n s)"
proof -
  from assms have "utf8_chunk s = (True, snd (utf8_chunk s))" "utf8_valid (drop (snd (utf8_chunk s)) s)"
    by (auto simp: utf8_valid.simps [of s] prod_eq_iff)
  with that utf8_chunk_True_length [OF assms(2)] show ?thesis by simp
qed

lemma take_chunk_ne: "s \<noteq> [] \<Longrightarrow> take (snd (utf8_chunk s)) s \<noteq> []"
  using utf8_chunk_pos' [of s] by (simp del: utf8_chunk_pos')

text \<open>The bytes of one well-formed character form a valid string of their own.\<close>

lemma utf8_chunk_take:
  assumes "s \<noteq> []" "utf8_chunk s = (True, n)"
  shows "utf8_chunk (take n s) = (True, n)"
proof -
  have le: "n \<le> length s" "0 < n" using utf8_chunk_True_length [OF assms] utf8_chunk_pos [OF assms(2)] by auto
  then have g: "i < n \<Longrightarrow> safe_get (take n s) i = safe_get s i" for i
    by (simp add: safe_get_def)
  from g [of 0] g [of 1] g [of 2] g [of 3] le assms(2) show ?thesis
    by (auto simp: utf8_chunk_def Let_def split: if_splits)
qed

lemma utf8_valid_chunk:
  assumes "s \<noteq> []" "utf8_chunk s = (True, n)"
  shows "utf8_valid (take n s)"
proof -
  have "n \<le> length s" by (rule utf8_chunk_True_length [OF assms])
  with utf8_chunk_take [OF assms] show ?thesis
    by (subst utf8_valid.simps) simp
qed

lemma utf8_valid_replacement_char [simp]: "utf8_valid replacement_char"
  by (simp add: utf8_valid.simps replacement_char_def utf8_chunk_def safe_get_def Let_def
      second_ok3_def cont_byte_def numeral_2_eq_2)

theorem utf8_valid_lossy: "utf8_valid (from_utf8_lossy s)"
proof (induction s rule: from_utf8_lossy.induct)
  case (1 s)
  show ?case
  proof (cases "s = []")
    case False
    then show ?thesis
      using 1 [OF False] utf8_valid_chunk [OF False]
      by (simp add: from_utf8_lossy.simps [of s] utf8_valid_append prod_eq_iff)
  qed simp
qed

theorem from_utf8_lossy_id: "utf8_valid s \<Longrightarrow> from_utf8_lossy s = s"
proof (induction s rule: from_utf8_lossy.induct)
  case (1 s)
  show ?case
  proof (cases "s = []")
    case False
    with 1 show ?thesis
      by (auto simp: from_utf8_lossy.simps [of s] utf8_valid.simps [of s])
  qed simp
qed


lemma utf8_chunk_inner:
  assumes "utf8_chunk s = (True, n)" "0 < i" "i < n"
  shows "is_continuation (s ! i)"
proof -
  have "cont_byte (safe_get s i)"
  proof -
    from assms have "i = 1 \<or> i = 2 \<or> i = 3"
      by (auto simp: utf8_chunk_def Let_def split: if_splits)
    then show ?thesis using assms(1,3)
      by (elim disjE) (auto simp: utf8_chunk_def Let_def cont_byte_def second_ok3_def second_ok4_def
          split: if_splits)
  qed
  then show ?thesis
    by (simp add: cont_byte_def safe_get_def is_continuation_def split: if_splits)
qed

lemma utf8_chunk_head:
  "s \<noteq> [] \<Longrightarrow> utf8_chunk s = (True, n) \<Longrightarrow> \<not> is_continuation (hd s)"
  by (auto simp: utf8_chunk_def Let_def is_continuation_def safe_get_def hd_conv_nth
      split: if_splits)

theorem utf8_valid_split:
  "utf8_valid s \<Longrightarrow> is_char_boundary s i \<Longrightarrow> utf8_valid (take i s) \<and> utf8_valid (drop i s)"
proof (induction s arbitrary: i rule: utf8_valid.induct)
  case (1 s)
  show ?case
  proof (cases "s = [] \<or> i = 0")
    case True
    with "1.prems" show ?thesis by auto
  next
    case False
    then have ne: "s \<noteq> []" by simp
    obtain n where n: "utf8_chunk s = (True, n)" "0 < n" "n \<le> length s" "utf8_valid (drop n s)"
      using utf8_valid_Cons [OF "1.prems"(1) ne] .
    have "\<not> i < n"
      using "1.prems"(2) False utf8_chunk_inner [OF n(1)] n(3) by (auto simp: is_char_boundary_def)
    then have ge: "n \<le> i" by simp
    have "is_char_boundary (drop n s) (i - n)"
      using "1.prems"(2) ge n(3) by (auto simp: is_char_boundary_def)
    with "1.IH" [OF ne] n have "utf8_valid (take (i - n) (drop n s))" "utf8_valid (drop (i - n) (drop n s))"
      by simp_all
    moreover have "take i s = take n s @ take (i - n) (drop n s)"
      using ge by (metis le_add_diff_inverse take_add)
    ultimately show ?thesis
      using utf8_valid_append [OF utf8_valid_chunk [OF ne n(1)]] ge by simp
  qed
qed

lemma utf8_valid_ascii: "list_all (\<lambda>c. byte c < 128) s \<Longrightarrow> utf8_valid s"
proof (induction s)
  case (Cons c s)
  then show ?case
    by (simp add: utf8_valid.simps [of "c # s"] utf8_chunk_def safe_get_def)
qed simp

lemma utf8_valid_ascii_Cons [simp]: "byte c < 128 \<Longrightarrow> utf8_valid (c # s) = utf8_valid s"
  by (simp add: utf8_valid.simps [of "c # s"] utf8_chunk_def safe_get_def)

lemma concat_str_chars [simp]: "concat (str_chars s) = s"
proof (induction s rule: str_chars.induct)
  case (1 s)
  then show ?case by (cases "s = []") (simp_all add: str_chars.simps [of s])
qed

lemma str_chars_ascii_Cons [simp]: "byte c < 128 \<Longrightarrow> str_chars (c # s) = [c] # str_chars s"
  by (simp add: str_chars.simps [of "c # s"] utf8_chunk_def safe_get_def)

text \<open>Around an ASCII byte both sides of a valid string are valid.\<close>

lemma utf8_valid_around_ascii:
  assumes "utf8_valid (a @ c # t)" "byte c < 128"
  shows "utf8_valid a" "utf8_valid t"
proof -
  have "is_char_boundary (a @ c # t) (length a)"
    using assms(2) by (simp add: is_char_boundary_def is_continuation_def nth_append)
  from utf8_valid_split [OF assms(1) this] assms(2) show "utf8_valid a" "utf8_valid t" by simp_all
qed

lemma utf8_valid_after_ascii:
  assumes "utf8_valid (a @ n @ t)" "n \<noteq> []" "list_all (\<lambda>c. byte c < 128) n"
  shows "utf8_valid t"
proof -
  obtain m c where n: "n = m @ [c]" using assms(2) by (metis rev_exhaust)
  with assms(1,3) show ?thesis using utf8_valid_around_ascii(2) [of "a @ m" c t] by simp
qed

section \<open>Splitting and trimming\<close>

definition starts_with :: "string \<Rightarrow> string \<Rightarrow> bool" where
  "starts_with s p = prefix p s"

definition strip_prefix :: "string \<Rightarrow> string \<Rightarrow> string option" where
  "strip_prefix s p = (if prefix p s then Some (drop (length p) s) else None)"

lemma strip_prefix_Some_iff: "strip_prefix s p = Some t \<longleftrightarrow> s = p @ t"
  by (auto simp: strip_prefix_def prefix_def)

text \<open>\<open>s.split_once(c)\<close> for an ASCII character or pattern: the parts before and after its first
  occurrence.\<close>

definition split_once :: "string \<Rightarrow> string \<Rightarrow> (string \<times> string) option" where
  "split_once p s =
     (case str_find p s of None \<Rightarrow> None | Some i \<Rightarrow> Some (take i s, drop (i + length p) s))"

text \<open>\<open>s.split(p)\<close>: always at least one part.\<close>

function split_str :: "string \<Rightarrow> string \<Rightarrow> string list" where
  "split_str p s =
     (if p = [] then [s]
      else case str_find p s of
             None \<Rightarrow> [s]
           | Some i \<Rightarrow> take i s # split_str p (drop (i + length p) s))"
  by pat_completeness auto
termination
proof (relation "measure (\<lambda>(p, s). length s)", goal_cases)
  case (2 p s i)
  from str_find_Some_split [OF "2"(2)] have "i + length p \<le> length s" by simp
  with "2"(1) show ?case by (cases p) auto
qed simp

declare split_str.simps [simp del]

text \<open>\<open>s.lines()\<close>: pieces ended by a newline, without it and without a carriage return before it;
  a last piece with no newline is kept as it is.\<close>

definition strip_cr :: "string \<Rightarrow> string" where
  "strip_cr l = (if l \<noteq> [] \<and> last l = CHR 0x0D then butlast l else l)"

fun str_lines_acc :: "string \<Rightarrow> string \<Rightarrow> string list" where
  "str_lines_acc acc [] = (if acc = [] then [] else [rev acc])"
| "str_lines_acc acc (c # cs) =
     (if c = CHR 0x0A then strip_cr (rev acc) # str_lines_acc [] cs
      else str_lines_acc (c # acc) cs)"

definition str_lines :: "string \<Rightarrow> string list" where
  "str_lines s = str_lines_acc [] s"

text \<open>Unicode \<open>White_Space\<close>, on the UTF-8 bytes of a character.\<close>

definition is_whitespace_char :: "string \<Rightarrow> bool" where
  "is_whitespace_char c =
     (case map byte c of
        [a] \<Rightarrow> (9 \<le> a \<and> a \<le> 13) \<or> a = 32
      | [a, b] \<Rightarrow> a = 194 \<and> (b = 133 \<or> b = 160)
      | [a, b, d] \<Rightarrow>
          (a = 225 \<and> b = 154 \<and> d = 128)
          \<or> (a = 226 \<and> b = 128 \<and> ((128 \<le> d \<and> d \<le> 138) \<or> d = 168 \<or> d = 169 \<or> d = 175))
          \<or> (a = 226 \<and> b = 129 \<and> d = 159)
          \<or> (a = 227 \<and> b = 128 \<and> d = 128)
      | _ \<Rightarrow> False)"

definition str_trim :: "string \<Rightarrow> string" where
  "str_trim s =
     concat (rev (dropWhile is_whitespace_char
              (rev (dropWhile is_whitespace_char (str_chars s)))))"

fun words_of :: "string list \<Rightarrow> string \<Rightarrow> string list" where
  "words_of [] acc = (if acc = [] then [] else [acc])"
| "words_of (c # cs) acc =
     (if is_whitespace_char c then (if acc = [] then words_of cs [] else acc # words_of cs [])
      else words_of cs (acc @ c))"

definition split_whitespace :: "string \<Rightarrow> string list" where
  "split_whitespace s = words_of (str_chars s) []"

section \<open>Integer parsing and printing\<close>

definition to_digit :: "nat \<Rightarrow> char \<Rightarrow> nat option" where
  "to_digit radix c =
     (let v = (if 48 \<le> byte c \<and> byte c \<le> 57 then byte c - 48
               else if 97 \<le> byte c \<and> byte c \<le> 122 then byte c - 87
               else if 65 \<le> byte c \<and> byte c \<le> 90 then byte c - 55
               else radix)
      in if v < radix then Some v else None)"

fun digits_value :: "nat \<Rightarrow> nat \<Rightarrow> string \<Rightarrow> nat option" where
  "digits_value radix acc [] = Some acc"
| "digits_value radix acc (c # cs) =
     (case to_digit radix c of None \<Rightarrow> None | Some d \<Rightarrow> digits_value radix (acc * radix + d) cs)"

text \<open>
  \<open>from_str_radix\<close> on an unsigned type with values below \<open>bound\<close>: one optional \<open>+\<close>, at least one
  digit, nothing else; a value out of range is an error.
\<close>

definition from_str_radix :: "nat \<Rightarrow> nat \<Rightarrow> string \<Rightarrow> nat option" where
  "from_str_radix bound radix s =
     (let ds = (if s \<noteq> [] \<and> hd s = CHR ''+'' then tl s else s) in
      if ds = [] then None
      else case digits_value radix 0 ds of
             None \<Rightarrow> None
           | Some v \<Rightarrow> if v < bound then Some v else None)"

definition u8_from_str_radix16 :: "string \<Rightarrow> nat option" where
  "u8_from_str_radix16 s = from_str_radix 256 16 s"

definition parse_usize :: "string \<Rightarrow> nat option" where
  "parse_usize s = from_str_radix (2 ^ 64) 10 s"

definition hex_digit :: "nat \<Rightarrow> char" where
  "hex_digit n = (if n < 10 then char_of (48 + n) else char_of (87 + n))"

function nat_to_radix :: "nat \<Rightarrow> nat \<Rightarrow> string" where
  "nat_to_radix r n =
     (if r < 2 \<or> n < r then [hex_digit n] else nat_to_radix r (n div r) @ [hex_digit (n mod r)])"
  by pat_completeness auto
termination
  by (relation "measure snd") auto

declare nat_to_radix.simps [simp del]

lemma split_once_Some:
  assumes "split_once p s = Some (a, b)"
  shows "s = a @ p @ b" and "\<not> sublist p a \<or> p = []"
proof -
  from assms obtain i where i: "str_find p s = Some i" "a = take i s" "b = drop (i + length p) s"
    by (auto simp: split_once_def split: option.splits)
  from str_find_Some_split [OF i(1)] i(2,3) show "s = a @ p @ b" by simp
  show "\<not> sublist p a \<or> p = []"
  proof (rule ccontr)
    assume "\<not> ?thesis"
    then obtain u v where "a = u @ p @ v" "p \<noteq> []" by (auto simp: sublist_def)
    then have "take i s = u @ p @ v" using i(2) by simp
    then have s: "s = u @ p @ v @ drop i s" by (metis append_assoc append_take_drop_id)
    have "length u < i"
      using \<open>take i s = u @ p @ v\<close> \<open>p \<noteq> []\<close> by (metis add_less_cancel_left append.right_neutral
          append_is_Nil_conv length_append length_greater_0_conv length_take less_le_trans
          min.cobounded2 nat_less_le le_add1 add.right_neutral)
    with str_find_first [OF i(1), of "length u"] s show False
      by (metis append_eq_conv_conj prefixI)
  qed
qed

lemma digits_value_append:
  "digits_value r a (xs @ ys) = Option.bind (digits_value r a xs) (\<lambda>v. digits_value r v ys)"
  by (induction xs arbitrary: a) (auto split: option.split)

lemma byte_hex_digit: "n < 16 \<Longrightarrow> byte (hex_digit n) = (if n < 10 then 48 + n else 87 + n)"
  by (simp add: hex_digit_def)

lemma to_digit_hex_digit: "n < r \<Longrightarrow> r \<le> 16 \<Longrightarrow> to_digit r (hex_digit n) = Some n"
  using byte_hex_digit [of n] by (simp add: to_digit_def)

lemma digits_value_nat_to_radix:
  "2 \<le> r \<Longrightarrow> r \<le> 16 \<Longrightarrow> digits_value r 0 (nat_to_radix r n) = Some n"
proof (induction r n rule: nat_to_radix.induct)
  case (1 r n)
  then show ?case
    by (simp add: nat_to_radix.simps [of r n] digits_value_append to_digit_hex_digit)
qed

lemma nat_to_radix_digits:
  "2 \<le> r \<Longrightarrow> r \<le> 16 \<Longrightarrow> set (nat_to_radix r n) \<subseteq> hex_digit ` {..<r}"
proof (induction r n rule: nat_to_radix.induct)
  case (1 r n)
  moreover have "n mod r < r" using 1 by simp
  ultimately show ?case unfolding nat_to_radix.simps [of r n] by simp
qed

lemma nat_to_radix_nonempty [simp]: "nat_to_radix r n \<noteq> []"
  by (simp add: nat_to_radix.simps [of r n])

text \<open>A printed number is read back.\<close>

lemma parse_usize_print:
  assumes "n < 2 ^ 64"
  shows "parse_usize (nat_to_radix 10 n) = Some n"
proof -
  have "set (nat_to_radix 10 n) \<subseteq> hex_digit ` {..<10}" by (rule nat_to_radix_digits) simp_all
  then have "hd (nat_to_radix 10 n) \<in> hex_digit ` {..<10}" by (rule subsetD) simp
  then obtain d where "d < 10" "hd (nat_to_radix 10 n) = hex_digit d" by blast
  then have "byte (hd (nat_to_radix 10 n)) = 48 + d" using byte_hex_digit [of d] by simp
  then have "hd (nat_to_radix 10 n) \<noteq> CHR ''+''" by auto
  with assms show ?thesis
    by (simp add: parse_usize_def from_str_radix_def digits_value_nat_to_radix)
qed

lemma nat_to_radix_inject:
  "2 \<le> r \<Longrightarrow> r \<le> 16 \<Longrightarrow> nat_to_radix r a = nat_to_radix r b \<longleftrightarrow> a = b"
  by (metis digits_value_nat_to_radix option.inject)

end
