(* ===== verification/Json_Value.thy ===== *)
theory Json_Value
  imports Rust_Prelude
begin

text \<open>
  JSON values as the program handles them. \<open>serde_json::Value\<close> is an enum with the six JSON shapes;
  its objects are ordered maps (\<open>BTreeMap\<close>, the crate's default), here association lists with
  strictly increasing keys. Text parsing and printing (\<open>from_str\<close>, \<open>to_string\<close>) belong to the crate
  and are parameters of the definitions that use them. A floating point number is kept as its
  decimal literal: \<open>JFloat m e\<close> is \<open>m\<close> divided by ten to the power \<open>e\<close>.
\<close>

datatype json =
    JNull
  | JBool bool
  | JInt int
  | JFloat int nat
  | JString string
  | JArray "json list"
  | JObject "(string \<times> json) list"

fun obj_insert :: "string \<Rightarrow> json \<Rightarrow> (string \<times> json) list \<Rightarrow> (string \<times> json) list" where
  "obj_insert k v [] = [(k, v)]"
| "obj_insert k v ((k', v') # kvs) =
     (if k = k' then (k, v) # kvs
      else if k' < k then (k', v') # obj_insert k v kvs
      else (k, v) # (k', v') # kvs)"

text \<open>\<open>json!({...})\<close>: the entries inserted one after the other.\<close>

definition json_object :: "(string \<times> json) list \<Rightarrow> json" where
  "json_object kvs = JObject (fold (\<lambda>(k, v). obj_insert k v) kvs [])"

definition json_opt :: "('a \<Rightarrow> json) \<Rightarrow> 'a option \<Rightarrow> json" where
  "json_opt f x = (case x of None \<Rightarrow> JNull | Some a \<Rightarrow> f a)"

definition json_get :: "json \<Rightarrow> string \<Rightarrow> json option" where
  "json_get j k = (case j of JObject kvs \<Rightarrow> map_of kvs k | _ \<Rightarrow> None)"

definition as_str :: "json \<Rightarrow> string option" where
  "as_str j = (case j of JString s \<Rightarrow> Some s | _ \<Rightarrow> None)"

definition as_array :: "json \<Rightarrow> json list option" where
  "as_array j = (case j of JArray xs \<Rightarrow> Some xs | _ \<Rightarrow> None)"

definition as_object :: "json \<Rightarrow> (string \<times> json) list option" where
  "as_object j = (case j of JObject kvs \<Rightarrow> Some kvs | _ \<Rightarrow> None)"

definition as_bool :: "json \<Rightarrow> bool option" where
  "as_bool j = (case j of JBool b \<Rightarrow> Some b | _ \<Rightarrow> None)"

definition as_i64 :: "json \<Rightarrow> int option" where
  "as_i64 j = (case j of JInt n \<Rightarrow> if - (2 ^ 63) \<le> n \<and> n < 2 ^ 63 then Some n else None | _ \<Rightarrow> None)"

definition get_str :: "json \<Rightarrow> string \<Rightarrow> string option" where
  "get_str j k = Option.bind (json_get j k) as_str"

definition get_bool :: "json \<Rightarrow> string \<Rightarrow> bool option" where
  "get_bool j k = Option.bind (json_get j k) as_bool"

definition get_array :: "json \<Rightarrow> string \<Rightarrow> json list option" where
  "get_array j k = Option.bind (json_get j k) as_array"

text \<open>\<open>j[k] = v\<close>: \<open>IndexMut\<close> turns \<open>null\<close> into an object, updates an object, and panics on every other
  shape.\<close>

definition json_set :: "json \<Rightarrow> string \<Rightarrow> json \<Rightarrow> json panics" where
  "json_set j k v =
     (case j of
        JObject kvs \<Rightarrow> Some (JObject (obj_insert k v kvs))
      | JNull \<Rightarrow> Some (JObject [(k, v)])
      | _ \<Rightarrow> None)"

text \<open>\<open>to_string\<close> and \<open>from_str\<close>.\<close>

record json_text =
  json_print :: "json \<Rightarrow> string"
  json_parse :: "string \<Rightarrow> json option"

text \<open>\<open>json!({"ok": false, "error": e})\<close>, the shape of every error reply.\<close>

definition rpc_error :: "string \<Rightarrow> json" where
  "rpc_error e = json_object [(''ok'', JBool False), (''error'', JString e)]"

lemma map_of_obj_insert [simp]: "map_of (obj_insert k v kvs) = (map_of kvs)(k \<mapsto> v)"
  by (induction k v kvs rule: obj_insert.induct) (auto simp: fun_eq_iff)

lemma map_of_fold_obj_insert:
  "map_of (fold (\<lambda>(k, v). obj_insert k v) kvs acc) k =
     (case map_of (rev kvs) k of None \<Rightarrow> map_of acc k | Some v \<Rightarrow> Some v)"
  by (induction kvs arbitrary: acc) (auto simp: map_add_def split: option.splits)

lemma json_get_object: "json_get (json_object kvs) k = map_of (rev kvs) k"
  by (simp add: json_get_def json_object_def map_of_fold_obj_insert split: option.splits)

definition obj_sorted :: "(string \<times> json) list \<Rightarrow> bool" where
  "obj_sorted kvs = sorted_wrt (<) (map fst kvs)"

lemma obj_insert_keys: "fst ` set (obj_insert k v kvs) = insert k (fst ` set kvs)"
  by (induction k v kvs rule: obj_insert.induct) auto

lemma obj_sorted_insert: "obj_sorted kvs \<Longrightarrow> obj_sorted (obj_insert k v kvs)"
proof (induction k v kvs rule: obj_insert.induct)
  case (2 k v k' v' kvs)
  have "\<forall>a \<in> fst ` set (obj_insert k v kvs). k' < a" if "k' < k"
    using that 2 by (auto simp: obj_insert_keys obj_sorted_def)
  with 2 show ?case by (auto simp: obj_sorted_def)
qed (simp add: obj_sorted_def)

lemma json_set_get: "json_set j k v = Some j' \<Longrightarrow> json_get j' k = Some v"
  by (auto simp: json_set_def json_get_def split: json.splits)

lemma json_set_get_other:
  "json_set j k v = Some j' \<Longrightarrow> k' \<noteq> k \<Longrightarrow> json_get j' k' = json_get j k'"
  by (auto simp: json_set_def json_get_def split: json.splits)

lemma json_set_None_iff:
  "json_set j k v = None \<longleftrightarrow> as_object j = None \<and> j \<noteq> JNull"
  by (auto simp: json_set_def as_object_def split: json.splits)

end
