(* ===== verification/Sql_Parser.thy ===== *)
theory Sql_Parser
  imports Rust_Str Json_Value
begin

text \<open>
  \<open>src/sql_parser.rs\<close>: the reader of PostgreSQL's node dumps. \<open>raw_parser\<close> and \<open>nodeToString\<close> are
  PostgreSQL's own and are parameters; everything the extension does with the dump they produce is
  modelled: the token reader, the bracket scanners, the quoted-string reader, the field lookup and
  \<open>analyze_dump\<close>. A slice taken in the middle of a UTF-8 character panics, which the readers return
  as \<^const>\<open>None\<close>.
\<close>

section \<open>Definitions\<close>

subsection \<open>Tokens\<close>

definition backslash :: char where
  "backslash = CHR 0x5C"

definition token_delimiter :: "char \<Rightarrow> bool" where
  "token_delimiter b =
     (is_ascii_whitespace b \<or> b = CHR 0x7D \<or> b = CHR 0x29 \<or> b = CHR 0x7B \<or> b = CHR 0x28)"

function read_token_loop :: "string \<Rightarrow> nat \<Rightarrow> string \<Rightarrow> (string \<times> nat) panics" where
  "read_token_loop out i [] = Some (out, i)"
| "read_token_loop out i (b # rest) =
     (if b = backslash then
        (case rest of
           [] \<Rightarrow> Some (out, i + 1)
         | e # rest' \<Rightarrow> read_token_loop (out @ push_byte_as_char e) (i + 2) rest')
      else if token_delimiter b then Some (out, i)
      else if byte b < 128 then read_token_loop (out @ [b]) (i + 1) rest
      else (case next_char (b # rest) of
              None \<Rightarrow> None
            | Some (ch, rest') \<Rightarrow> read_token_loop (out @ ch) (i + length ch) rest'))"
  by pat_completeness auto
termination
  by (relation "measure (\<lambda>(out, i, bytes). length bytes)") (auto dest: next_char_shorter)

declare read_token_loop.simps(2) [simp del]

definition read_token :: "string \<Rightarrow> (string option \<times> nat) panics" where
  "read_token s =
     (if prefix ''<>'' s then Some (None, 2)
      else if prefix [CHR 0x22, CHR 0x22] s then Some (Some [], 2)
      else map_option (\<lambda>(out, i). (Some out, i)) (read_token_loop [] 0 s))"

subsection \<open>Bracketed bodies\<close>

text \<open>
  The scanner shared by \<open>node_body\<close> and \<open>paren_body\<close>: the text up to the bracket that closes depth 0,
  a backslash hiding the byte after it; the whole text when there is none.
\<close>

fun bracket_body :: "char \<Rightarrow> char \<Rightarrow> nat \<Rightarrow> string \<Rightarrow> string" where
  "bracket_body opn cls depth [] = []"
| "bracket_body opn cls depth (b # rest) =
     (if b = backslash then
        (case rest of [] \<Rightarrow> [b] | e # rest' \<Rightarrow> b # e # bracket_body opn cls depth rest')
      else if b = opn then b # bracket_body opn cls (depth + 1) rest
      else if b = cls then
        (if depth = 0 then [] else b # bracket_body opn cls (depth - 1) rest)
      else b # bracket_body opn cls depth rest)"

definition node_body :: "string \<Rightarrow> string" where
  "node_body s = bracket_body (CHR 0x7B) (CHR 0x7D) 0 s"

definition paren_body :: "string \<Rightarrow> string" where
  "paren_body s = bracket_body (CHR 0x28) (CHR 0x29) 0 s"

subsection \<open>Quoted strings\<close>

text \<open>The inner loop: the text up to the closing quote, and what follows the quote.\<close>

function read_quoted :: "string \<Rightarrow> string \<Rightarrow> (string \<times> string) panics" where
  "read_quoted out [] = Some (out, [])"
| "read_quoted out (b # rest) =
     (if b = CHR 0x22 then Some (out, rest)
      else if b = backslash \<and> rest \<noteq> [] then
        read_quoted (out @ push_byte_as_char (hd rest)) (tl rest)
      else if byte b < 128 then read_quoted (out @ [b]) rest
      else (case next_char (b # rest) of
              None \<Rightarrow> None
            | Some (ch, rest') \<Rightarrow> read_quoted (out @ ch) rest'))"
  by pat_completeness auto
termination
  by (relation "measure (\<lambda>(out, bytes). length bytes)")
    (auto dest: next_char_shorter simp: less_Suc_eq_le)

declare read_quoted.simps(2) [simp del]

lemma read_quoted_shorter: "read_quoted out bytes = Some (s, rest) \<Longrightarrow> length rest \<le> length bytes"
proof (induction out bytes rule: read_quoted.induct)
  case (2 out b bs)
  then show ?case
    by (cases bs) (fastforce simp: read_quoted.simps(2) split: if_splits option.splits
        dest: next_char_shorter)+
qed simp

function quoted_strings :: "string \<Rightarrow> string list panics" where
  "quoted_strings [] = Some []"
| "quoted_strings (b # rest) =
     (if b \<noteq> CHR 0x22 then quoted_strings rest
      else (case read_quoted [] rest of
              None \<Rightarrow> None
            | Some (s, rest') \<Rightarrow> map_option ((#) s) (quoted_strings rest')))"
  by pat_completeness auto
termination
  by (relation "measure length") (auto dest: read_quoted_shorter simp: less_Suc_eq_le)

subsection \<open>Fields and statements\<close>

text \<open>The value of \<open>:name\<close>: an outer \<^const>\<open>None\<close> is a panic, an inner one the absent or null field.\<close>

definition field :: "string \<Rightarrow> string \<Rightarrow> string option panics" where
  "field body name =
     (let needle = CHR '':'' # name @ '' '' in
      case str_find needle body of
        None \<Rightarrow> Some None
      | Some at \<Rightarrow> map_option fst (read_token (drop (at + length needle) body)))"

definition read_ident :: "string \<Rightarrow> string" where
  "read_ident s = takeWhile (\<lambda>c. is_ascii_alphanumeric c \<or> c = CHR ''_'') s"

fun collect_panics :: "('a \<Rightarrow> 'b list panics) \<Rightarrow> 'a list \<Rightarrow> 'b list panics" where
  "collect_panics f [] = Some []"
| "collect_panics f (x # xs) =
     (case f x of
        None \<Rightarrow> None
      | Some ys \<Rightarrow> map_option ((@) ys) (collect_panics f xs))"

text \<open>The statement tags: \<open>{RAWSTMT\<close> nodes that have a \<open>:stmt {\<close> field.\<close>

definition statement_kinds :: "string \<Rightarrow> string list" where
  "statement_kinds dump =
     concat (map (\<lambda>t. let body = node_body t in
                       case str_find '':stmt {'' body of
                         None \<Rightarrow> []
                       | Some q \<Rightarrow> [read_ident (drop (q + 7) body)])
              (scan_after ''{RAWSTMT'' dump))"

definition relation_json :: "string option \<Rightarrow> string \<Rightarrow> json" where
  "relation_json schema name =
     json_object [(''schema'', json_opt JString schema), (''name'', JString name)]"

definition dump_relation :: "string \<Rightarrow> json list panics" where
  "dump_relation t =
     (let body = node_body t in
      do { name \<leftarrow> field body ''relname'';
           case name of
             None \<Rightarrow> Some []
           | Some nm \<Rightarrow> do { schema \<leftarrow> field body ''schemaname''; Some [relation_json schema nm] } })"

definition dump_relations :: "string \<Rightarrow> json list panics" where
  "dump_relations dump = collect_panics dump_relation (scan_after ''{RANGEVAR '' dump)"

definition dump_cte :: "string \<Rightarrow> json list panics" where
  "dump_cte t =
     do { (name, _) \<leftarrow> read_token t;
          case name of None \<Rightarrow> Some [] | Some nm \<Rightarrow> Some [JString nm] }"

definition dump_ctes :: "string \<Rightarrow> json list panics" where
  "dump_ctes dump = collect_panics dump_cte (scan_after '':ctename '' dump)"

text \<open>\<open>parts.pop()\<close> twice: the last name is the function, the one before it the schema.\<close>

definition dump_function :: "string \<Rightarrow> json list panics" where
  "dump_function t =
     do { parts \<leftarrow> quoted_strings (paren_body t);
          if parts = [] then Some []
          else Some [relation_json (if butlast parts = [] then None else Some (last (butlast parts)))
                       (last parts)] }"

definition dump_functions :: "string \<Rightarrow> json list panics" where
  "dump_functions dump = collect_panics dump_function (scan_after '':funcname ('' dump)"

definition dml_tags :: "string list" where
  "dml_tags = [''{INSERTSTMT'', ''{UPDATESTMT'', ''{DELETESTMT'', ''{MERGESTMT'']"

definition dump_writes :: "string \<Rightarrow> bool" where
  "dump_writes dump =
     (str_contains dump '':intoClause {'' \<or> list_ex (\<lambda>tag. str_contains dump tag) dml_tags)"

definition statement_kind :: "string list \<Rightarrow> string" where
  "statement_kind kinds =
     (if length kinds = 1 \<and> kinds ! 0 = ''SELECTSTMT'' then ''select'' else ''other'')"

definition analyze_dump :: "string \<Rightarrow> json panics" where
  "analyze_dump dump =
     (if dump = [] then
        Some (json_object [(''ok'', JBool False), (''error'', JString ''unparseable'')])
      else
        let kinds = statement_kinds dump in
        do { relations \<leftarrow> dump_relations dump;
             ctes \<leftarrow> dump_ctes dump;
             functions \<leftarrow> dump_functions dump;
             Some (json_object
               [(''ok'', JBool True),
                (''statements'', JInt (int (length kinds))),
                (''kind'', JString (statement_kind kinds)),
                (''writes'', JBool (dump_writes dump)),
                (''relations'', JArray relations),
                (''functions'', JArray functions),
                (''ctes'', JArray ctes)]) })"

text \<open>
  \<open>raw_parse_dump\<close>: text with an interior NUL never reaches the parser; a null list or a null dump is
  the empty string. \<open>raw_parser\<close> raising a syntax error leaves the function (\<^const>\<open>None\<close>).
\<close>

definition raw_parse_dump ::
    "(string \<Rightarrow> 'node option option) \<Rightarrow> ('node \<Rightarrow> string option) \<Rightarrow> string \<Rightarrow> string option" where
  "raw_parse_dump raw_parser nodeToString sql =
     (if CHR 0x00 \<in> set sql then Some []
      else case raw_parser sql of
             None \<Rightarrow> None
           | Some None \<Rightarrow> Some []
           | Some (Some list) \<Rightarrow>
               (case nodeToString list of None \<Rightarrow> Some [] | Some s \<Rightarrow> Some (from_utf8_lossy s)))"

definition analyze_sql ::
    "(string \<Rightarrow> 'node option option) \<Rightarrow> ('node \<Rightarrow> string option) \<Rightarrow> string \<Rightarrow> json option" where
  "analyze_sql raw_parser nodeToString sql =
     do { dump \<leftarrow> raw_parse_dump raw_parser nodeToString sql; analyze_dump dump }"


section \<open>Characterisation of the readers\<close>

subsection \<open>The token reader\<close>

lemma token_loop_escape [simp]:
  "read_token_loop out i (backslash # e # rest) =
     read_token_loop (out @ push_byte_as_char e) (i + 2) rest"
  by (simp add: read_token_loop.simps(2))

lemma token_loop_delimiter [simp]:
  "token_delimiter b \<Longrightarrow> read_token_loop out i (b # rest) = Some (out, i)"
  by (auto simp: read_token_loop.simps(2) token_delimiter_def backslash_def
      string_ops)

lemma token_loop_ascii [simp]:
  "\<lbrakk>b \<noteq> backslash; \<not> token_delimiter b; byte b < 128\<rbrakk> \<Longrightarrow>
     read_token_loop out i (b # rest) = read_token_loop (out @ [b]) (i + 1) rest"
  by (simp add: read_token_loop.simps(2))

lemma high_byte_plain: "128 \<le> byte b \<Longrightarrow> b \<noteq> backslash \<and> \<not> token_delimiter b"
  by (auto simp: backslash_def token_delimiter_def string_ops)

lemma utf8_chunk_multi_head:
  "s \<noteq> [] \<Longrightarrow> utf8_chunk s = (True, n) \<Longrightarrow> 1 < n \<Longrightarrow> 128 \<le> byte (hd s)"
  by (auto simp: utf8_chunk_def Let_def safe_get_def hd_conv_nth split: if_splits)

lemma next_char_append:
  assumes "m \<noteq> []" "utf8_chunk m = (True, length m)"
  shows "next_char (m @ rest) = Some (m, rest)"
  using utf8_chunk_append [OF assms, of rest] utf8_chunk_head [OF assms] assms(1)
  by (simp add: next_char_def)

lemma token_loop_multibyte:
  assumes "utf8_chunk m = (True, length m)" "1 < length m"
  shows "read_token_loop out i (m @ rest) = read_token_loop (out @ m) (i + length m) rest"
proof -
  obtain b m' where m: "m = b # m'" using assms(2) by (cases m) auto
  have "128 \<le> byte b" using utf8_chunk_multi_head [OF _ assms] m by simp
  with high_byte_plain [OF this] next_char_append [OF _ assms(1), of rest] m show ?thesis
    by (simp add: read_token_loop.simps(2))
qed

lemma utf8_chunk_multi_bytes:
  assumes "utf8_chunk m = (True, length m)" "1 < length m" "b \<in> set m"
  shows "128 \<le> byte b"
proof -
  have "length m = 2 \<or> length m = 3 \<or> length m = 4" using assms(1,2) by (auto simp: utf8_chunk_def Let_def split: if_splits)
  then obtain a b c d where "m = [a, b] \<or> m = [a, b, c] \<or> m = [a, b, c, d]"
    by (auto simp: length_Suc_conv numeral_2_eq_2 numeral_3_eq_3 numeral_eq_Suc)
  with assms show ?thesis
    by (auto simp: utf8_chunk_def Let_def safe_get_def cont_byte_def second_ok3_def second_ok4_def split: if_splits)
qed

text \<open>
  What PostgreSQL's \<open>outToken\<close> writes for a value that is not empty. Eight bytes are put behind a backslash wherever
  they stand; carriage return and form feed are not among them. A multi-byte character is written as it is.
\<close>

definition token_special :: "char \<Rightarrow> bool" where
  "token_special c =
     (c = CHR '' '' \<or> c = CHR 0x0A \<or> c = CHR 0x09 \<or> c = CHR 0x28 \<or> c = CHR 0x29 \<or> c = CHR 0x7B \<or> c = CHR 0x7D \<or> c = backslash)"

inductive token_text :: "string \<Rightarrow> string \<Rightarrow> bool" where
  token_Nil: "token_text [] []"
| token_plain: "\<lbrakk>token_text v e; byte c < 128; \<not> token_special c\<rbrakk> \<Longrightarrow> token_text (c # v) (c # e)"
| token_escaped: "\<lbrakk>token_text v e; token_special c\<rbrakk> \<Longrightarrow> token_text (c # v) (backslash # c # e)"
| token_multibyte: "\<lbrakk>token_text v e; utf8_chunk m = (True, length m); 1 < length m\<rbrakk> \<Longrightarrow>
    token_text (m @ v) (m @ e)"

text \<open>One more backslash stands before a value that would look like NULL, a quoted string or a number.\<close>

definition is_digit :: "char \<Rightarrow> bool" where
  "is_digit c \<longleftrightarrow> 48 \<le> byte c \<and> byte c \<le> 57"

fun token_start :: "string \<Rightarrow> bool" where
  "token_start [] = False"
| "token_start (c # w) =
     (c = CHR ''<'' \<or> c = CHR 0x22 \<or> is_digit c
      \<or> (c = CHR ''+'' \<or> c = CHR ''-'') \<and> w \<noteq> [] \<and> (is_digit (hd w) \<or> hd w = CHR ''.''))"

inductive written :: "string \<Rightarrow> string \<Rightarrow> bool" where
  written_plain: "\<lbrakk>token_text v e; \<not> token_start v\<rbrakk> \<Longrightarrow> written v e"
| written_start: "\<lbrakk>token_text v e; token_start v\<rbrakk> \<Longrightarrow> written v (backslash # e)"

text \<open>The reader stops at the two delimiters that are not escaped.\<close>

definition unbroken :: "char \<Rightarrow> bool" where
  "unbroken c \<longleftrightarrow> c \<noteq> CHR 0x0D \<and> c \<noteq> CHR 0x0C"

lemma special_or_broken: "token_delimiter c \<longleftrightarrow> token_special c \<and> c \<noteq> backslash \<or> \<not> unbroken c"
proof (cases "c = backslash")
  case True
  then show ?thesis by (simp add: token_delimiter_def unbroken_def backslash_def string_ops)
next
  case False
  then show ?thesis unfolding token_delimiter_def token_special_def unbroken_def
    using of_char_eq_iff [of c "CHR 0x09", where 'a = nat] of_char_eq_iff [of c "CHR 0x0A", where 'a = nat]
      of_char_eq_iff [of c "CHR 0x0C", where 'a = nat] of_char_eq_iff [of c "CHR 0x0D", where 'a = nat]
      of_char_eq_iff [of c "CHR 0x20", where 'a = nat]
    by (simp add: string_ops) blast
qed

lemma special_ascii: "token_special c \<Longrightarrow> byte c < 128 \<and> unbroken c"
  by (auto simp: token_special_def unbroken_def backslash_def)

lemma backslash_ops [simp]: "unbroken backslash" "backslash \<noteq> CHR 0x22" "backslash \<noteq> CHR '' ''" "byte backslash < 128"
  by (simp_all add: unbroken_def backslash_def)

lemma multibyte_unbroken:
  assumes "utf8_chunk m = (True, length m)" "1 < length m"
  shows "takeWhile unbroken (m @ v) = m @ takeWhile unbroken v"
proof -
  have "unbroken b" if "b \<in> set m" for b
    using utf8_chunk_multi_bytes [OF assms that] by (auto simp: unbroken_def)
  then show ?thesis by (simp add: takeWhile_append2)
qed

lemma token_text_loop:
  assumes "token_text v e"
    and "rest = [] \<or> token_delimiter (hd rest)"
  shows "read_token_loop out i (e @ rest) = Some (out @ takeWhile unbroken v, i + length (takeWhile unbroken e))"
  using assms
proof (induction arbitrary: out i rule: token_text.induct)
  case token_Nil
  then show ?case by (cases rest) auto
next
  case (token_plain v e c)
  have "token_delimiter c \<longleftrightarrow> \<not> unbroken c" "c \<noteq> backslash"
    using token_plain(3) special_or_broken [of c] by (auto simp: token_special_def)
  with token_plain show ?case by (cases "unbroken c") simp_all
next
  case (token_escaped v e c)
  then show ?case using special_ascii [of c] by (simp add: push_byte_as_char_def)
next
  case (token_multibyte v e m)
  then show ?case by (simp add: token_loop_multibyte [of m] multibyte_unbroken)
qed

lemma token_start_head:
  assumes "token_text v e" "token_start v"
  obtains c w f where "v = c # w" "e = c # f" "token_text w f" "byte c < 128" "unbroken c"
proof -
  obtain c w where v: "v = c # w" using assms(2) by (cases v) auto
  then have c: "byte c < 128" "\<not> token_special c" "unbroken c"
    using assms(2) by (auto simp: is_digit_def token_special_def unbroken_def backslash_def)
  from assms(1) show thesis
  proof cases
    case (token_multibyte v' e' m)
    with v have "hd m = c" by (cases m) auto
    moreover have "128 \<le> byte (hd m)" using utf8_chunk_multi_head [of m] token_multibyte by (cases m) auto
    ultimately show ?thesis using c by simp
  qed (use v c that in auto)
qed

lemma written_loop:
  assumes "written v e" and "rest = [] \<or> token_delimiter (hd rest)"
  shows "read_token_loop [] 0 (e @ rest) = Some (takeWhile unbroken v, length (takeWhile unbroken e))"
  using assms(1)
proof cases
  case written_plain
  with token_text_loop [OF _ assms(2), of v e] show ?thesis by simp
next
  case (written_start f)
  obtain c w g where c: "v = c # w" "f = c # g" "token_text w g" "byte c < 128" "unbroken c"
    using token_start_head [OF written_start(2,3)] by metis
  with written_start token_text_loop [OF c(3) assms(2), of "[c]" 2] show ?thesis
    by (simp add: push_byte_as_char_def numeral_2_eq_2)
qed

text \<open>How a written value can begin.\<close>

lemma written_head:
  assumes "written v e" "v \<noteq> []"
  shows "e \<noteq> [] \<and> hd e \<noteq> CHR ''<'' \<and> hd e \<noteq> CHR 0x22"
  using assms(1)
proof cases
  case written_plain
  from written_plain(1) show ?thesis
  proof cases
    case (token_multibyte v' e' m)
    moreover have "128 \<le> byte (hd m)" using utf8_chunk_multi_head [of m] token_multibyte by (cases m) auto
    ultimately show ?thesis by (cases m) auto
  qed (use assms written_plain in \<open>auto simp: backslash_def\<close>)
qed (simp add: backslash_def)

text \<open>A space in a written value is behind a backslash.\<close>

definition spaces_escaped :: "string \<Rightarrow> bool" where
  "spaces_escaped e \<longleftrightarrow> (\<forall>a b. e = a @ CHR '' '' # b \<longrightarrow> a \<noteq> [] \<and> last a = backslash)"

lemma spaces_escaped_ops:
  "spaces_escaped []"
  "c \<noteq> CHR '' '' \<Longrightarrow> spaces_escaped e \<Longrightarrow> spaces_escaped (c # e)"
  "spaces_escaped e \<Longrightarrow> spaces_escaped (backslash # c # e)"
  "spaces_escaped (x @ y) \<Longrightarrow> spaces_escaped x"
  by (auto simp: spaces_escaped_def Cons_eq_append_conv backslash_def)

lemma spaces_escaped_text: "token_text v e \<Longrightarrow> spaces_escaped e"
proof (induction rule: token_text.induct)
  case (token_multibyte v e m)
  have "CHR '' '' \<notin> set m" using utf8_chunk_multi_bytes [OF token_multibyte(2,3)] by force
  with token_multibyte(4) show ?case by (induction m) (auto intro: spaces_escaped_ops)
qed (auto intro: spaces_escaped_ops simp: token_special_def)

subsection \<open>Bracket scanners\<close>

text \<open>Text in which every bracket that is not escaped is matched.\<close>

inductive balanced :: "char \<Rightarrow> char \<Rightarrow> string \<Rightarrow> bool" for opn cls where
  balanced_Nil: "balanced opn cls []"
| balanced_plain: "\<lbrakk>balanced opn cls s; c \<noteq> backslash; c \<noteq> opn; c \<noteq> cls\<rbrakk> \<Longrightarrow>
    balanced opn cls (c # s)"
| balanced_escape: "balanced opn cls s \<Longrightarrow> balanced opn cls (backslash # c # s)"
| balanced_nest: "\<lbrakk>balanced opn cls a; balanced opn cls s\<rbrakk> \<Longrightarrow>
    balanced opn cls (opn # a @ cls # s)"

lemma balanced_append: "balanced opn cls a \<Longrightarrow> balanced opn cls b \<Longrightarrow> balanced opn cls (a @ b)"
proof (induction rule: balanced.induct)
  case (balanced_nest a s)
  then have "balanced opn cls (opn # a @ cls # (s @ b))" by (intro balanced.intros)
  then show ?case by simp
qed (auto intro: balanced.intros)

text \<open>What a scan at depth \<open>d\<close> passes over: balanced text with \<open>d\<close> closing brackets in between.\<close>

inductive closing :: "char \<Rightarrow> char \<Rightarrow> nat \<Rightarrow> string \<Rightarrow> bool" for opn cls where
  closing_0: "balanced opn cls a \<Longrightarrow> closing opn cls 0 a"
| closing_Suc: "balanced opn cls a \<Longrightarrow> closing opn cls d s \<Longrightarrow> closing opn cls (Suc d) (a @ cls # s)"

text \<open>A test for it by counting.\<close>

fun closes :: "char \<Rightarrow> char \<Rightarrow> nat \<Rightarrow> string \<Rightarrow> bool" where
  "closes opn cls d [] = (d = 0)"
| "closes opn cls d (b # rest) =
     (if b = backslash then (case rest of [] \<Rightarrow> False | e # rest' \<Rightarrow> closes opn cls d rest')
      else if b = opn then closes opn cls (d + 1) rest
      else if b = cls then d \<noteq> 0 \<and> closes opn cls (d - 1) rest
      else closes opn cls d rest)"

text \<open>What a pair of bracket bytes has to satisfy for the scanner to work, and what the scanner then
  does; both bracket kinds of a node dump are instances.\<close>

locale bracket_pair =
  fixes opn cls :: char
  assumes distinct_brackets: "opn \<noteq> cls"
    and opn_plain: "opn \<noteq> backslash"
    and cls_plain: "cls \<noteq> backslash"
begin

lemma body_skips_balanced:
  "balanced opn cls a \<Longrightarrow> bracket_body opn cls d (a @ s) = a @ bracket_body opn cls d s"
proof (induction arbitrary: d s rule: balanced.induct)
  case (balanced_nest a t)
  then show ?case using distinct_brackets opn_plain cls_plain by simp
qed (use distinct_brackets opn_plain cls_plain in auto)

lemma body_of_balanced: "balanced opn cls a \<Longrightarrow> bracket_body opn cls 0 (a @ cls # rest) = a"
  using body_skips_balanced [of a 0 "cls # rest"] distinct_brackets cls_plain by simp

lemma closing_prepend: "closing opn cls d s \<Longrightarrow> balanced opn cls a \<Longrightarrow> closing opn cls d (a @ s)"
proof (induction rule: closing.induct)
  case (closing_Suc b d s)
  then have "closing opn cls (Suc d) ((a @ b) @ cls # s)"
    by (intro closing.intros balanced_append)
  then show ?case by simp
qed (auto intro: closing.intros balanced_append)

lemma closing_open: "closing opn cls (Suc d) s \<Longrightarrow> closing opn cls d (opn # s)"
proof (erule closing.cases)
  fix a e t
  assume "Suc d = Suc e" and s: "s = a @ cls # t" and "balanced opn cls a"
    and t: "closing opn cls e t"
  then have "balanced opn cls (opn # a @ cls # [])" by (intro balanced.intros)
  from closing_prepend [OF t this] s \<open>Suc d = Suc e\<close> show ?thesis by simp
qed simp

lemmas closing_step =
  closing_prepend [of _ _ "[c]" for c, simplified] closing_prepend [of _ _ "[backslash, c]" for c, simplified]
  closing_open closing_Suc [of _ _ "[]", simplified, OF balanced_Nil]

lemma scan_cases:
  obtains (trailing) "b = backslash" "rest = []"
    | (escape) e r where "b = backslash" "rest = e # r"
    | (nested) "b = opn"
    | (stop) "b = cls" "d = 0"
    | (closer) e where "b = cls" "d = Suc e"
    | (plain) "b \<noteq> backslash" "b \<noteq> opn" "b \<noteq> cls"
  by (cases rest; cases d) auto

lemma closes_closing: "closes opn cls d s \<Longrightarrow> closing opn cls d s"
proof (induction "length s" arbitrary: s d rule: less_induct)
  case less
  show ?case
  proof (cases s)
    case Nil
    with less.prems show ?thesis by (auto intro: closing.intros balanced.intros)
  next
    case (Cons b rest)
    show ?thesis
    proof (cases rule: scan_cases [where b = b and rest = rest and d = d])
      case (escape e r)
      with less.hyps [of r d] less.prems Cons show ?thesis
        by (auto intro: closing_step(2) balanced.intros)
    next
      case nested
      with less Cons opn_plain show ?thesis by (auto intro: closing_step(3))
    next
      case (closer e)
      with less Cons cls_plain distinct_brackets show ?thesis by (auto intro: closing_step(4))
    next
      case plain
      with less Cons show ?thesis by (auto intro: closing_step(1) balanced.intros)
    qed (use Cons less.prems cls_plain distinct_brackets in auto)
  qed
qed

lemma body_closing:
  "bracket_body opn cls d s = s \<or>
   (\<exists>rest. s = bracket_body opn cls d s @ cls # rest \<and> closing opn cls d (bracket_body opn cls d s))"
proof (induction "length s" arbitrary: s d rule: less_induct)
  case less
  show ?case
  proof (cases s)
    case (Cons b rest)
    show ?thesis
    proof (cases rule: scan_cases [where b = b and rest = rest and d = d])
      case (escape e r)
      with less [of r d] Cons show ?thesis
        by (auto intro: closing_step(2) balanced.intros)
    next
      case nested
      with less [of rest "Suc d"] Cons opn_plain show ?thesis
        by (auto intro: closing_step(3))
    next
      case (closer e)
      with less [of rest e] Cons cls_plain distinct_brackets show ?thesis
        by (auto intro: closing_step(4))
    next
      case plain
      with less [of rest d] Cons show ?thesis
        by (auto intro: closing_step(1) balanced.intros)
    qed (use Cons cls_plain distinct_brackets in \<open>auto intro: closing.intros balanced.intros\<close>)
  qed simp
qed

lemma closing_0_iff [simp]: "closing opn cls 0 a = balanced opn cls a"
  by (auto elim: closing.cases intro: closing.intros)

lemma closes_balanced: "closes opn cls 0 s \<Longrightarrow> balanced opn cls s"
  using closes_closing [of 0 s] by simp

lemma body_balanced:
  "bracket_body opn cls 0 s = s \<or>
   (\<exists>rest. s = bracket_body opn cls 0 s @ cls # rest \<and> balanced opn cls (bracket_body opn cls 0 s))"
  using body_closing [of 0 s] by simp

end

interpretation node_brackets: bracket_pair "CHR 0x7B" "CHR 0x7D"
  by unfold_locales (simp_all add: backslash_def)

interpretation list_brackets: bracket_pair "CHR 0x28" "CHR 0x29"
  by unfold_locales (simp_all add: backslash_def)


subsection \<open>Well-formed input never panics\<close>

fun escapes_ascii :: "string \<Rightarrow> bool" where
  "escapes_ascii (c # d # s) = ((c = backslash \<longrightarrow> byte d < 128) \<and> escapes_ascii (d # s))"
| "escapes_ascii _ = True"

lemma escapes_ascii_append: "escapes_ascii (a @ b) \<Longrightarrow> escapes_ascii a \<and> escapes_ascii b"
proof (induction a rule: escapes_ascii.induct)
  case (1 c d s)
  then show ?case by simp
next
  case "2_2"
  then show ?case by (cases b) auto
qed auto

lemma escapes_ascii_tl: "escapes_ascii (c # s) \<Longrightarrow> escapes_ascii s"
  using escapes_ascii_append [of "[c]" s] by simp

lemma next_char_valid:
  assumes "utf8_valid s" "s \<noteq> []"
  obtains ch t where "next_char s = Some (ch, t)" "s = ch @ t" "utf8_valid t"
proof -
  obtain n where n: "utf8_chunk s = (True, n)" "utf8_valid (drop n s)"
    using utf8_valid_Cons [OF assms] by metis
  with utf8_chunk_head [OF assms(2) n(1)] assms(2) that [of "take n s" "drop n s"]
  show ?thesis by (simp add: next_char_def)
qed

lemma backslash_ascii [simp]: "byte backslash < 128"
  by (simp add: backslash_def)

lemma read_token_loop_total:
  "utf8_valid s \<Longrightarrow> escapes_ascii s \<Longrightarrow> \<exists>r. read_token_loop out i s = Some r"
proof (induction out i s rule: read_token_loop.induct)
  case (2 out i b rest)
  show ?case
  proof (cases "b = backslash")
    case True
    with 2 show ?thesis
      by (cases rest) (auto simp: read_token_loop.simps(2) dest: escapes_ascii_tl)
  next
    case False
    obtain ch t where c: "next_char (b # rest) = Some (ch, t)" "b # rest = ch @ t" "utf8_valid t"
      using next_char_valid [OF "2.prems"(1)] by blast
    then have t: "escapes_ascii t" using "2.prems"(2) escapes_ascii_append [of ch t] by simp
    show ?thesis
      using False 2(2,3,4,5) c(1,3) t
      by (auto simp: read_token_loop.simps(2) dest: escapes_ascii_tl)
  qed
qed simp

lemma read_token_total:
  assumes "utf8_valid s" "escapes_ascii s"
  shows "\<exists>r. read_token s = Some r"
  using read_token_loop_total [OF assms, of "[]" 0] by (auto simp: read_token_def)

lemma read_quoted_total:
  "utf8_valid s \<Longrightarrow> escapes_ascii s \<Longrightarrow>
     \<exists>q rest. read_quoted out s = Some (q, rest) \<and> utf8_valid rest \<and> escapes_ascii rest"
proof (induction out s rule: read_quoted.induct)
  case (2 out b rest)
  obtain ch t where c: "next_char (b # rest) = Some (ch, t)" "b # rest = ch @ t" "utf8_valid t"
    using next_char_valid [OF "2.prems"(1)] by blast
  then have t: "escapes_ascii t" using "2.prems"(2) escapes_ascii_append [of ch t] by simp
  have rest: "escapes_ascii rest" using "2.prems"(2) by (rule escapes_ascii_tl)
  consider (quote) "b = CHR 0x22" | (escape) e r where "b = backslash" "rest = e # r"
    | (plain) "b \<noteq> CHR 0x22" "b = backslash \<longrightarrow> rest = []" "byte b < 128"
    | (multi) "b \<noteq> CHR 0x22" "b \<noteq> backslash" "\<not> byte b < 128"
    by (cases "b = backslash"; cases rest; cases "byte b < 128") (auto simp: backslash_def)
  then show ?case
  proof cases
    case (escape e r)
    have "backslash \<noteq> CHR 0x22" by (simp add: backslash_def)
    with escape 2(1) "2.prems" escapes_ascii_tl [of e r] rest show ?thesis
      by (auto simp: read_quoted.simps(2) [of out backslash])
  next
    case plain
    with 2(2) "2.prems"(1) rest show ?thesis by (auto simp: read_quoted.simps(2) [of out b])
  next
    case multi
    with 2(3) c(1,3) t show ?thesis by (auto simp: read_quoted.simps(2) [of out b])
  qed (use "2.prems"(1) rest in \<open>simp add: read_quoted.simps(2)\<close>)
qed simp

text \<open>The outer loop skips single bytes, so between two quotes it need not be at a character
  boundary: it keeps to the end of a valid string.\<close>

lemma quoted_strings_total:
  "utf8_valid (a @ s) \<Longrightarrow> escapes_ascii s \<Longrightarrow> \<exists>r. quoted_strings s = Some r"
proof (induction s arbitrary: a rule: quoted_strings.induct)
  case (2 b rest)
  have e: "escapes_ascii rest" using "2.prems"(2) by (rule escapes_ascii_tl)
  show ?case
  proof (cases "b = CHR 0x22")
    case True
    with "2.prems" have "utf8_valid rest" using utf8_valid_around_ascii(2) [of a b rest] by simp
    then obtain q rest' where r: "read_quoted [] rest = Some (q, rest')"
      and v: "utf8_valid ([] @ rest')" and x: "escapes_ascii rest'"
      using read_quoted_total e by fastforce
    have "\<exists>r. quoted_strings rest' = Some r"
      by (rule 2(2) [OF _ r refl v x]) (simp add: True)
    with True r show ?thesis by auto
  next
    case False
    with 2(1) [of "a @ [b]"] "2.prems"(1) e show ?thesis by simp
  qed
qed simp


lemma collect_panics_total:
  "(\<And>x. x \<in> set xs \<Longrightarrow> \<exists>y. f x = Some y) \<Longrightarrow> \<exists>ys. collect_panics f xs = Some ys"
  by (induction xs) (fastforce split: option.splits)+

lemma collect_panics_mem:
  "collect_panics f xs = Some ys \<Longrightarrow> x \<in> set xs \<Longrightarrow> f x = Some zs \<Longrightarrow> set zs \<subseteq> set ys"
  by (induction xs arbitrary: ys) (fastforce split: option.splits)+

text \<open>What a needle of the dump leaves behind it is again valid and safely escaped, and so is the
  bracketed body taken from that text.\<close>

definition dump_safe :: "string \<Rightarrow> bool" where
  "dump_safe s = (utf8_valid s \<and> escapes_ascii s)"

lemma dump_safe_after:
  assumes "dump_safe (a @ n @ t)" "n \<noteq> []" "list_all (\<lambda>c. byte c < 128) n"
  shows "dump_safe t"
  using assms utf8_valid_after_ascii [of a n t] escapes_ascii_append [of "a @ n" t]
  by (simp add: dump_safe_def)

lemma dump_safe_scan:
  assumes "dump_safe s" "t \<in> set (scan_after n s)" "n \<noteq> []" "list_all (\<lambda>c. byte c < 128) n"
  shows "dump_safe t"
  using scan_after_sound [OF assms(2)] dump_safe_after [OF _ assms(3,4)] assms(1) by blast

lemma dump_safe_body:
  assumes "dump_safe s" "s = b \<or> (\<exists>rest. s = b @ c # rest)" "byte c < 128"
  shows "dump_safe b"
  using assms utf8_valid_around_ascii(1) [of b c] escapes_ascii_append [of b]
  by (auto simp: dump_safe_def)

lemma dump_safe_node_body: "dump_safe s \<Longrightarrow> dump_safe (node_body s)"
  using node_brackets.body_balanced [of s]
  by (rule_tac dump_safe_body [of s _ "CHR 0x7D"]) (auto simp: node_body_def)

lemma dump_safe_paren_body: "dump_safe s \<Longrightarrow> dump_safe (paren_body s)"
  using list_brackets.body_balanced [of s]
  by (rule_tac dump_safe_body [of s _ "CHR 0x29"]) (auto simp: paren_body_def)

lemma field_total:
  assumes "dump_safe body" "list_all (\<lambda>c. byte c < 128) name"
  shows "\<exists>r. field body name = Some r"
proof (cases "str_find (CHR '':'' # name @ '' '') body")
  case (Some p)
  let ?n = "CHR '':'' # name @ '' ''"
  from str_find_Some_split [OF Some] have "dump_safe (take p body @ ?n @ drop (p + length ?n) body)"
    using assms(1) by simp
  then have "dump_safe (drop (p + length ?n) body)"
    by (rule dump_safe_after) (use assms(2) in \<open>simp_all add: list_all_iff\<close>)
  then obtain r where "read_token (drop (p + length ?n) body) = Some r"
    using read_token_total [of "drop (p + length ?n) body"] by (auto simp: dump_safe_def)
  with Some show ?thesis by (simp add: field_def)
qed (simp add: field_def)

lemma dump_relations_total: "dump_safe dump \<Longrightarrow> \<exists>r. dump_relations dump = Some r"
  unfolding dump_relations_def
proof (rule collect_panics_total)
  fix t
  assume "dump_safe dump" "t \<in> set (scan_after ''{RANGEVAR '' dump)"
  then have "dump_safe t" by (rule dump_safe_scan) simp_all
  then have b: "dump_safe (node_body t)" by (rule dump_safe_node_body)
  then show "\<exists>y. dump_relation t = Some y"
    using field_total [OF b, of "''relname''"] field_total [OF b, of "''schemaname''"]
    by (auto simp: dump_relation_def Let_def split: option.splits)
qed

lemma dump_ctes_total: "dump_safe dump \<Longrightarrow> \<exists>r. dump_ctes dump = Some r"
  unfolding dump_ctes_def
proof (rule collect_panics_total)
  fix t
  assume "dump_safe dump" "t \<in> set (scan_after '':ctename '' dump)"
  then have "dump_safe t" by (rule dump_safe_scan) simp_all
  then show "\<exists>y. dump_cte t = Some y"
    using read_token_total [of t] by (auto simp: dump_cte_def dump_safe_def split: option.splits)
qed

lemma dump_functions_total: "dump_safe dump \<Longrightarrow> \<exists>r. dump_functions dump = Some r"
  unfolding dump_functions_def
proof (rule collect_panics_total)
  fix t
  assume "dump_safe dump" "t \<in> set (scan_after '':funcname ('' dump)"
  then have "dump_safe t" by (rule dump_safe_scan) simp_all
  then have "dump_safe (paren_body t)" by (rule dump_safe_paren_body)
  then show "\<exists>y. dump_function t = Some y"
    using quoted_strings_total [of "[]" "paren_body t"]
    by (auto simp: dump_function_def dump_safe_def)
qed

subsection \<open>Fields and names as they are written\<close>

text \<open>A field value: \<open><>\<close> for NULL, an empty pair of quotes for the empty string, otherwise a token.\<close>

inductive token_value :: "string option \<Rightarrow> string \<Rightarrow> bool" where
  value_null: "token_value None ''<>''"
| value_empty: "token_value (Some []) [CHR 0x22, CHR 0x22]"
| value_text: "\<lbrakk>written v e; v \<noteq> []\<rbrakk> \<Longrightarrow> token_value (Some v) e"

lemma read_token_value:
  assumes "token_value v e" "token_delimiter d"
  shows "read_token (e @ d # rest) = Some (map_option (takeWhile unbroken) v, length (takeWhile unbroken e))"
  using assms(1)
proof cases
  case (value_text w)
  obtain c f where "e = c # f" "c \<noteq> CHR ''<''" "c \<noteq> CHR 0x22" using written_head [OF value_text(2,3)] by (cases e) auto
  then have "\<not> prefix ''<>'' (e @ d # rest)" "\<not> prefix [CHR 0x22, CHR 0x22] (e @ d # rest)" by simp_all
  with value_text written_loop [OF value_text(2), of "d # rest"] assms(2) show ?thesis
    by (simp add: read_token_def)
qed (simp_all add: read_token_def unbroken_def)

lemma field_value:
  assumes "unbordered (CHR '':'' # name @ '' '')" "\<not> sublist (CHR '':'' # name @ '' '') a"
    and "token_value v e" "token_delimiter d"
  shows "field (a @ (CHR '':'' # name @ '' '') @ e @ d # rest) name = Some (map_option (takeWhile unbroken) v)"
  using str_find_after [OF assms(1,2), of "e @ d # rest"] read_token_value [OF assms(3,4), of rest]
  by (simp add: field_def Let_def)

lemma written_unbroken:
  assumes "written v e"
  shows "takeWhile unbroken e = e \<longleftrightarrow> takeWhile unbroken v = v"
proof -
  have "takeWhile unbroken e = e \<longleftrightarrow> takeWhile unbroken v = v" if "token_text v e" for v e
    using that
  proof induction
    case (token_multibyte v e m)
    then show ?case by (simp add: multibyte_unbroken del: takeWhile_eq_all_conv)
  qed (auto simp: special_ascii simp del: takeWhile_eq_all_conv)
  with assms show ?thesis by (auto elim!: written.cases simp del: takeWhile_eq_all_conv)
qed

lemma token_value_unbroken:
  assumes "token_value v e"
  shows "length (takeWhile unbroken e) = length e \<longleftrightarrow> (case v of None \<Rightarrow> True | Some w \<Rightarrow> takeWhile unbroken w = w)"
proof -
  have "length (takeWhile unbroken e) = length e \<longleftrightarrow> takeWhile unbroken e = e"
    by (metis append_Nil2 append_eq_conv_conj takeWhile_dropWhile_id takeWhile_eq_take length_append)
  with assms show ?thesis by cases (simp_all add: written_unbroken unbroken_def del: takeWhile_eq_all_conv)
qed

text \<open>A written value has no bare bracket, and no bare space.\<close>

lemma balanced_prepend:
  "(\<And>b. b \<in> set m \<Longrightarrow> b \<noteq> backslash \<and> b \<noteq> opn \<and> b \<noteq> cls) \<Longrightarrow> balanced opn cls e \<Longrightarrow> balanced opn cls (m @ e)"
  by (induction m) (auto intro: balanced.intros)

lemma token_text_balanced:
  assumes "token_text v e" "token_special opn" "token_special cls"
  shows "balanced opn cls e"
  using assms(1)
proof induction
  case (token_plain v e c)
  then show ?case using assms(2,3) by (intro balanced_plain) (auto simp: token_special_def)
next
  case (token_multibyte v e m)
  have "b \<noteq> backslash \<and> b \<noteq> opn \<and> b \<noteq> cls" if "b \<in> set m" for b
    using utf8_chunk_multi_bytes [OF token_multibyte(2,3) that] special_ascii [OF assms(2)] special_ascii [OF assms(3)]
      backslash_ops(4) by (metis linorder_not_le)
  with token_multibyte show ?case by (intro balanced_prepend)
qed (auto intro: balanced.intros)

lemma written_balanced:
  assumes "written v e" "token_special opn" "token_special cls"
  shows "balanced opn cls e"
  using assms(1)
proof cases
  case (written_start f)
  obtain c w g where "f = c # g" "token_text w g" using token_start_head [OF written_start(2,3)] by metis
  with written_start token_text_balanced assms(2,3) show ?thesis by (auto intro: balanced_escape)
qed (use token_text_balanced assms(2,3) in blast)

lemma token_value_text:
  assumes "token_value v e"
  shows "balanced (CHR 0x7B) (CHR 0x7D) e" "spaces_escaped e"
proof -
  have sp: "token_special (CHR 0x7B)" "token_special (CHR 0x7D)" by (simp_all add: token_special_def)
  from assms show "balanced (CHR 0x7B) (CHR 0x7D) e"
  proof cases
    case (value_text w)
    from written_balanced [OF value_text(2) sp] show ?thesis .
  qed (auto intro!: balanced_plain balanced_Nil simp: backslash_def)
  from assms show "spaces_escaped e"
  proof cases
    case (value_text w)
    then show ?thesis
      by (auto elim!: written.cases intro: spaces_escaped_text spaces_escaped_ops(2))
  qed (auto intro: spaces_escaped_ops)
qed

text \<open>Where \<open>field\<close> finds the relation name: at its own label, unless the written schema ends in that label.\<close>

lemma no_relname_before:
  assumes "spaces_escaped x"
  shows "\<not> sublist '':relname '' ('':schemaname '' @ x)"
proof
  assume "sublist '':relname '' ('':schemaname '' @ x)"
  then obtain a b where eq: "'':schemaname '' @ x = a @ '':relname '' @ b" by (auto simp: sublist_def)
  show False
  proof (cases "length a < 12")
    case True
    then have "('':schemaname '' @ x) ! length a = ('':schemaname '') ! length a" by (subst nth_append) simp
    moreover have "('':schemaname '' @ x) ! length a = CHR '':''" unfolding eq by (simp add: nth_append)
    moreover have "\<forall>k\<in>{1..<12}. ('':schemaname '') ! k \<noteq> CHR '':''" by code_simp
    ultimately have "length a \<notin> {1..<12}" by metis
    with True have "a = []" by (cases a) auto
    with eq show False by simp
  next
    case False
    then have "x = drop 12 a @ '':relname'' @ CHR '' '' # b" using arg_cong [OF eq, of "drop 12"] by simp
    then have "last (drop 12 a @ '':relname'') = backslash" using assms unfolding spaces_escaped_def by (metis append.assoc)
    then show False by (simp add: backslash_def)
  qed
qed

lemma relname_label:
  assumes "spaces_escaped e" "\<not> suffix '':relname'' e"
  shows "\<not> sublist '':relname '' ('':schemaname '' @ e @ '' '')"
proof
  assume "sublist '':relname '' ('':schemaname '' @ e @ '' '')"
  then obtain a b where eq: "'':schemaname '' @ e @ '' '' = a @ '':relname '' @ b" by (auto simp: sublist_def)
  show False
  proof (cases b rule: rev_cases)
    case Nil
    with arg_cong [OF eq, of butlast] have eq': "'':schemaname '' @ e = a @ '':relname''" by (simp add: butlast_append)
    show False
    proof (cases "length a < 12")
      case True
      then have "length e < 8" using arg_cong [OF eq', of length] by simp
      then have "('':schemaname '' @ e) ! 11 = ('':relname'') ! (11 - length a)" "11 - length a < 8"
        unfolding eq' using True arg_cong [OF eq', of length] by (auto simp: nth_append)
      moreover have "\<forall>k\<in>{..<8}. ('':relname'') ! k \<noteq> CHR '' ''" by code_simp
      ultimately show False by (auto simp: nth_append)
    next
      case False
      then have "e = drop 12 a @ '':relname''" using arg_cong [OF eq', of "drop 12"] by simp
      with assms(2) show False by (auto simp: suffix_def)
    qed
  next
    case (snoc b' c)
    with eq have "'':schemaname '' @ e = a @ '':relname '' @ b'" by (metis append.assoc butlast_snoc)
    then have "sublist '':relname '' ('':schemaname '' @ e)" by (simp add: sublist_def) blast
    with no_relname_before [OF assms(1)] show False by simp
  qed
qed

text \<open>A list of names: each between quotes, written as a token, or nothing for the empty name, with spaces between.\<close>

definition name_text :: "string \<Rightarrow> string \<Rightarrow> bool" where
  "name_text v e \<longleftrightarrow> (if v = [] then e = [] else written v e)"

inductive quoted_list :: "string list \<Rightarrow> string \<Rightarrow> bool" where
  list_one: "name_text v e \<Longrightarrow> quoted_list [v] (CHR 0x22 # e @ [CHR 0x22])"
| list_more: "\<lbrakk>name_text v e; quoted_list vs rest\<rbrakk> \<Longrightarrow>
    quoted_list (v # vs) (CHR 0x22 # e @ CHR 0x22 # CHR '' '' # rest)"

lemma read_quoted_text:
  "token_text v e \<Longrightarrow> CHR 0x22 \<notin> set v \<Longrightarrow> read_quoted out (e @ CHR 0x22 # rest) = Some (out @ v, rest)"
proof (induction arbitrary: out rule: token_text.induct)
  case (token_multibyte v e m)
  then obtain b m' where m: "m = b # m'" by (cases m) auto
  have "128 \<le> byte b" using utf8_chunk_multi_head [OF _ token_multibyte(2,3)] m by simp
  then have "b \<noteq> backslash" "b \<noteq> CHR 0x22" by (auto simp: backslash_def)
  with \<open>128 \<le> byte b\<close> m token_multibyte next_char_append [of m "e @ CHR 0x22 # rest"] show ?case
    by (simp add: read_quoted.simps(2) [of out b])
next
  case (token_plain v e c)
  then show ?case by (auto simp: read_quoted.simps(2) [of out c] token_special_def)
next
  case (token_escaped v e c)
  then show ?case using special_ascii [of c]
    by (simp add: read_quoted.simps(2) [of out backslash] push_byte_as_char_def)
qed (simp add: read_quoted.simps(2))

lemma read_quoted_name:
  assumes "name_text v e" "CHR 0x22 \<notin> set (tl v)"
  shows "read_quoted [] (e @ CHR 0x22 # rest) = Some (v, rest)"
proof (cases "v = []")
  case True
  with assms show ?thesis by (simp add: name_text_def read_quoted.simps(2))
next
  case False
  with assms have "written v e" by (simp add: name_text_def)
  then show ?thesis
  proof cases
    case written_plain
    from written_plain(2) False have "hd v \<noteq> CHR 0x22" by (cases v) auto
    with False assms(2) have "CHR 0x22 \<notin> set v" by (cases v) auto
    with read_quoted_text [OF written_plain(1)] show ?thesis by simp
  next
    case (written_start f)
    obtain c w g where c: "v = c # w" "f = c # g" "token_text w g" "byte c < 128"
      using token_start_head [OF written_start(2,3)] by metis
    with written_start read_quoted_text [OF c(3), of "[c]" rest] assms(2) show ?thesis
      by (simp add: read_quoted.simps(2) [of "[]" backslash] push_byte_as_char_def)
  qed
qed

lemma quoted_strings_list:
  "quoted_list vs s \<Longrightarrow> list_all (\<lambda>v. CHR 0x22 \<notin> set (tl v)) vs \<Longrightarrow> quoted_strings s = Some vs"
  by (induction rule: quoted_list.induct) (simp_all add: read_quoted_name)

lemma quoted_list_balanced: "quoted_list vs s \<Longrightarrow> balanced (CHR 0x28) (CHR 0x29) s"
proof -
  have sp: "token_special (CHR 0x28)" "token_special (CHR 0x29)" by (simp_all add: token_special_def)
  have name: "balanced (CHR 0x28) (CHR 0x29) e" if "name_text v e" for v e
    using that written_balanced [OF _ sp] by (auto simp: name_text_def balanced_Nil split: if_splits)
  show "quoted_list vs s \<Longrightarrow> balanced (CHR 0x28) (CHR 0x29) s"
  proof (induction rule: quoted_list.induct)
    case (list_one v e)
    have "balanced (CHR 0x28) (CHR 0x29) [CHR 0x22]" by (intro balanced.intros) (simp_all add: backslash_def)
    from balanced_append [OF this balanced_append [OF name [OF list_one] this]] show ?case by simp
  next
    case (list_more v e vs rest)
    have "balanced (CHR 0x28) (CHR 0x29) [CHR 0x22]" "balanced (CHR 0x28) (CHR 0x29) [CHR 0x22, CHR '' '']"
      by (intro balanced.intros, simp_all add: backslash_def)+
    from balanced_append [OF this(1) balanced_append [OF name [OF list_more(1)] balanced_append [OF this(2) list_more(3)]]]
    show ?case by simp
  qed
qed

subsection \<open>The fields of the answer\<close>

lemma analyze_dump_fields:
  assumes "analyze_dump dump = Some v" "dump \<noteq> []"
  obtains rels ctes fns where
    "dump_relations dump = Some rels" "dump_ctes dump = Some ctes" "dump_functions dump = Some fns"
    "get_bool v ''ok'' = Some True"
    "json_get v ''statements'' = Some (JInt (int (length (statement_kinds dump))))"
    "get_str v ''kind'' = Some (statement_kind (statement_kinds dump))"
    "get_bool v ''writes'' = Some (dump_writes dump)"
    "get_array v ''relations'' = Some rels"
    "get_array v ''functions'' = Some fns"
    "get_array v ''ctes'' = Some ctes"
  using assms
  by (auto simp: analyze_dump_def Let_def get_array_def get_bool_def get_str_def json_get_object
      as_array_def as_bool_def as_str_def split: bind_splits)

lemma statement_kinds_complete:
  assumes "dump = pre @ ''{RAWSTMT'' @ body @ CHR 0x7D # post"
    and "balanced (CHR 0x7B) (CHR 0x7D) body" and "str_find '':stmt {'' body = Some q"
  shows "read_ident (drop (q + 7) body) \<in> set (statement_kinds dump)"
proof -
  let ?t = "body @ CHR 0x7D # post"
  have "?t \<in> set (scan_after ''{RAWSTMT'' (pre @ ''{RAWSTMT'' @ ?t))"
    by (rule scan_after_complete) code_simp
  moreover have "node_body ?t = body"
    using node_brackets.body_of_balanced [OF assms(2)] by (simp add: node_body_def)
  ultimately show ?thesis using assms(1,3) by (force simp: statement_kinds_def Let_def)
qed

text \<open>What \<open>field\<close> reads of a \<open>RangeVar\<close>.\<close>

lemma rangevar_fields:
  assumes schema: "token_value schema se" and name: "token_value (Some name) re"
  shows "field ('':schemaname '' @ se @ '' :relname '' @ re @ '' '' @ tl_text) ''schemaname'' =
      Some (map_option (takeWhile unbroken) schema)"
    and "field ('':schemaname '' @ se @ '' :relname '' @ re @ '' '' @ tl_text) ''relname'' =
      Some (Some (if suffix '':relname'' se then '':relname'' else takeWhile unbroken name))"
proof -
  have sp: "token_delimiter (CHR '' '')" by (simp add: token_delimiter_def string_ops)
  have u: "unbordered '':relname ''" "unbordered '':schemaname ''" by code_simp+
  note spaces = token_value_text(2) [OF schema]
  from field_value [of "''schemaname''" "[]" schema se "CHR '' ''" "'':relname '' @ re @ '' '' @ tl_text"] u(2) schema sp
  show "field ('':schemaname '' @ se @ '' :relname '' @ re @ '' '' @ tl_text) ''schemaname'' =
      Some (map_option (takeWhile unbroken) schema)" by simp
  show "field ('':schemaname '' @ se @ '' :relname '' @ re @ '' '' @ tl_text) ''relname'' =
      Some (Some (if suffix '':relname'' se then '':relname'' else takeWhile unbroken name))"
  proof (cases "suffix '':relname'' se")
    case True
    then obtain x where x: "se = x @ '':relname''" by (auto simp: suffix_def)
    have "\<not> sublist '':relname '' ('':schemaname '' @ x)" using no_relname_before spaces spaces_escaped_ops(4) x by blast
    moreover have "token_value (Some '':relname'') '':relname''"
      by (intro value_text written_plain token_text.intros) (simp_all add: token_special_def backslash_def is_digit_def)
    ultimately show ?thesis
      using field_value [of "''relname''" "'':schemaname '' @ x" "Some '':relname''" "'':relname''" "CHR '' ''" "re @ '' '' @ tl_text"]
        u(1) sp True x by (simp add: unbroken_def)
  next
    case False
    then show ?thesis
      using field_value [of "''relname''" "'':schemaname '' @ se @ '' ''" "Some name" re "CHR '' ''" tl_text]
        relname_label [OF spaces] u(1) name sp by simp
  qed
qed

lemma letter_written:
  assumes "is_ascii_alphanumeric c" "\<not> is_digit c"
  shows "written [c] [c]"
  using assms by (intro written_plain token_text.intros) (auto simp: token_special_def backslash_def string_ops)

section \<open>Properties\<close>

text \<open>C23: what the reader makes of a value \<open>outToken\<close> wrote, followed by any delimiter. It is cut at the first carriage
  return or form feed, the two delimiters \<open>outToken\<close> does not escape; so it is read back exactly, with the length
  of what was written, if and only if it has neither. NULL and the empty string are always read back.\<close>

theorem read_token_roundtrip:
  assumes "token_value v e" and "token_delimiter d"
  shows "read_token (e @ d # rest) = Some (map_option (takeWhile unbroken) v, length (takeWhile unbroken e))
    \<and> (read_token (e @ d # rest) = Some (v, length e) \<longleftrightarrow>
         (case v of None \<Rightarrow> True | Some w \<Rightarrow> CHR 0x0D \<notin> set w \<and> CHR 0x0C \<notin> set w))"
  using read_token_value [OF assms, of rest] token_value_unbroken [OF assms(1)]
  by (auto simp: takeWhile_eq_all_conv unbroken_def split: option.splits)

theorem read_token_roundtrip_witness:
  "read_token (''caf'' @ [CHR 0xC3, CHR 0xA9, CHR 0x5C, CHR ''}''] @ ''bar} :x'') =
     Some (Some (''caf'' @ [CHR 0xC3, CHR 0xA9, CHR ''}''] @ ''bar''), 10)"
proof -
  let ?e = "CHR ''c'' # CHR ''a'' # CHR ''f'' # [CHR 0xC3, CHR 0xA9] @ backslash # CHR ''}'' #
    CHR ''b'' # CHR ''a'' # CHR ''r'' # []"
  have "token_text (CHR ''c'' # CHR ''a'' # CHR ''f'' # [CHR 0xC3, CHR 0xA9] @ CHR ''}'' #
      CHR ''b'' # CHR ''a'' # CHR ''r'' # []) ?e"
    by (intro token_text.intros)
      (simp_all add: token_special_def backslash_def utf8_chunk_def safe_get_def cont_byte_def Let_def)
  then have "token_value (Some (''caf'' @ [CHR 0xC3, CHR 0xA9, CHR ''}''] @ ''bar'')) ?e"
    by (intro value_text written_plain) (simp_all add: is_digit_def)
  from read_token_roundtrip [OF this, of "CHR ''}''" "'' :x''"] show ?thesis
    by (simp add: token_delimiter_def backslash_def unbroken_def)
qed

text \<open>\<open>node_body\<close> stops at the brace that closes its own node. When it stops before the end, what it
  returns is balanced and the next byte is the closing brace; and for balanced text followed by a
  closing brace it returns exactly that text, whatever comes after.\<close>

theorem node_body_matches_own_brace:
  "(node_body s \<noteq> s \<longrightarrow>
      (\<exists>rest. s = node_body s @ CHR 0x7D # rest \<and> balanced (CHR 0x7B) (CHR 0x7D) (node_body s)))
   \<and> (\<forall>a rest. balanced (CHR 0x7B) (CHR 0x7D) a \<longrightarrow> node_body (a @ CHR 0x7D # rest) = a)"
  using node_brackets.body_balanced [of s] node_brackets.body_of_balanced
  by (auto simp: node_body_def)

theorem node_body_matches_own_brace_witness:
  "node_body '' :alias {ALIAS :aliasname a} :location 3} :trailing'' =
     '' :alias {ALIAS :aliasname a} :location 3''"
proof -
  have "balanced (CHR 0x7B) (CHR 0x7D) '' :alias {ALIAS :aliasname a} :location 3''"
    by (rule node_brackets.closes_balanced) (simp add: backslash_def)
  from node_body_matches_own_brace [THEN conjunct2, rule_format, OF this, of "'' :trailing''"]
  show ?thesis by simp
qed


text \<open>C3: every relation a statement names is reported. Wherever in the dump a \<open>RangeVar\<close> node stands, whatever its schema
  (or NULL) and its relation name are, an entry for it is among the reported relations. The entry has the node's own
  schema and name, each up to the first carriage return or form feed in it, with one exception: when the schema, as it
  is written, ends in \<open>:relname\<close>, the name of the entry is \<open>:relname\<close>.\<close>

theorem rangevar_reported:
  assumes dump: "dump = pre @ ''{RANGEVAR :schemaname '' @ se @ '' :relname '' @ re @ '' '' @ tl_text @ CHR 0x7D # post"
    and bal: "balanced (CHR 0x7B) (CHR 0x7D) tl_text"
    and schema: "token_value schema se" and name: "token_value (Some name) re"
    and run: "analyze_dump dump = Some v"
  shows "\<exists>rels. get_array v ''relations'' = Some rels \<and>
    relation_json (map_option (takeWhile unbroken) schema)
      (if suffix '':relname'' se then '':relname'' else takeWhile unbroken name) \<in> set rels"
proof -
  let ?body = "'':schemaname '' @ se @ '' :relname '' @ re @ '' '' @ tl_text"
  let ?t = "?body @ CHR 0x7D # post"
  have "?t \<in> set (scan_after ''{RANGEVAR '' (pre @ ''{RANGEVAR '' @ ?t))"
    by (rule scan_after_complete) code_simp
  then have t: "?t \<in> set (scan_after ''{RANGEVAR '' dump)" by (simp add: dump)
  have "balanced (CHR 0x7B) (CHR 0x7D) ?body"
    by (intro balanced_append token_value_text(1) [OF schema] token_value_text(1) [OF name] bal node_brackets.closes_balanced)
      (simp_all add: backslash_def)
  then have body: "node_body ?t = ?body"
    using node_brackets.body_of_balanced [of ?body post] unfolding node_body_def by blast
  have "dump_relation ?t = Some [relation_json (map_option (takeWhile unbroken) schema)
      (if suffix '':relname'' se then '':relname'' else takeWhile unbroken name)]"
    unfolding dump_relation_def Let_def body rangevar_fields [OF schema name] by simp
  moreover obtain rels where rels: "dump_relations dump = Some rels"
      "get_array v ''relations'' = Some rels"
    using analyze_dump_fields [OF run] dump by auto
  ultimately show ?thesis
    using collect_panics_mem [OF rels(1) [unfolded dump_relations_def] t] by auto
qed

theorem rangevar_reported_witness:
  "\<exists>v rels. analyze_dump ''({RAWSTMT :stmt {SELECTSTMT :fromClause ({RANGEVAR :schemaname s :relname t :inh true}) } :stmt_len 9})'' = Some v
     \<and> get_array v ''relations'' = Some rels \<and> relation_json (Some ''s'') ''t'' \<in> set rels"
proof -
  let ?pre = "''({RAWSTMT :stmt {SELECTSTMT :fromClause (''" and ?post = "'') } :stmt_len 9})''"
  let ?dump = "?pre @ ''{RANGEVAR :schemaname '' @ ''s'' @ '' :relname '' @ ''t'' @ '' '' @ '':inh true''
    @ CHR 0x7D # ?post"
  have "dump_safe ?dump" by (simp add: dump_safe_def backslash_def)
  then obtain v where v: "analyze_dump ?dump = Some v"
    using dump_relations_total [of ?dump] dump_ctes_total [of ?dump] dump_functions_total [of ?dump]
    by (fastforce simp: analyze_dump_def Let_def)
  have "balanced (CHR 0x7B) (CHR 0x7D) '':inh true''" by (rule node_brackets.closes_balanced) (simp add: backslash_def)
  from rangevar_reported [OF refl this value_text [OF letter_written] value_text [OF letter_written] v]
  have "\<exists>rels. get_array v ''relations'' = Some rels \<and> relation_json (Some ''s'') ''t'' \<in> set rels"
    by (simp add: suffix_def unbroken_def is_digit_def string_ops)
  with v show ?thesis by auto
qed

text \<open>C4: every called function is reported. Wherever in the dump a \<open>:funcname\<close> list stands, with any number of names of which
  none has a double quote after its first byte, the function it names is reported under its last name, with the
  name before it, if any, as the schema.\<close>

theorem funcname_reported:
  assumes dump: "dump = pre @ '':funcname ('' @ body @ CHR 0x29 # post"
    and names: "quoted_list names body" and plain: "list_all (\<lambda>n. CHR 0x22 \<notin> set (tl n)) names"
    and run: "analyze_dump dump = Some v"
  shows "\<exists>fns. get_array v ''functions'' = Some fns \<and>
    relation_json (if butlast names = [] then None else Some (last (butlast names))) (last names) \<in> set fns"
proof -
  let ?t = "body @ CHR 0x29 # post"
  have "?t \<in> set (scan_after '':funcname ('' (pre @ '':funcname ('' @ ?t))"
    by (rule scan_after_complete) code_simp
  then have t: "?t \<in> set (scan_after '':funcname ('' dump)" by (simp add: dump)
  have "paren_body ?t = body"
    using list_brackets.body_of_balanced [OF quoted_list_balanced [OF names]] by (simp add: paren_body_def)
  moreover have "names \<noteq> []" using names by cases auto
  ultimately have "dump_function ?t =
      Some [relation_json (if butlast names = [] then None else Some (last (butlast names))) (last names)]"
    using quoted_strings_list [OF names plain] by (simp add: dump_function_def)
  moreover obtain fns where fns: "dump_functions dump = Some fns"
      "get_array v ''functions'' = Some fns"
    using analyze_dump_fields [OF run] dump by auto
  ultimately show ?thesis
    using collect_panics_mem [OF fns(1) [unfolded dump_functions_def] t] by auto
qed

theorem funcname_reported_witness:
  "\<exists>v fns. analyze_dump ([CHR ''{''] @ '':funcname ('' @ [CHR 0x22] @ ''p'' @ [CHR 0x22, CHR '' '', CHR 0x22] @ ''f'' @ [CHR 0x22] @ '')}'') = Some v
     \<and> get_array v ''functions'' = Some fns \<and> relation_json (Some ''p'') ''f'' \<in> set fns"
proof -
  let ?body = "CHR 0x22 # ''p'' @ CHR 0x22 # CHR '' '' # (CHR 0x22 # ''f'' @ [CHR 0x22])"
  let ?dump = "''{'' @ '':funcname ('' @ ?body @ CHR 0x29 # ''}''"
  have "dump_safe ?dump" by (simp add: dump_safe_def backslash_def)
  then obtain v where v: "analyze_dump ?dump = Some v"
    using dump_relations_total [of ?dump] dump_ctes_total [of ?dump] dump_functions_total [of ?dump]
    by (fastforce simp: analyze_dump_def Let_def)
  have "name_text ''p'' ''p''" "name_text ''f'' ''f''" by (simp_all add: name_text_def letter_written is_digit_def string_ops)
  then have "quoted_list [''p'', ''f''] ?body" by (intro list_more list_one)
  from funcname_reported [OF refl this _ v] v show ?thesis by auto
qed

text \<open>A name with a quote further inside is misread: PostgreSQL escapes a quote only at the start of a name, so the
  function \<open>a"b\<close> of the schema \<open>s\<close> is reported as a function without a name in the schema \<open>a\<close>.\<close>

theorem interior_quote_misread:
  "name_text (CHR ''a'' # CHR 0x22 # ''b'') (CHR ''a'' # CHR 0x22 # ''b'')
   \<and> dump_function (CHR 0x22 # ''s'' @ CHR 0x22 # CHR '' '' # CHR 0x22 # CHR ''a'' # CHR 0x22 # ''b'' @ CHR 0x22 # '')'') =
       Some [relation_json (Some ''a'') []]"
proof
  show "name_text (CHR ''a'' # CHR 0x22 # ''b'') (CHR ''a'' # CHR 0x22 # ''b'')"
    unfolding name_text_def
    by (simp, intro written_plain token_text.intros) (simp_all add: token_special_def backslash_def is_digit_def)
  show "dump_function (CHR 0x22 # ''s'' @ CHR 0x22 # CHR '' '' # CHR 0x22 # CHR ''a'' # CHR 0x22 # ''b'' @ CHR 0x22 # '')'') =
      Some [relation_json (Some ''a'') []]"
    by code_simp
qed

text \<open>C5: a dump reported as a plain \<open>select\<close> that does not write holds exactly one statement tag, every
  statement node in it is a \<open>SELECTSTMT\<close>, and no \<open>INTO\<close> clause and no data-modifying node occurs
  anywhere in it.\<close>

theorem select_means_read_only:
  assumes run: "analyze_dump dump = Some v"
    and kind: "get_str v ''kind'' = Some ''select''" and writes: "get_bool v ''writes'' = Some False"
  shows "statement_kinds dump = [''SELECTSTMT''] \<and> \<not> sublist '':intoClause {'' dump
    \<and> \<not> sublist ''{INSERTSTMT'' dump \<and> \<not> sublist ''{UPDATESTMT'' dump
    \<and> \<not> sublist ''{DELETESTMT'' dump \<and> \<not> sublist ''{MERGESTMT'' dump
    \<and> (\<forall>pre body post q. dump = pre @ ''{RAWSTMT'' @ body @ CHR 0x7D # post \<longrightarrow>
         balanced (CHR 0x7B) (CHR 0x7D) body \<longrightarrow> str_find '':stmt {'' body = Some q \<longrightarrow>
         read_ident (drop (q + 7) body) = ''SELECTSTMT'')"
proof -
  have "dump \<noteq> []"
  proof
    assume "dump = []"
    with run have "v = json_object [(''ok'', JBool False), (''error'', JString ''unparseable'')]"
      by (simp add: analyze_dump_def)
    with kind show False by (simp add: get_str_def json_get_object)
  qed
  then obtain "get_str v ''kind'' = Some (statement_kind (statement_kinds dump))"
      "get_bool v ''writes'' = Some (dump_writes dump)"
    by (rule analyze_dump_fields [OF run]) blast
  with kind writes have k: "statement_kind (statement_kinds dump) = ''select''"
    and w: "\<not> dump_writes dump" by simp_all
  from k have ks: "statement_kinds dump = [''SELECTSTMT'']"
    by (cases "statement_kinds dump") (auto simp: statement_kind_def split: if_splits)
  have "read_ident (drop (q + 7) body) = ''SELECTSTMT''"
    if "dump = pre @ ''{RAWSTMT'' @ body @ CHR 0x7D # post"
      "balanced (CHR 0x7B) (CHR 0x7D) body" "str_find '':stmt {'' body = Some q" for pre body post q
    using statement_kinds_complete [OF that] ks by simp
  then show ?thesis
    using w ks by (simp add: dump_writes_def dml_tags_def str_contains_sublist)
qed

theorem select_means_read_only_witness:
  "statement_kinds ''({RAWSTMT :stmt {SELECTSTMT :intoClause <> }})'' = [''SELECTSTMT'']"
proof -
  let ?dump = "''({RAWSTMT :stmt {SELECTSTMT :intoClause <> }})''"
  let ?v = "json_object [(''ok'', JBool True), (''statements'', JInt 1), (''kind'', JString ''select''),
    (''writes'', JBool False), (''relations'', JArray []), (''functions'', JArray []), (''ctes'', JArray [])]"
  have "analyze_dump ?dump = Some ?v" by code_simp
  from select_means_read_only [OF this] show ?thesis
    by (simp add: get_str_def get_bool_def json_get_object as_str_def as_bool_def)
qed



text \<open>Without that condition the reader does panic: a backslash before a two-byte character leaves the
  scan inside it.\<close>

theorem escaped_multibyte_panics:
  "utf8_valid ([CHR 0x5C, CHR 0xC3, CHR 0xA9] @ '' x'')
   \<and> read_token ([CHR 0x5C, CHR 0xC3, CHR 0xA9] @ '' x'') = None"
proof
  show "utf8_valid ([CHR 0x5C, CHR 0xC3, CHR 0xA9] @ '' x'')"
    by (simp add: utf8_valid.simps [of "CHR 0xC3 # x" for x] utf8_chunk_def safe_get_def
        cont_byte_def Let_def)
  show "read_token ([CHR 0x5C, CHR 0xC3, CHR 0xA9] @ '' x'') = None"
    by (simp add: read_token_def read_token_loop.simps(2) backslash_def next_char_def
        is_continuation_def token_delimiter_def string_ops)
qed

text \<open>A schema whose name ends in \<open>:relname\<close> is where \<open>field\<close> goes wrong: the relation \<open>t\<close> of such a schema
  is reported as \<open>:relname\<close>.\<close>

theorem schema_ending_in_relname_misread:
  "dump_relation '':schemaname a:relname :relname t :inh true}'' =
     Some [relation_json (Some ''a:relname'') '':relname'']"
  by code_simp

end
