(* ===== verification/Lib_Core.thy ===== *)
theory Lib_Core
  imports Rust_Str
begin

text \<open>
  The crate root \<open>src/lib.rs\<close>: the constants both workers share, with every \<open>Duration\<close> in
  milliseconds, and \<open>truncate_utf8\<close>, which caps what an HTTP thread hands to the database.
\<close>

section \<open>Constants\<close>

definition HTTP_THREADS :: nat where "HTTP_THREADS = 4"
definition HTTP_TIMEOUT :: nat where "HTTP_TIMEOUT = 45000"
definition MAX_RESPONSE_BYTES :: nat where "MAX_RESPONSE_BYTES = 200000"
definition PUMP_BUSY :: nat where "PUMP_BUSY = 150"
definition PUMP_IDLE_MIN :: nat where "PUMP_IDLE_MIN = 500"
definition PUMP_IDLE_MAX :: nat where "PUMP_IDLE_MAX = 4000"
definition SQL_CLAIM_LIMIT :: int where "SQL_CLAIM_LIMIT = 1"
definition SQL_STATEMENT_TIMEOUT_MS :: int where "SQL_STATEMENT_TIMEOUT_MS = 5000"
definition PROCEDURE_CALL_TIMEOUT_MS :: int where "PROCEDURE_CALL_TIMEOUT_MS = 60000"
definition MAX_WEB_THREADS :: nat where "MAX_WEB_THREADS = 64"
definition MAX_REQUEST_BYTES :: nat where "MAX_REQUEST_BYTES = 2 ^ 20"
definition REQUEST_DEADLINE :: nat where "REQUEST_DEADLINE = 5000"
definition SSE_TOTAL :: nat where "SSE_TOTAL = 30000"
definition SSE_INTERVAL :: nat where "SSE_INTERVAL = 1000"
definition SSE_TICKET_TTL :: nat where "SSE_TICKET_TTL = 30000"

section \<open>Truncation\<close>

text \<open>The \<open>while\<close> loop of \<open>truncate_utf8\<close>: the largest boundary not above \<open>end\<close>.\<close>

fun truncate_end :: "string \<Rightarrow> nat \<Rightarrow> nat" where
  "truncate_end s 0 = 0"
| "truncate_end s (Suc e) = (if is_char_boundary s (Suc e) then Suc e else truncate_end s e)"

definition truncate_utf8 :: "string \<Rightarrow> nat \<Rightarrow> string" where
  "truncate_utf8 s limit = (if length s \<le> limit then s else take (truncate_end s limit) s)"

lemma truncate_end_le: "truncate_end s e \<le> e"
  by (induction s e rule: truncate_end.induct) auto

lemma truncate_end_boundary: "is_char_boundary s (truncate_end s e)"
  by (induction s e rule: truncate_end.induct) (auto simp: is_char_boundary_def)

lemma truncate_end_greatest: "is_char_boundary s i \<Longrightarrow> i \<le> e \<Longrightarrow> i \<le> truncate_end s e"
  by (induction s e rule: truncate_end.induct) (auto simp: le_Suc_eq)

lemma length_truncate_le: "length (truncate_utf8 s limit) \<le> limit"
  using truncate_end_le [of s limit] by (auto simp: truncate_utf8_def)

lemma utf8_valid_truncate: "utf8_valid s \<Longrightarrow> utf8_valid (truncate_utf8 s limit)"
  using utf8_valid_split [OF _ truncate_end_boundary] by (auto simp: truncate_utf8_def)

text \<open>A character takes at most four bytes, so in a valid string a boundary is never far.\<close>

lemma utf8_chunk_le4: "utf8_chunk s = (ok, n) \<Longrightarrow> n \<le> 4"
  by (auto simp: utf8_chunk_def Let_def split: if_splits)

lemma boundary_shift:
  "n \<le> length s \<Longrightarrow> is_char_boundary (drop n s) i \<Longrightarrow> 0 < i \<Longrightarrow> is_char_boundary s (n + i)"
  by (auto simp: is_char_boundary_def)

lemma boundary_near:
  "utf8_valid s \<Longrightarrow> m \<le> length s \<Longrightarrow> \<exists>i \<le> m. is_char_boundary s i \<and> m < i + 4"
proof (induction s arbitrary: m rule: utf8_valid.induct)
  case (1 s)
  show ?case
  proof (cases "s = [] \<or> m < 4")
    case True
    with "1.prems" show ?thesis by (intro exI [of _ 0]) (auto simp: is_char_boundary_def)
  next
    case False
    then have ne: "s \<noteq> []" by simp
    obtain n where n: "utf8_chunk s = (True, n)" "0 < n" "n \<le> length s" "utf8_valid (drop n s)"
      using utf8_valid_Cons [OF "1.prems"(1) ne] .
    have le: "n \<le> m" using False utf8_chunk_le4 [OF n(1)] by simp
    have "m - n \<le> length s - n" using "1.prems"(2) by simp
    with "1.IH" [OF ne, of "m - n"] n
    obtain i where i: "i \<le> m - n" "is_char_boundary (drop n s) i" "m - n < i + 4" by auto
    show ?thesis
    proof (cases "i = 0")
      case True
      have "is_char_boundary s n"
        using n(3,4) utf8_chunk_head [of "drop n s"] utf8_valid_Cons [OF n(4)]
        by (cases "n = length s") (auto simp: is_char_boundary_def hd_drop_conv_nth)
      with True i le show ?thesis by (intro exI [of _ n]) auto
    next
      case False
      with boundary_shift [OF n(3) i(2)] i le show ?thesis by (intro exI [of _ "n + i"]) auto
    qed
  qed
qed

text \<open>\<open>truncate_utf8\<close> returns a prefix of at most \<open>limit\<close> bytes that is valid UTF-8 whenever its input is, gives a
  text that fits back unchanged, and otherwise drops at most three bytes of a character it would
  have split.\<close>

theorem truncate_utf8_correct:
  assumes "utf8_valid s"
  shows "prefix (truncate_utf8 s limit) s \<and> length (truncate_utf8 s limit) \<le> limit
    \<and> utf8_valid (truncate_utf8 s limit)
    \<and> (if length s \<le> limit then truncate_utf8 s limit = s else limit < length (truncate_utf8 s limit) + 4)"
proof -
  have "limit < length (truncate_utf8 s limit) + 4" if "\<not> length s \<le> limit"
  proof -
    from boundary_near [OF assms, of limit] that
    obtain i where i: "i \<le> limit" "is_char_boundary s i" "limit < i + 4" by auto
    from truncate_end_greatest [OF i(2,1)] truncate_end_le [of s limit] i(3) that show ?thesis
      by (simp add: truncate_utf8_def)
  qed
  then show ?thesis
    using length_truncate_le utf8_valid_truncate [OF assms]
    by (auto simp: truncate_utf8_def take_is_prefix)
qed

theorem truncate_utf8_correct_witness:
  "truncate_utf8 (''h'' @ [CHR 0xC3, CHR 0xA9] @ ''llo'') 2 = ''h''
   \<and> prefix (truncate_utf8 (''h'' @ [CHR 0xC3, CHR 0xA9] @ ''llo'') 2) (''h'' @ [CHR 0xC3, CHR 0xA9] @ ''llo'')"
proof -
  let ?s = "''h'' @ [CHR 0xC3, CHR 0xA9] @ ''llo''"
  have "utf8_valid ?s"
    by (simp add: utf8_valid.simps [of "CHR 0xC3 # x" for x] utf8_chunk_def safe_get_def
        cont_byte_def Let_def)
  from truncate_utf8_correct [OF this, of 2] have "prefix (truncate_utf8 ?s 2) ?s" by blast
  moreover have "truncate_utf8 ?s 2 = ''h''" by code_simp
  ultimately show ?thesis by blast
qed

end
