(* ===== verification/Http_Protocol.thy ===== *)
theory Http_Protocol
  imports Lib_Core
begin

text \<open>
  \<open>src/http_protocol.rs\<close>: reading one HTTP/1.1 request off a socket. The socket and the clock are the
  environment: the \<open>k\<close>-th turn of the read loop sees the time and the result of the \<open>k\<close>-th \<open>read\<close>
  (\<^const>\<open>None\<close> an I/O error or the two-second read timeout, the empty string the end of the stream).
  \<open>usize\<close> is 64 bits wide; the one addition that can overflow is written with the build's overflow
  policy: a panic where overflow checks are on, wrap-around where they are off.
\<close>

section \<open>Definitions\<close>

record http_request =
  req_method :: string
  req_path :: string
  req_headers :: "(string \<times> string) list"
  req_body :: string

definition crlf :: string where
  "crlf = [CHR 0x0D, CHR 0x0A]"

definition crlf2 :: string where
  "crlf2 = [CHR 0x0D, CHR 0x0A, CHR 0x0D, CHR 0x0A]"

definition route :: "http_request \<Rightarrow> string" where
  "route r = hd (split_str ''?'' (req_path r))"

definition query :: "http_request \<Rightarrow> string" where
  "query r = (case split_once ''?'' (req_path r) of None \<Rightarrow> [] | Some (_, q) \<Rightarrow> q)"

definition header :: "http_request \<Rightarrow> string \<Rightarrow> string option" where
  "header r name =
     map_option snd (find (\<lambda>(k, _). eq_ignore_ascii_case k name) (req_headers r))"

definition parse_header_line :: "string \<Rightarrow> (string \<times> string) option" where
  "parse_header_line l =
     (case split_once '':'' l of
        None \<Rightarrow> None
      | Some (k, v) \<Rightarrow> Some (to_ascii_lowercase (str_trim k), str_trim v))"

definition parse_http_request :: "bytes \<Rightarrow> http_request option" where
  "parse_http_request data =
     (case str_find crlf2 data of
        None \<Rightarrow> None
      | Some p \<Rightarrow>
          (let split = p + 4; head = from_utf8_lossy (take split data) in
           case str_lines head of
             [] \<Rightarrow> None
           | l # lines \<Rightarrow>
               (case split_whitespace l of
                  method # path # _ \<Rightarrow>
                    Some \<lparr>req_method = method, req_path = path,
                          req_headers = List.map_filter parse_header_line lines,
                          req_body = from_utf8_lossy (drop split data)\<rparr>
                | _ \<Rightarrow> None)))"

fun content_length_lines :: "string list \<Rightarrow> nat" where
  "content_length_lines [] = 0"
| "content_length_lines (line # lines) =
     (case split_once '':'' line of
        Some (k, v) \<Rightarrow>
          if eq_ignore_ascii_case k ''content-length''
          then (case parse_usize (str_trim v) of None \<Rightarrow> 0 | Some n \<Rightarrow> n)
          else content_length_lines lines
      | None \<Rightarrow> content_length_lines lines)"

definition content_length :: "bytes \<Rightarrow> nat \<Rightarrow> nat" where
  "content_length data header_end =
     content_length_lines (str_lines (from_utf8_lossy (take header_end data)))"

subsection \<open>Form bodies\<close>

definition hex_pair :: "string \<Rightarrow> nat option" where
  "hex_pair h = (if utf8_valid h then u8_from_str_radix16 h else None)"

function form_decode_loop :: "bytes \<Rightarrow> bytes" where
  "form_decode_loop [] = []"
| "form_decode_loop (b # rest) =
     (if b = CHR ''+'' then CHR '' '' # form_decode_loop rest
      else if b = CHR ''%'' \<and> 2 \<le> length rest then
        (case hex_pair (take 2 rest) of
           Some v \<Rightarrow> char_of v # form_decode_loop (drop 2 rest)
         | None \<Rightarrow> b # form_decode_loop rest)
      else b # form_decode_loop rest)"
  by pat_completeness auto
termination
  by (relation "measure length") auto

definition form_decode :: "string \<Rightarrow> string" where
  "form_decode s = from_utf8_lossy (form_decode_loop s)"

definition parse_form_body :: "string \<Rightarrow> string \<rightharpoonup> string" where
  "parse_form_body body =
     map_of (rev (map (\<lambda>(k, v). (form_decode k, form_decode v))
                   (List.map_filter (split_once ''='') (split_str ''&'' body))))"

subsection \<open>The read loop\<close>

definition usize_add :: "bool \<Rightarrow> nat \<Rightarrow> nat \<Rightarrow> nat panics" where
  "usize_add overflow_checks a b =
     (if a + b < 2 ^ 64 then Some (a + b)
      else if overflow_checks then None
      else Some ((a + b) mod 2 ^ 64))"

text \<open>One turn's update of \<open>header_end\<close> and \<open>want\<close>.\<close>

definition note_header_end :: "bytes \<Rightarrow> (nat \<times> nat) option \<Rightarrow> (nat \<times> nat) option" where
  "note_header_end data header_end =
     (case header_end of
        Some hw \<Rightarrow> Some hw
      | None \<Rightarrow>
          (case str_find crlf2 data of
             None \<Rightarrow> None
           | Some p \<Rightarrow> Some (p + 4, content_length data (p + 4))))"

lemma room_shrinks:
  "b \<noteq> [] \<Longrightarrow> \<not> m < n + length b \<Longrightarrow> Suc m - (n + length b) < Suc m - n"
  by (cases b) auto

function read_http_loop ::
    "bool \<Rightarrow> nat \<Rightarrow> (nat \<Rightarrow> nat \<times> bytes option) \<Rightarrow> nat \<Rightarrow> bytes \<Rightarrow> (nat \<times> nat) option
     \<Rightarrow> http_request option panics" where
  "read_http_loop checks deadline env k data header_end =
     (if deadline < fst (env k) then Some None
      else case snd (env k) of
             None \<Rightarrow> Some None
           | Some buf \<Rightarrow>
               if buf = [] then Some (parse_http_request data)
               else
                 let data' = data @ buf in
                 if MAX_REQUEST_BYTES < length data' then Some None
                 else
                   (case note_header_end data' header_end of
                      None \<Rightarrow> read_http_loop checks deadline env (Suc k) data' None
                    | Some (h, want) \<Rightarrow>
                        (case usize_add checks h want of
                           None \<Rightarrow> None
                         | Some need \<Rightarrow>
                             if need \<le> length data' then Some (parse_http_request data')
                             else read_http_loop checks deadline env (Suc k) data' (Some (h, want)))))"
  by pat_completeness auto
termination
  by (relation "measure (\<lambda>(checks, deadline, env, k, data, header_end). MAX_REQUEST_BYTES + 1 - length data)")
    (auto intro: room_shrinks)

declare read_http_loop.simps [simp del]

definition read_http_request ::
    "bool \<Rightarrow> nat \<Rightarrow> (nat \<Rightarrow> nat \<times> bytes option) \<Rightarrow> http_request option panics" where
  "read_http_request checks start env =
     read_http_loop checks (start + REQUEST_DEADLINE) env 0 [] None"


section \<open>Lemmas\<close>

subsection \<open>Searching past text that cannot start the needle\<close>

lemma str_find_skip:
  "n \<noteq> [] \<Longrightarrow> hd n \<notin> set l \<Longrightarrow>
     str_find n (l @ s) = map_option ((+) (length l)) (str_find n s)"
proof (induction l)
  case Nil
  then show ?case by (cases "str_find n s") auto
next
  case (Cons c l)
  then have "\<not> prefix n (c # l @ s)" by (cases n) auto
  with Cons show ?case by (simp add: option.map_comp comp_def)
qed

lemma split_once_char:
  "c \<notin> set a \<Longrightarrow> split_once [c] (a @ c # b) = Some (a, b)"
  using str_find_skip [of "[c]" a "c # b"] by (auto simp: split_once_def)

lemma split_once_char_None: "c \<notin> set a \<Longrightarrow> split_once [c] a = None"
  using str_find_skip [of "[c]" a "[]"] by (auto simp: split_once_def)

lemma split_str_hd: "c \<notin> set a \<Longrightarrow> hd (split_str [c] (a @ c # b)) = a"
  using str_find_skip [of "[c]" a "c # b"] by (auto simp: split_str.simps [of "[c]" "a @ c # b"])

lemma split_str_single: "c \<notin> set a \<Longrightarrow> split_str [c] a = [a]"
  using str_find_skip [of "[c]" a "[]"] by (auto simp: split_str.simps [of "[c]" a])

lemma split_str_char:
  "c \<notin> set a \<Longrightarrow> split_str [c] (a @ c # b) = a # split_str [c] b"
  using str_find_skip [of "[c]" a "c # b"] by (auto simp: split_str.simps [of "[c]" "a @ c # b"])

subsection \<open>Printing a request\<close>

text \<open>A request as a client writes it: request line, header lines, an empty line, the body.\<close>

definition visible :: "string \<Rightarrow> bool" where
  "visible s = list_all (\<lambda>c. 33 \<le> byte c \<and> byte c \<le> 126) s"

definition printable :: "string \<Rightarrow> bool" where
  "printable s = list_all (\<lambda>c. 32 \<le> byte c \<and> byte c \<le> 126) s"

definition trimmed :: "string \<Rightarrow> bool" where
  "trimmed s = (s = [] \<or> hd s \<noteq> CHR '' '' \<and> last s \<noteq> CHR '' '')"

definition header_ok :: "string \<times> string \<Rightarrow> bool" where
  "header_ok kv = (case kv of (k, v) \<Rightarrow>
     k \<noteq> [] \<and> visible k \<and> CHR '':'' \<notin> set k \<and> to_ascii_lowercase k = k \<and> printable v \<and> trimmed v)"

definition request_ok :: "http_request \<Rightarrow> bool" where
  "request_ok r = (req_method r \<noteq> [] \<and> visible (req_method r) \<and> req_path r \<noteq> [] \<and> visible (req_path r)
     \<and> list_all header_ok (req_headers r) \<and> utf8_valid (req_body r))"

definition header_line :: "string \<times> string \<Rightarrow> string" where
  "header_line kv = fst kv @ '': '' @ snd kv"

definition request_lines :: "http_request \<Rightarrow> string list" where
  "request_lines r = (req_method r @ '' '' @ req_path r @ '' HTTP/1.1'') # map header_line (req_headers r)"

definition lines_text :: "string list \<Rightarrow> string" where
  "lines_text ls = concat (map (\<lambda>l. l @ crlf) ls)"

definition print_request :: "http_request \<Rightarrow> bytes" where
  "print_request r = lines_text (request_lines r) @ crlf @ req_body r"

definition line_ok :: "string \<Rightarrow> bool" where
  "line_ok l = (l \<noteq> [] \<and> printable l)"

lemma printable_no_crlf: "printable l \<Longrightarrow> CHR 0x0D \<notin> set l \<and> CHR 0x0A \<notin> set l"
  by (auto simp: printable_def list_all_iff)

lemma printable_append [simp]: "printable (a @ b) = (printable a \<and> printable b)"
  by (simp add: printable_def)

lemma printable_Nil [simp]: "printable []"
  by (simp add: printable_def)

lemma printable_Cons [simp]: "printable (c # s) = (32 \<le> byte c \<and> byte c \<le> 126 \<and> printable s)"
  by (simp add: printable_def)

lemma visible_printable: "visible s \<Longrightarrow> printable s"
  by (auto simp: visible_def printable_def list_all_iff)

lemma printable_ascii: "printable s \<Longrightarrow> list_all (\<lambda>c. byte c < 128) s"
  by (auto simp: printable_def list_all_iff)

lemma header_line_ok: "header_ok kv \<Longrightarrow> line_ok (header_line kv)"
  by (cases kv) (auto simp: header_ok_def header_line_def line_ok_def visible_printable)

lemma request_lines_ok: "request_ok r \<Longrightarrow> list_all line_ok (request_lines r)"
  by (auto simp: request_ok_def request_lines_def list_all_iff header_line_ok line_ok_def [of "_ @ _"]
      visible_printable)

text \<open>Non-empty lines hold no empty line before the one that ends the head.\<close>

lemma find_head_end:
  "list_all line_ok ls \<Longrightarrow> ls \<noteq> [] \<Longrightarrow>
     str_find crlf2 (lines_text ls @ crlf @ body) = Some (length (lines_text ls) - 2)"
proof (induction ls)
  case (Cons l ls)
  have l: "hd crlf2 \<notin> set l"
    using Cons.prems printable_no_crlf [of l] by (auto simp: line_ok_def crlf2_def)
  let ?s = "lines_text ls @ crlf @ body"
  have *: "str_find crlf2 (lines_text (l # ls) @ crlf @ body) =
      map_option ((+) (length l)) (str_find crlf2 (crlf @ ?s))"
    using str_find_skip [OF _ l, of "crlf @ ?s"] by (simp add: lines_text_def) (simp add: crlf2_def)
  show ?case
  proof (cases ls)
    case Nil
    then show ?thesis unfolding * by (simp add: crlf_def crlf2_def lines_text_def)
  next
    case (Cons m ms)
    with Cons.prems obtain c m' where m: "m = c # m'" "c \<noteq> CHR 0x0D"
      using printable_no_crlf [of m] by (cases m) (auto simp: line_ok_def)
    have "str_find crlf2 (crlf @ ?s) = map_option ((+) 2) (str_find crlf2 ?s)"
      using m Cons by (auto simp: crlf_def crlf2_def lines_text_def option.map_comp comp_def)
    moreover have "str_find crlf2 ?s = Some (length (lines_text ls) - 2)"
      using Cons.prems Cons by (intro Cons.IH) auto
    moreover have "2 \<le> length (lines_text ls)" using Cons by (simp add: lines_text_def crlf_def)
    ultimately show ?thesis unfolding * by (simp add: lines_text_def crlf_def)
  qed
qed simp

lemma str_lines_acc_plain:
  "CHR 0x0A \<notin> set l \<Longrightarrow> str_lines_acc acc (l @ CHR 0x0A # s) = strip_cr (rev acc @ l) # str_lines_acc [] s"
  by (induction l arbitrary: acc) auto

lemma str_lines_text:
  "list_all line_ok ls \<Longrightarrow> str_lines (lines_text ls @ crlf) = ls @ [[]]"
proof (induction ls)
  case Nil
  then show ?case by (simp add: str_lines_def lines_text_def crlf_def strip_cr_def)
next
  case (Cons l ls)
  then have "CHR 0x0A \<notin> set (l @ [CHR 0x0D])"
    using printable_no_crlf [of l] by (auto simp: line_ok_def)
  from str_lines_acc_plain [OF this, of "[]" "lines_text ls @ crlf"] Cons show ?case
    by (simp add: str_lines_def lines_text_def crlf_def strip_cr_def)
qed

lemma is_whitespace_visible: "33 \<le> byte c \<Longrightarrow> byte c \<le> 126 \<Longrightarrow> \<not> is_whitespace_char [c]"
  by (auto simp: is_whitespace_char_def)

lemma is_whitespace_space [simp]: "is_whitespace_char '' ''"
  by (simp add: is_whitespace_char_def)

lemma str_chars_ascii: "list_all (\<lambda>c. byte c < 128) s \<Longrightarrow> str_chars s = map (\<lambda>c. [c]) s"
  by (induction s) auto

lemma words_of_visible:
  "visible w \<Longrightarrow> words_of (map (\<lambda>c. [c]) w @ cs) acc = words_of cs (acc @ w)"
  by (induction w arbitrary: acc) (auto simp: visible_def is_whitespace_visible)

lemma split_request_line:
  assumes "method \<noteq> []" "visible method" "path \<noteq> []" "visible path"
  shows "split_whitespace (method @ '' '' @ path @ '' HTTP/1.1'') = [method, path, ''HTTP/1.1'']"
proof -
  have "visible ''HTTP/1.1''" by (simp add: visible_def)
  moreover have "list_all (\<lambda>c. byte c < 128) (method @ '' '' @ path @ '' HTTP/1.1'')"
    using assms by (auto simp: visible_def list_all_iff)
  ultimately show ?thesis
    using assms words_of_visible [of "''HTTP/1.1''" "[]" "[]"]
    by (simp add: split_whitespace_def str_chars_ascii words_of_visible del: str_chars_ascii_Cons)
qed


lemma byte_32_iff: "byte c = 32 \<longleftrightarrow> c = CHR '' ''"
  using of_char_eq_iff [of c "CHR '' ''", where 'a = nat] by simp

lemma is_whitespace_printable:
  "printable v \<Longrightarrow> c \<in> set v \<Longrightarrow> c \<noteq> CHR '' '' \<Longrightarrow> \<not> is_whitespace_char [c]"
  by (auto simp: printable_def list_all_iff is_whitespace_char_def byte_32_iff)

lemma str_trim_printable:
  assumes "printable v" "trimmed v"
  shows "str_trim v = v" "str_trim (CHR '' '' # v) = v"
proof -
  have chars: "str_chars v = map (\<lambda>c. [c]) v"
    using printable_ascii [OF assms(1)] by (rule str_chars_ascii)
  have "dropWhile is_whitespace_char (map (\<lambda>c. [c]) v) = map (\<lambda>c. [c]) v"
    using assms is_whitespace_printable [OF assms(1)] by (cases v) (auto simp: trimmed_def)
  moreover have "dropWhile is_whitespace_char (rev (map (\<lambda>c. [c]) v)) = rev (map (\<lambda>c. [c]) v)"
    using assms is_whitespace_printable [OF assms(1)] by (cases v rule: rev_cases) (auto simp: trimmed_def)
  moreover have "concat (map (\<lambda>c. [c]) v) = v" by (induction v) auto
  ultimately show "str_trim v = v" "str_trim (CHR '' '' # v) = v"
    by (simp_all add: str_trim_def chars)
qed

lemma visible_trimmed:
  assumes "visible k"
  shows "trimmed k"
proof -
  have "CHR '' '' \<notin> set k" using assms by (auto simp: visible_def list_all_iff)
  then show ?thesis unfolding trimmed_def by (metis hd_in_set last_in_set)
qed

lemma parse_header_line_printed: "header_ok kv \<Longrightarrow> parse_header_line (header_line kv) = Some kv"
  using split_once_char [of "CHR '':''" "fst kv" "CHR '' '' # snd kv"]
    str_trim_printable(1) [of "fst kv"] str_trim_printable(2) [of "snd kv"]
  by (cases kv) (auto simp: header_ok_def header_line_def parse_header_line_def visible_trimmed
      visible_printable)

lemma map_filter_header_lines:
  "list_all header_ok hs \<Longrightarrow> List.map_filter parse_header_line (map header_line hs @ [[]]) = hs"
proof (induction hs)
  case Nil
  then show ?case by (simp add: List.map_filter_simps parse_header_line_def split_once_def)
next
  case (Cons h hs)
  then show ?case by (simp add: List.map_filter_simps parse_header_line_printed)
qed

lemma lines_text_ascii:
  "list_all line_ok ls \<Longrightarrow> list_all (\<lambda>c. byte c < 128) (lines_text ls @ crlf)"
proof (induction ls)
  case Nil
  then show ?case by (simp add: lines_text_def crlf_def)
next
  case (Cons l ls)
  with printable_ascii [of l] show ?case by (simp add: lines_text_def crlf_def line_ok_def)
qed

lemma parse_printed_request:
  assumes "request_ok r"
  shows "parse_http_request (print_request r) = Some r"
proof -
  let ?ls = "request_lines r"
  have ok: "list_all line_ok ?ls" using assms by (rule request_lines_ok)
  have ne: "?ls \<noteq> []" by (simp add: request_lines_def)
  then have len: "2 \<le> length (lines_text ?ls)"
    by (cases ?ls) (auto simp: lines_text_def crlf_def)
  have "str_find crlf2 (print_request r) = Some (length (lines_text ?ls) - 2)"
    using find_head_end [OF ok ne] by (simp add: print_request_def)
  moreover have "length (lines_text ?ls) - 2 + 4 = length (lines_text ?ls @ crlf)"
    using len by (simp add: crlf_def)
  moreover have "from_utf8_lossy (lines_text ?ls @ crlf) = lines_text ?ls @ crlf"
    using lines_text_ascii [OF ok] by (intro from_utf8_lossy_id utf8_valid_ascii)
  moreover have "str_lines (lines_text ?ls @ crlf) =
      (req_method r @ '' '' @ req_path r @ '' HTTP/1.1'') # map header_line (req_headers r) @ [[]]"
    using str_lines_text [OF ok] by (simp add: request_lines_def)
  moreover have "take (length (lines_text ?ls @ crlf)) (print_request r) = lines_text ?ls @ crlf"
      "drop (length (lines_text ?ls @ crlf)) (print_request r) = req_body r"
    by (simp_all add: print_request_def)
  ultimately show ?thesis
    using assms split_request_line [of "req_method r" "req_path r"]
      map_filter_header_lines [of "req_headers r"]
    by (simp add: parse_http_request_def Let_def request_ok_def from_utf8_lossy_id
        del: append_assoc length_append)
qed

section \<open>Properties\<close>

text \<open>Parsing a printed request gives the request back: method, path, every header in order, and the
  body, for any visible method and path, lower-case header names without a colon, trimmed printable
  values and a UTF-8 body.\<close>

theorem parse_print_request:
  assumes "request_ok r"
  shows "parse_http_request (print_request r) = Some r"
  using assms by (rule parse_printed_request)

theorem parse_print_request_witness:
  "parse_http_request (print_request
     \<lparr>req_method = ''POST'', req_path = ''/api/v1/run?x=1'',
      req_headers = [(''host'', ''a:8088''), (''content-length'', ''2'')], req_body = ''{}''\<rparr>) =
   Some \<lparr>req_method = ''POST'', req_path = ''/api/v1/run?x=1'',
      req_headers = [(''host'', ''a:8088''), (''content-length'', ''2'')], req_body = ''{}''\<rparr>"
  by (rule parse_print_request)
    (simp add: request_ok_def visible_def header_ok_def printable_def trimmed_def
      to_ascii_lowercase_def ascii_lower_def)


text \<open>The route is the path up to the first question mark and the query is what follows it; together
  they are the whole path.\<close>

theorem route_query_split:
  "CHR ''?'' \<notin> set (route r) \<and>
   req_path r = (if CHR ''?'' \<in> set (req_path r) then route r @ ''?'' @ query r else route r)
   \<and> (CHR ''?'' \<notin> set (req_path r) \<longrightarrow> query r = [])"
proof (cases "CHR ''?'' \<in> set (req_path r)")
  case True
  then obtain a b where "req_path r = a @ CHR ''?'' # b" "CHR ''?'' \<notin> set a"
    by (meson split_list_first)
  with split_str_hd [of "CHR ''?''" a b] split_once_char [of "CHR ''?''" a b] True show ?thesis
    by (simp add: route_def query_def)
next
  case False
  with split_str_single [OF False] split_once_char_None [OF False] show ?thesis
    by (simp add: route_def query_def)
qed

theorem route_query_split_witness:
  "query \<lparr>req_method = ''GET'', req_path = ''/healthz'', req_headers = [], req_body = []\<rparr> = []"
  using route_query_split [of "\<lparr>req_method = ''GET'', req_path = ''/healthz'', req_headers = [], req_body = []\<rparr>"]
  by simp

text \<open>What the read loop has read so far: the bytes of the first \<open>k\<close> reads.\<close>

fun received :: "(nat \<Rightarrow> nat \<times> bytes option) \<Rightarrow> nat \<Rightarrow> bytes" where
  "received env 0 = []"
| "received env (Suc k) = received env k @ (case snd (env k) of None \<Rightarrow> [] | Some b \<Rightarrow> b)"

lemma loop_eof:
  "\<lbrakk>fst (env k) \<le> deadline; snd (env k) = Some []\<rbrakk> \<Longrightarrow>
     read_http_loop checks deadline env k data he = Some (parse_http_request data)"
  by (simp add: read_http_loop.simps [of checks deadline env k data he])

lemma loop_more:
  "\<lbrakk>fst (env k) \<le> deadline; snd (env k) = Some buf; buf \<noteq> []; length (data @ buf) \<le> MAX_REQUEST_BYTES\<rbrakk> \<Longrightarrow>
     read_http_loop checks deadline env k data he =
       (case note_header_end (data @ buf) he of
          None \<Rightarrow> read_http_loop checks deadline env (Suc k) (data @ buf) None
        | Some (h, want) \<Rightarrow>
            (case usize_add checks h want of
               None \<Rightarrow> None
             | Some need \<Rightarrow>
                 if need \<le> length (data @ buf) then Some (parse_http_request (data @ buf))
                 else read_http_loop checks deadline env (Suc k) (data @ buf) (Some (h, want))))"
  by (simp add: read_http_loop.simps [of checks deadline env k data he] Let_def)

lemma loop_Some_cases:
  assumes "read_http_loop checks deadline env k data he = Some (Some r)"
  obtains (eof) "fst (env k) \<le> deadline" "snd (env k) = Some []" "parse_http_request data = Some r"
    | (full) buf where "fst (env k) \<le> deadline" "snd (env k) = Some buf"
        "length (data @ buf) \<le> MAX_REQUEST_BYTES" "parse_http_request (data @ buf) = Some r"
    | (more) buf he' where "fst (env k) \<le> deadline" "snd (env k) = Some buf" "buf \<noteq> []"
        "length (data @ buf) \<le> MAX_REQUEST_BYTES"
        "read_http_loop checks deadline env (Suc k) (data @ buf) he' = Some (Some r)"
  using assms
  by (subst (asm) read_http_loop.simps)
    (auto simp: Let_def not_less split: if_splits option.splits)

lemma read_http_loop_bound:
  "read_http_loop checks deadline env k data he = Some (Some r) \<Longrightarrow> data = received env k \<Longrightarrow>
     length data \<le> MAX_REQUEST_BYTES \<Longrightarrow>
     \<exists>n \<ge> k. length (received env n) \<le> MAX_REQUEST_BYTES \<and> parse_http_request (received env n) = Some r
       \<and> (\<forall>j. k \<le> j \<and> j < n \<longrightarrow> fst (env j) \<le> deadline)"
proof (induction "MAX_REQUEST_BYTES + 1 - length data" arbitrary: k data he rule: less_induct)
  case less
  from less.prems(1) show ?case
  proof (cases rule: loop_Some_cases)
    case eof
    with less.prems show ?thesis by (intro exI [of _ k]) auto
  next
    case (full buf)
    with less.prems show ?thesis by (intro exI [of _ "Suc k"]) (auto simp: le_less_Suc_eq)
  next
    case (more buf he')
    have dec: "MAX_REQUEST_BYTES + 1 - length (data @ buf) < MAX_REQUEST_BYTES + 1 - length data"
      using room_shrinks [of buf MAX_REQUEST_BYTES "length data"] more by simp
    have "data @ buf = received env (Suc k)" using more less.prems(2) by simp
    from less.hyps [OF dec more(5) this more(4)] obtain n where
      n: "Suc k \<le> n" "length (received env n) \<le> MAX_REQUEST_BYTES"
      "parse_http_request (received env n) = Some r"
      "\<forall>j. Suc k \<le> j \<and> j < n \<longrightarrow> fst (env j) \<le> deadline" by blast
    have "fst (env j) \<le> deadline" if "k \<le> j" "j < n" for j
      using that n(4) more(1) by (cases "j = k") auto
    with n show ?thesis by (intro exI [of _ n]) auto
  qed
qed

lemma str_find_prefix:
  assumes "str_find n (a @ b) = Some p"
  shows "str_find n a = (if p + length n \<le> length a then Some p else None)"
proof (cases "str_find n a")
  case None
  have "\<not> p + length n \<le> length a"
  proof
    assume le: "p + length n \<le> length a"
    have "take (length n) (drop p (a @ b)) = n"
      using str_find_Some_split [OF assms] by (metis append_eq_conv_conj length_take min.absorb2
          add_leD1)
    with le have "take (length n) (drop p a) = n" by simp
    then have "a = take p a @ n @ drop (length n) (drop p a)" by (metis append_take_drop_id)
    with None show False by (metis str_find_None_iff sublist_appendI)
  qed
  with None show ?thesis by simp
next
  case (Some q)
  have q: "a = take q a @ n @ drop (q + length n) a" "q + length n \<le> length a"
    using str_find_Some_split [OF Some] by simp_all
  then have "a @ b = take q a @ n @ drop (q + length n) a @ b" by (metis append_assoc)
  moreover have "str_find n (a @ b) = Some q"
  proof (rule str_find_eqI)
    show "prefix n (drop q (a @ b))"
      using q by (metis append_eq_conv_conj append_assoc length_take min.absorb2 add_leD1 prefixI)
    show "q \<le> length (a @ b)" using q by simp
    show "\<not> prefix n (drop r (a @ b))" if "r < q" for r
    proof
      assume "prefix n (drop r (a @ b))"
      then have "prefix n (drop r a @ b)" using that q by simp
      then have "prefix n (drop r a)"
        using that q by (elim prefix_append [THEN iffD1, THEN disjE]) (auto dest: prefix_length_le)
      with str_find_first [OF Some that] show False by simp
    qed
  qed
  ultimately show ?thesis using assms Some q by simp
qed


subsection \<open>Framing\<close>

lemma note_header_end_prefix:
  assumes find: "str_find crlf2 (data @ rest) = Some p"
    and cl: "content_length (data @ rest) (p + 4) = n"
  shows "note_header_end data None = (if p + 4 \<le> length data then Some (p + 4, n) else None)"
proof -
  have "length crlf2 = 4" by (simp add: crlf2_def)
  with str_find_prefix [OF find] cl show ?thesis
    by (auto simp: note_header_end_def content_length_def)
qed

lemma read_http_loop_chunks:
  assumes find: "str_find crlf2 text = Some p" and cl: "content_length text (p + 4) = n"
    and total: "length text = p + 4 + n" and small: "length text \<le> MAX_REQUEST_BYTES"
  shows "\<lbrakk>cs \<noteq> []; [] \<notin> set cs; data @ concat cs = text;
     \<And>j. j < length cs \<Longrightarrow> fst (env (k + j)) \<le> deadline \<and> snd (env (k + j)) = Some (cs ! j);
     he = (if p + 4 \<le> length data then Some (p + 4, n) else None)\<rbrakk> \<Longrightarrow>
     read_http_loop checks deadline env k data he = Some (parse_http_request text)"
proof (induction cs arbitrary: k data he)
  case (Cons c cs)
  have c: "c \<noteq> []" and whole: "(data @ c) @ concat cs = text" using Cons.prems by auto
  have now: "fst (env k) \<le> deadline" "snd (env k) = Some c" using Cons.prems(4) [of 0] by auto
  let ?he = "if p + 4 \<le> length (data @ c) then Some (p + 4, n) else None"
  have note_he: "note_header_end (data @ c) he = ?he"
    using note_header_end_prefix [of "data @ c" "concat cs" p n] find cl whole Cons.prems(5)
    by (auto simp: note_header_end_def)
  have fits: "length (data @ c) \<le> MAX_REQUEST_BYTES"
    using small whole by (metis length_append le_trans le_add1)
  have sum: "usize_add checks (p + 4) n = Some (length text)"
    using total small by (simp add: usize_add_def MAX_REQUEST_BYTES_def)
  show ?case
  proof (cases "cs = []")
    case True
    with whole total have "data @ c = text" "p + 4 \<le> length (data @ c)" by auto
    with loop_more [where env = env and k = k and buf = c and data = data and deadline = deadline, OF now c fits] note_he sum show ?thesis by simp
  next
    case False
    then have "concat cs \<noteq> []" using Cons.prems(2) by (cases cs) auto
    then have less: "\<not> length text \<le> length (data @ c)" using whole by (auto simp flip: whole)
    have "read_http_loop checks deadline env (Suc k) (data @ c) ?he = Some (parse_http_request text)"
      using Cons.IH [OF False _ whole _ refl, of "Suc k"] Cons.prems(2) Cons.prems(4) [of "Suc j" for j]
      by simp
    with loop_more [where env = env and k = k and buf = c and data = data and deadline = deadline, OF now c fits] note_he sum less show ?thesis by (auto split: if_splits)
  qed
qed simp

text \<open>A printed request that announces its body's length is read back from the socket.\<close>

lemma content_length_lines_end: "content_length_lines (ls @ [[]]) = content_length_lines ls"
  by (induction ls) (auto simp: split_once_def split: option.splits)

lemma read_printed_request:
  assumes ok: "request_ok r" and cl: "content_length_lines (request_lines r) = length (req_body r)"
    and small: "length (print_request r) \<le> MAX_REQUEST_BYTES"
    and cs: "cs \<noteq> []" "[] \<notin> set cs" "concat cs = print_request r"
    and env: "\<And>j. j < length cs \<Longrightarrow> fst (env j) \<le> start + REQUEST_DEADLINE \<and> snd (env j) = Some (cs ! j)"
  shows "read_http_request checks start env = Some (Some r)"
proof -
  let ?ls = "request_lines r"
  have lok: "list_all line_ok ?ls" using ok by (rule request_lines_ok)
  have ne: "?ls \<noteq> []" by (simp add: request_lines_def)
  define p where "p = length (lines_text ?ls) - 2"
  have "2 \<le> length (lines_text ?ls)" using ne by (cases ?ls) (auto simp: lines_text_def crlf_def)
  then have p4: "p + 4 = length (lines_text ?ls @ crlf)" by (simp add: p_def crlf_def)
  have find: "str_find crlf2 (print_request r) = Some p"
    using find_head_end [OF lok ne] by (simp add: print_request_def p_def)
  have "take (p + 4) (print_request r) = lines_text ?ls @ crlf"
    unfolding p4 print_request_def by simp
  moreover have "from_utf8_lossy (lines_text ?ls @ crlf) = lines_text ?ls @ crlf"
    using lines_text_ascii [OF lok] by (intro from_utf8_lossy_id utf8_valid_ascii)
  ultimately have len: "content_length (print_request r) (p + 4) = length (req_body r)"
    by (simp add: content_length_def str_lines_text [OF lok] content_length_lines_end cl)
  have tot: "length (print_request r) = p + 4 + length (req_body r)"
    unfolding p4 by (simp add: print_request_def)
  from read_http_loop_chunks [OF find len tot small, where cs = cs and data = "[]" and env = env
      and k = 0 and deadline = "start + REQUEST_DEADLINE" and he = None and checks = checks]
    cs env parse_printed_request [OF ok]
  show ?thesis by (simp add: read_http_request_def)
qed

text \<open>A minimal request, used as a concrete run.\<close>

definition sample_request :: http_request where
  "sample_request = \<lparr>req_method = ''GET'', req_path = ''/'', req_headers = [], req_body = []\<rparr>"

lemma sample_request_text:
  "parse_http_request (''GET / HTTP/1.1'' @ crlf2) = Some sample_request"
  "str_find crlf2 (''GET / HTTP/1.1'' @ crlf2) = Some 14"
  "content_length (''GET / HTTP/1.1'' @ crlf2) 18 = 0"
proof -
  have "request_ok sample_request" by (simp add: request_ok_def visible_def sample_request_def)
  from parse_printed_request [OF this]
  show "parse_http_request (''GET / HTTP/1.1'' @ crlf2) = Some sample_request"
    by (simp add: print_request_def request_lines_def lines_text_def crlf_def crlf2_def
        sample_request_def)
  show "str_find crlf2 (''GET / HTTP/1.1'' @ crlf2) = Some 14" by (simp add: crlf2_def)
  have "from_utf8_lossy (take 18 (''GET / HTTP/1.1'' @ crlf2)) = ''GET / HTTP/1.1'' @ crlf2"
    by (subst from_utf8_lossy_id) (auto intro!: utf8_valid_ascii simp: crlf2_def)
  then show "content_length (''GET / HTTP/1.1'' @ crlf2) 18 = 0"
    by (simp add: content_length_def) (simp add: str_lines_def crlf2_def strip_cr_def split_once_def)
qed

text \<open>C34: whatever the peer sends and whenever, a request that is accepted was parsed from at most
  \<open>MAX_REQUEST_BYTES\<close> bytes, exactly those received, and no read happened after the deadline.\<close>

theorem read_http_request_bounded:
  assumes "read_http_request checks start env = Some (Some r)"
  shows "\<exists>n. length (received env n) \<le> MAX_REQUEST_BYTES \<and> parse_http_request (received env n) = Some r
    \<and> (\<forall>j < n. fst (env j) \<le> start + REQUEST_DEADLINE)"
  using read_http_loop_bound [OF assms [unfolded read_http_request_def]] by auto

theorem read_http_request_bounded_witness:
  "\<exists>n. length (received (\<lambda>k. (0, Some (''GET / HTTP/1.1'' @ crlf2))) n) \<le> MAX_REQUEST_BYTES
     \<and> parse_http_request (received (\<lambda>k. (0, Some (''GET / HTTP/1.1'' @ crlf2))) n) = Some sample_request"
proof -
  let ?d = "''GET / HTTP/1.1'' @ crlf2"
  have "read_http_loop False (0 + REQUEST_DEADLINE) (\<lambda>k. (0, Some ?d)) 0 [] None =
      Some (parse_http_request ?d)"
    using sample_request_text(2,3)
    by (intro read_http_loop_chunks [where cs = "[?d]" and p = 14 and n = 0])
      (simp_all add: crlf2_def MAX_REQUEST_BYTES_def)
  then have "read_http_request False 0 (\<lambda>k. (0, Some ?d)) = Some (Some sample_request)"
    using sample_request_text(1) by (simp add: read_http_request_def)
  from read_http_request_bounded [OF this] show ?thesis by blast
qed

text \<open>C21: framing does not depend on how the network cuts the stream. A request whose head announces the
  length of its body, sent in any non-empty pieces before the deadline and not longer than
  \<open>MAX_REQUEST_BYTES\<close>, is parsed from exactly its own bytes.\<close>

theorem read_http_request_any_chunking:
  assumes "str_find crlf2 text = Some p" and "content_length text (p + 4) = n"
    and "length text = p + 4 + n" and "length text \<le> MAX_REQUEST_BYTES"
    and "[] \<notin> set cs" and "concat cs = text"
    and "\<And>j. j < length cs \<Longrightarrow> fst (env j) \<le> start + REQUEST_DEADLINE \<and> snd (env j) = Some (cs ! j)"
  shows "read_http_request checks start env = Some (parse_http_request text)"
proof -
  have "cs \<noteq> []" using assms(3,6) by auto
  then show ?thesis
    unfolding read_http_request_def
    using assms by (intro read_http_loop_chunks [OF assms(1-4)]) auto
qed


theorem read_http_request_any_chunking_witness:
  "read_http_request True 7 (\<lambda>k. (8, Some (if k = 0 then ''GET / HT'' else ''TP/1.1'' @ crlf2)))
     = Some (Some sample_request)"
proof -
  let ?d = "''GET / HTTP/1.1'' @ crlf2"
  let ?cs = "[''GET / HT'', ''TP/1.1'' @ crlf2]"
  have "read_http_request True 7 (\<lambda>k. (8, Some (if k = 0 then ''GET / HT'' else ''TP/1.1'' @ crlf2)))
      = Some (parse_http_request ?d)"
    using sample_request_text(2,3)
    by (intro read_http_request_any_chunking [where cs = ?cs and p = 14 and n = 0])
      (auto simp: crlf2_def MAX_REQUEST_BYTES_def REQUEST_DEADLINE_def less_Suc_eq)
  then show ?thesis using sample_request_text(1) by simp
qed

text \<open>C35: the announced body length is added to the head length without a check. A head announcing the
  largest \<open>usize\<close> makes a build with overflow checks panic in the connection's thread, and makes a
  build without them treat the request as complete as soon as its head has arrived, with whatever
  part of the body came along.\<close>

theorem content_length_overflow:
  assumes "fst (env 0) \<le> start + REQUEST_DEADLINE" and "snd (env 0) = Some data"
    and "length data \<le> MAX_REQUEST_BYTES"
    and "str_find crlf2 data = Some p" and "content_length data (p + 4) = 2 ^ 64 - 1"
  shows "read_http_request True start env = None
    \<and> read_http_request False start env = Some (parse_http_request data)"
proof -
  have le: "p + 4 \<le> length data" using str_find_Some_split [OF assms(4)] by (simp add: crlf2_def)
  then have ne: "data \<noteq> []" by auto
  have small: "p + 3 < 2 ^ 64" using le assms(3) by (simp add: MAX_REQUEST_BYTES_def)
  have "p + 4 + (2 ^ 64 - 1) = (p + 3) + 2 ^ 64" by simp
  then have "(p + 4 + (2 ^ 64 - 1)) mod 2 ^ 64 = p + 3" using small by (metis mod_add_self2 mod_less)
  then have "usize_add True (p + 4) (2 ^ 64 - 1) = None"
    "usize_add False (p + 4) (2 ^ 64 - 1) = Some (p + 3)"
    by (simp_all add: usize_add_def)
  with loop_more [where env = env and k = 0 and buf = data and data = "[]" and he = None
      and deadline = "start + REQUEST_DEADLINE", OF assms(1,2) ne] assms(3-5) le show ?thesis
    by (simp add: read_http_request_def note_header_end_def del: power_numeral)
qed

theorem content_length_overflow_witness:
  "read_http_request True 0 (\<lambda>k. (0, Some (''A'' @ crlf @ ''content-length:18446744073709551615'' @ crlf2))) = None"
proof -
  let ?d = "''A'' @ crlf @ ''content-length:18446744073709551615'' @ crlf2"
  have "str_find crlf2 ?d = Some 38" by (simp add: crlf_def crlf2_def)
  moreover have "from_utf8_lossy (take 42 ?d) = ?d"
    by (subst from_utf8_lossy_id) (auto intro!: utf8_valid_ascii simp: crlf_def crlf2_def)
  then have "content_length ?d 42 = 2 ^ 64 - 1"
    unfolding content_length_def
    by (simp add: str_lines_def crlf_def crlf2_def strip_cr_def split_once_def eq_ignore_ascii_case_def
       to_ascii_lowercase_def ascii_lower_def parse_usize_def from_str_radix_def str_trim_def is_whitespace_char_def to_digit_def)
  ultimately show ?thesis
    using content_length_overflow [where env = "\<lambda>k. (0, Some ?d)" and start = 0 and data = ?d and p = 38]
    by (simp add: crlf_def crlf2_def MAX_REQUEST_BYTES_def)
qed

end
