(* ===== verification/Web_Guard.thy ===== *)
theory Web_Guard
  imports Http_Protocol "HOL-Library.Word"
begin

text \<open>
  \<open>src/web.rs\<close>, first half: what stands between a connection and the dashboard. Single-use tickets for
  the event stream, the two per-address sliding windows, the token comparison, percent decoding,
  \<open>authorized\<close> and \<open>csrf_ok\<close>. The process-wide tables are explicit state; \<open>Instant::now()\<close> is an argument
  in milliseconds, and \<open>duration_since\<close>, which saturates at zero, is subtraction on \<^typ>\<open>nat\<close>. The peer
  address is only compared, so its type is a variable.
\<close>

section \<open>Definitions\<close>

record web_config =
  token :: string
  socket :: string
  mock_enabled :: bool

subsection \<open>Event-stream tickets\<close>

type_synonym tickets = "string \<rightharpoonup> nat"

definition map_retain :: "('k \<Rightarrow> 'v \<Rightarrow> bool) \<Rightarrow> ('k \<rightharpoonup> 'v) \<Rightarrow> ('k \<rightharpoonup> 'v)" where
  "map_retain p m = (\<lambda>k. case m k of None \<Rightarrow> None | Some v \<Rightarrow> if p k v then Some v else None)"

definition sweep_tickets :: "nat \<Rightarrow> tickets \<Rightarrow> tickets" where
  "sweep_tickets now tickets = map_retain (\<lambda>_ issued. now - issued < SSE_TICKET_TTL) tickets"

definition mint_sse_ticket :: "string \<Rightarrow> nat \<Rightarrow> tickets \<Rightarrow> string \<times> tickets" where
  "mint_sse_ticket ticket now tickets = (ticket, (sweep_tickets now tickets)(ticket \<mapsto> now))"

definition consume_sse_ticket :: "string \<Rightarrow> nat \<Rightarrow> tickets \<Rightarrow> bool \<times> tickets" where
  "consume_sse_ticket t now tickets =
     (let swept = sweep_tickets now tickets in (swept t \<noteq> None, swept(t := None)))"

subsection \<open>Sliding windows\<close>

type_synonym 'ip hit_table = "'ip \<rightharpoonup> nat list"

record 'ip rate_windows =
  general :: "'ip hit_table"
  auth_fail :: "'ip hit_table"

definition RATE_GENERAL_LIMIT :: nat where "RATE_GENERAL_LIMIT = 120"
definition RATE_GENERAL_WINDOW :: nat where "RATE_GENERAL_WINDOW = 60000"
definition RATE_AUTH_FAIL_LIMIT :: nat where "RATE_AUTH_FAIL_LIMIT = 20"
definition RATE_AUTH_FAIL_WINDOW :: nat where "RATE_AUTH_FAIL_WINDOW = 300000"

text \<open>\<open>entry(ip).or_default()\<close>, read.\<close>

definition table_hits :: "'ip hit_table \<Rightarrow> 'ip \<Rightarrow> nat list" where
  "table_hits m ip = (case m ip of None \<Rightarrow> [] | Some hits \<Rightarrow> hits)"

definition sweep_hits :: "nat \<Rightarrow> 'ip \<Rightarrow> nat \<Rightarrow> 'ip hit_table \<Rightarrow> 'ip hit_table" where
  "sweep_hits window ip now m = m(ip \<mapsto> filter (\<lambda>t. now - t < window) (table_hits m ip))"

definition push_hit :: "'ip \<Rightarrow> nat \<Rightarrow> 'ip hit_table \<Rightarrow> 'ip hit_table" where
  "push_hit ip now m = m(ip \<mapsto> table_hits m ip @ [now])"

definition drop_empty :: "'ip hit_table \<Rightarrow> 'ip hit_table" where
  "drop_empty m = map_retain (\<lambda>_ v. v \<noteq> []) m"

definition rate_check :: "'ip hit_table \<Rightarrow> 'ip \<Rightarrow> nat \<Rightarrow> nat \<Rightarrow> nat \<Rightarrow> bool \<times> 'ip hit_table" where
  "rate_check m ip window limit now =
     (let m1 = sweep_hits window ip now m in
      if limit \<le> length (table_hits m1 ip) then (False, m1)
      else (True, drop_empty (push_hit ip now m1)))"

definition rate_limited :: "'ip \<Rightarrow> nat \<Rightarrow> 'ip rate_windows \<Rightarrow> bool \<times> 'ip rate_windows" where
  "rate_limited ip now w =
     (let (ok, m) = rate_check (general w) ip RATE_GENERAL_WINDOW RATE_GENERAL_LIMIT now
      in (\<not> ok, w\<lparr>general := m\<rparr>))"

definition auth_failures_exceeded :: "'ip \<Rightarrow> nat \<Rightarrow> 'ip rate_windows \<Rightarrow> bool \<times> 'ip rate_windows" where
  "auth_failures_exceeded ip now w =
     (let m = sweep_hits RATE_AUTH_FAIL_WINDOW ip now (auth_fail w)
      in (RATE_AUTH_FAIL_LIMIT \<le> length (table_hits m ip), w\<lparr>auth_fail := m\<rparr>))"

definition record_auth_failure :: "'ip \<Rightarrow> nat \<Rightarrow> 'ip rate_windows \<Rightarrow> 'ip rate_windows" where
  "record_auth_failure ip now w = w\<lparr>auth_fail := push_hit ip now (auth_fail w)\<rparr>"

subsection \<open>Token comparison\<close>

definition byte_word :: "char \<Rightarrow> 8 word" where
  "byte_word c = word_of_nat (byte c)"

fun diff_bytes :: "8 word \<Rightarrow> bytes \<Rightarrow> bytes \<Rightarrow> 8 word" where
  "diff_bytes diff (x # xs) (y # ys) =
     diff_bytes (or diff (xor (byte_word x) (byte_word y))) xs ys"
| "diff_bytes diff _ _ = diff"

definition constant_time_eq :: "bytes \<Rightarrow> bytes \<Rightarrow> bool" where
  "constant_time_eq a b = (if length a \<noteq> length b then False else diff_bytes 0 a b = 0)"

subsection \<open>Query parameters\<close>

function percent_decode_loop :: "bytes \<Rightarrow> bytes" where
  "percent_decode_loop [] = []"
| "percent_decode_loop (b # rest) =
     (if b = CHR ''%'' \<and> 2 \<le> length rest then
        (case hex_pair (take 2 rest) of
           Some v \<Rightarrow> char_of v # percent_decode_loop (drop 2 rest)
         | None \<Rightarrow> b # percent_decode_loop rest)
      else if b = CHR ''+'' then CHR '' '' # percent_decode_loop rest
      else b # percent_decode_loop rest)"
  by pat_completeness auto
termination
  by (relation "measure length") auto

definition percent_decode :: "string \<Rightarrow> string" where
  "percent_decode s = from_utf8_lossy (percent_decode_loop s)"

definition query_param :: "string \<Rightarrow> string \<Rightarrow> string option" where
  "query_param q key =
     map_option (\<lambda>(_, v). percent_decode v)
       (find (\<lambda>(k, _). k = key) (List.map_filter (split_once ''='') (split_str ''&'' q)))"

subsection \<open>Authorization and origin\<close>

definition bearer_ok :: "http_request \<Rightarrow> web_config \<Rightarrow> bool" where
  "bearer_ok r cfg =
     (case header r ''authorization'' of
        None \<Rightarrow> False
      | Some v \<Rightarrow> (case strip_prefix v ''Bearer '' of
                      None \<Rightarrow> False
                    | Some t \<Rightarrow> constant_time_eq t (token cfg)))"

definition authorized :: "http_request \<Rightarrow> web_config \<Rightarrow> nat \<Rightarrow> tickets \<Rightarrow> bool \<times> tickets" where
  "authorized r cfg now tickets =
     (if token cfg = [] then (True, tickets)
      else if bearer_ok r cfg then (True, tickets)
      else if route r = ''/api/v1/events'' then
        (case query_param (query r) ''ticket'' of
           Some t \<Rightarrow> consume_sse_ticket t now tickets
         | None \<Rightarrow> (False, tickets))
      else (False, tickets))"

text \<open>\<open>split("://").nth(1).unwrap_or("")\<close>.\<close>

definition origin_host :: "string \<Rightarrow> string" where
  "origin_host origin = (case split_str ''://'' origin of _ # h # _ \<Rightarrow> h | _ \<Rightarrow> [])"

definition csrf_ok :: "http_request \<Rightarrow> bool" where
  "csrf_ok r =
     (let foreign = (case header r ''origin'' of
                       None \<Rightarrow> False
                     | Some origin \<Rightarrow>
                         let host = (case header r ''host'' of None \<Rightarrow> [] | Some h \<Rightarrow> h)
                         in origin_host origin = [] \<or> \<not> eq_ignore_ascii_case (origin_host origin) host)
      in if foreign then False
         else if route r = ''/api/v1/events'' then True
         else header r ''x-allgres-client'' \<noteq> None)"


section \<open>Sequences of operations\<close>

text \<open>Ticket operations, newest first.\<close>

datatype ticket_op = Mint string nat | Consume string nat

fun tickets_after :: "ticket_op list \<Rightarrow> tickets" where
  "tickets_after [] = Map.empty"
| "tickets_after (Mint n t # ops) = snd (mint_sse_ticket n t (tickets_after ops))"
| "tickets_after (Consume n t # ops) = snd (consume_sse_ticket n t (tickets_after ops))"

fun op_time :: "ticket_op \<Rightarrow> nat" where
  "op_time (Mint n t) = t"
| "op_time (Consume n t) = t"

text \<open>The contract of a ticket: it opens the stream when the last operation that names it is its minting,
  less than the lifetime ago.\<close>

fun ticket_live :: "string \<Rightarrow> nat \<Rightarrow> ticket_op list \<Rightarrow> bool" where
  "ticket_live t now [] = False"
| "ticket_live t now (Mint n issued # ops) =
     (if n = t then now - issued < SSE_TICKET_TTL else ticket_live t now ops)"
| "ticket_live t now (Consume n _ # ops) = (if n = t then False else ticket_live t now ops)"

text \<open>Guard operations of all connections on the two windows, newest first, with the requests that were
  let through.\<close>

datatype 'ip guard_op = Request 'ip nat | Lockout_check 'ip nat | Auth_failure 'ip nat

fun guard_time :: "'ip guard_op \<Rightarrow> nat" where
  "guard_time (Request ip t) = t"
| "guard_time (Lockout_check ip t) = t"
| "guard_time (Auth_failure ip t) = t"

fun guard_run :: "'ip guard_op list \<Rightarrow> 'ip rate_windows \<times> ('ip \<times> nat) list" where
  "guard_run [] = (\<lparr>general = Map.empty, auth_fail = Map.empty\<rparr>, [])"
| "guard_run (Request ip now # ops) =
     (let (w, admitted) = guard_run ops; (limited, w') = rate_limited ip now w
      in (w', if limited then admitted else (ip, now) # admitted))"
| "guard_run (Lockout_check ip now # ops) =
     (let (w, admitted) = guard_run ops in (snd (auth_failures_exceeded ip now w), admitted))"
| "guard_run (Auth_failure ip now # ops) =
     (let (w, admitted) = guard_run ops in (record_auth_failure ip now w, admitted))"

text \<open>How often \<open>ip\<close> occurs in a log of dated hits less than \<open>window\<close> before \<open>now\<close>.\<close>

definition recent :: "nat \<Rightarrow> nat \<Rightarrow> 'ip \<Rightarrow> ('ip \<times> nat) list \<Rightarrow> nat" where
  "recent window now ip log = length (filter (\<lambda>(a, t). a = ip \<and> now - t < window) log)"

fun failures :: "'ip guard_op list \<Rightarrow> ('ip \<times> nat) list" where
  "failures [] = []"
| "failures (Auth_failure ip t # ops) = (ip, t) # failures ops"
| "failures (_ # ops) = failures ops"


section \<open>Lemmas\<close>

lemma map_retain_apply: "map_retain p m k = Option.bind (m k) (\<lambda>v. if p k v then Some v else None)"
  by (simp add: map_retain_def split: option.split)

subsection \<open>Tickets\<close>

lemma sweep_tickets_Some_iff:
  "sweep_tickets now m t = Some i \<longleftrightarrow> m t = Some i \<and> now - i < SSE_TICKET_TTL"
  by (auto simp: sweep_tickets_def map_retain_def split: option.splits)

lemma tickets_after_live:
  assumes "list_all (\<lambda>op. op_time op \<le> now) ops"
  shows "(\<exists>i. tickets_after ops t = Some i \<and> now - i < SSE_TICKET_TTL) \<longleftrightarrow> ticket_live t now ops"
  using assms
proof (induction t now ops rule: ticket_live.induct)
  case (2 t now n issued ops)
  have "issued - i < SSE_TICKET_TTL" if "now - i < SSE_TICKET_TTL" for i
    using that "2.prems" by auto
  with 2 show ?case by (auto simp: mint_sse_ticket_def sweep_tickets_Some_iff)
next
  case (3 t now n at ops)
  have "at - i < SSE_TICKET_TTL" if "now - i < SSE_TICKET_TTL" for i
    using that "3.prems" by auto
  with 3 show ?case by (auto simp: consume_sse_ticket_def Let_def sweep_tickets_Some_iff)
qed simp

lemma consume_iff:
  "fst (consume_sse_ticket t now m) \<longleftrightarrow> (\<exists>i. m t = Some i \<and> now - i < SSE_TICKET_TTL)"
  by (simp add: consume_sse_ticket_def Let_def sweep_tickets_Some_iff flip: not_None_eq)
    (metis not_None_eq sweep_tickets_Some_iff option.exhaust)

subsection \<open>Sliding windows\<close>

text \<open>
  The interface both windows have: a table of dated hits per address, a sweep that forgets what is
  older than the window, a push. Sweeping early never changes what a later look at the window sees.
\<close>

datatype 'ip log_event = Sweep 'ip nat | Push 'ip nat

fun pushed :: "'ip log_event list \<Rightarrow> ('ip \<times> nat) list" where
  "pushed [] = []"
| "pushed (Push ip t # es) = (ip, t) # pushed es"
| "pushed (Sweep ip t # es) = pushed es"

fun sweeps_before :: "nat \<Rightarrow> 'ip log_event list \<Rightarrow> bool" where
  "sweeps_before now [] = True"
| "sweeps_before now (Push ip t # es) = sweeps_before now es"
| "sweeps_before now (Sweep ip t # es) = (t \<le> now \<and> sweeps_before now es)"

locale hit_log =
  fixes hits :: "'m \<Rightarrow> 'ip \<Rightarrow> nat list"
    and sweep :: "'ip \<Rightarrow> nat \<Rightarrow> 'm \<Rightarrow> 'm"
    and push :: "'ip \<Rightarrow> nat \<Rightarrow> 'm \<Rightarrow> 'm"
    and start :: 'm
    and window :: nat
  assumes hits_start: "hits start ip = []"
    and hits_sweep: "hits (sweep ip now m) a =
      (if a = ip then filter (\<lambda>t. now - t < window) (hits m a) else hits m a)"
    and hits_push: "hits (push ip now m) a = (if a = ip then hits m a @ [now] else hits m a)"
begin

primrec log_run :: "'ip log_event list \<Rightarrow> 'm" where
  "log_run [] = start"
| "log_run (e # es) = (case e of Sweep ip t \<Rightarrow> sweep ip t | Push ip t \<Rightarrow> push ip t) (log_run es)"

lemma sweep_early:
  "t \<le> now \<Longrightarrow> filter (\<lambda>x. now - x < window) (hits (sweep a t m) ip) =
     filter (\<lambda>x. now - x < window) (hits m ip)"
  by (auto simp: hits_sweep intro!: filter_cong)

lemma log_run_recent:
  "sweeps_before now es \<Longrightarrow>
     length (filter (\<lambda>x. now - x < window) (hits (log_run es) ip)) = recent window now ip (pushed es)"
  by (induction now es rule: sweeps_before.induct)
    (auto simp: hits_start recent_def hits_push sweep_early)

end

lemma table_hits_sweep:
  "table_hits (sweep_hits window ip now m) a =
     (if a = ip then filter (\<lambda>t. now - t < window) (table_hits m a) else table_hits m a)"
  by (simp add: table_hits_def sweep_hits_def)

lemma table_hits_push: "table_hits (push_hit ip now m) a =
    (if a = ip then table_hits m a @ [now] else table_hits m a)"
  by (simp add: table_hits_def push_hit_def)

lemma table_hits_drop_empty: "table_hits (drop_empty m) a = table_hits m a"
  by (simp add: table_hits_def drop_empty_def map_retain_def split: option.split)

interpretation general_log: hit_log table_hits "sweep_hits RATE_GENERAL_WINDOW"
    "\<lambda>ip now m. drop_empty (push_hit ip now m)" Map.empty RATE_GENERAL_WINDOW
  by unfold_locales
    (simp_all add: table_hits_sweep table_hits_push table_hits_drop_empty, simp add: table_hits_def)

interpretation auth_log: hit_log table_hits "sweep_hits RATE_AUTH_FAIL_WINDOW" push_hit Map.empty
    RATE_AUTH_FAIL_WINDOW
  by unfold_locales
    (simp_all add: table_hits_sweep table_hits_push, simp add: table_hits_def)

text \<open>A run of the guard leaves each window as a log of sweeps and pushes.\<close>

lemma general_is_log:
  assumes "list_all (\<lambda>op. guard_time op \<le> now) ops"
  shows "\<exists>es. general (fst (guard_run ops)) = general_log.log_run es
    \<and> pushed es = snd (guard_run ops) \<and> sweeps_before now es"
  using assms
proof (induction ops rule: guard_run.induct)
  case 1
  have "general_log.log_run [] = Map.empty" by simp
  then show ?case by (intro exI [of _ "[]"]) simp
next
  case (2 ip t ops)
  then obtain es where es: "general (fst (guard_run ops)) = general_log.log_run es"
    "pushed es = snd (guard_run ops)" "sweeps_before now es" by auto
  have t: "t \<le> now" using "2.prems" by simp
  show ?case
  proof (cases "fst (rate_limited ip t (fst (guard_run ops)))")
    case True
    with es t show ?thesis
      by (intro exI [of _ "Sweep ip t # es"])
        (auto simp: rate_limited_def rate_check_def Let_def split_beta split: if_splits)
  next
    case False
    with es t show ?thesis
      by (intro exI [of _ "Push ip t # Sweep ip t # es"])
        (auto simp: rate_limited_def rate_check_def Let_def split_beta split: if_splits)
  qed
next
  case (3 ip t ops)
  then show ?case by (simp add: split_beta auth_failures_exceeded_def Let_def)
next
  case (4 ip t ops)
  then show ?case by (simp add: split_beta record_auth_failure_def)
qed

lemma auth_fail_is_log:
  assumes "list_all (\<lambda>op. guard_time op \<le> now) ops"
  shows "\<exists>es. auth_fail (fst (guard_run ops)) = auth_log.log_run es
    \<and> pushed es = failures ops \<and> sweeps_before now es"
  using assms
proof (induction ops rule: guard_run.induct)
  case 1
  have "auth_log.log_run [] = Map.empty" by simp
  then show ?case by (intro exI [of _ "[]"]) simp
next
  case (2 ip t ops)
  then show ?case by (simp add: split_beta rate_limited_def Let_def)
next
  case (3 ip t ops)
  then obtain es where "auth_fail (fst (guard_run ops)) = auth_log.log_run es"
    "pushed es = failures ops" "sweeps_before now es" by auto
  with "3.prems" show ?case
    by (intro exI [of _ "Sweep ip t # es"]) (simp add: split_beta auth_failures_exceeded_def Let_def)
next
  case (4 ip t ops)
  then obtain es where "auth_fail (fst (guard_run ops)) = auth_log.log_run es"
    "pushed es = failures ops" "sweeps_before now es" by auto
  then show ?case
    by (intro exI [of _ "Push ip t # es"]) (simp add: split_beta record_auth_failure_def)
qed

lemma rate_limited_iff:
  "fst (rate_limited ip now w) \<longleftrightarrow>
     RATE_GENERAL_LIMIT \<le> length (filter (\<lambda>t. now - t < RATE_GENERAL_WINDOW) (table_hits (general w) ip))"
  by (simp add: rate_limited_def rate_check_def Let_def table_hits_sweep split_beta)

lemma rate_limited_after:
  assumes "list_all (\<lambda>op. guard_time op \<le> now) ops"
  shows "fst (rate_limited ip now (fst (guard_run ops))) \<longleftrightarrow>
    RATE_GENERAL_LIMIT \<le> recent RATE_GENERAL_WINDOW now ip (snd (guard_run ops))"
proof -
  from general_is_log [OF assms] obtain es where
    "general (fst (guard_run ops)) = general_log.log_run es" "pushed es = snd (guard_run ops)"
    "sweeps_before now es" by auto
  with general_log.log_run_recent [of now es ip] show ?thesis by (simp add: rate_limited_iff)
qed

lemma lockout_after:
  assumes "list_all (\<lambda>op. guard_time op \<le> now) ops"
  shows "fst (auth_failures_exceeded ip now (fst (guard_run ops))) \<longleftrightarrow>
    RATE_AUTH_FAIL_LIMIT \<le> recent RATE_AUTH_FAIL_WINDOW now ip (failures ops)"
proof -
  from auth_fail_is_log [OF assms] obtain es where
    "auth_fail (fst (guard_run ops)) = auth_log.log_run es" "pushed es = failures ops"
    "sweeps_before now es" by auto
  with auth_log.log_run_recent [of now es ip] show ?thesis
    by (simp add: auth_failures_exceeded_def Let_def table_hits_sweep)
qed


lemma length_filter_mono:
  "(\<And>x. p x \<Longrightarrow> q x) \<Longrightarrow> length (filter p xs) \<le> length (filter q xs)"
  by (induction xs) (auto simp: le_SucI)

lemma failures_replicate [simp]: "failures (replicate n (Auth_failure ip t)) = replicate n (ip, t)"
  by (induction n) simp_all


section \<open>Properties\<close>

text \<open>C10: a ticket opens the event stream exactly when the last operation that named it minted it, less
  than its lifetime ago. So it works at most once per minting, never after it expired, and neither
  other tickets nor the sweeps they cause touch it, whatever sequence of mints and redemptions the
  connections perform.\<close>

theorem ticket_single_use:
  assumes "list_all (\<lambda>op. op_time op \<le> now) ops"
  shows "fst (consume_sse_ticket t now (tickets_after ops)) \<longleftrightarrow> ticket_live t now ops"
  using tickets_after_live [OF assms, of t] by (simp add: consume_iff)

theorem ticket_single_use_witness:
  "fst (consume_sse_ticket ''a'' 900 (tickets_after [Consume ''b'' 800, Mint ''a'' 700, Mint ''b'' 600]))
   \<and> \<not> fst (consume_sse_ticket ''b'' 900 (tickets_after [Consume ''b'' 800, Mint ''a'' 700, Mint ''b'' 600]))"
  using ticket_single_use [of 900 "[Consume ''b'' 800, Mint ''a'' 700, Mint ''b'' 600]" "''a''"]
    ticket_single_use [of 900 "[Consume ''b'' 800, Mint ''a'' 700, Mint ''b'' 600]" "''b''"]
  by (simp add: SSE_TICKET_TTL_def)

text \<open>C24: the general limit is a sliding window with no boundary effect: in every interval of
  \<open>RATE_GENERAL_WINDOW\<close> at most \<open>RATE_GENERAL_LIMIT\<close> requests of one address are let through, over any
  sequence of guard operations of all connections in the order of the clock.\<close>

theorem rate_limit_sliding_window:
  assumes "sorted_wrt (\<lambda>newer older. guard_time older \<le> guard_time newer) ops"
  shows "length (filter (\<lambda>(a, t). a = ip \<and> s \<le> t \<and> t < s + RATE_GENERAL_WINDOW) (snd (guard_run ops)))
    \<le> RATE_GENERAL_LIMIT"
  using assms
proof (induction ops rule: guard_run.induct)
  case (2 a now ops)
  let ?adm = "snd (guard_run ops)"
  let ?in = "\<lambda>(a, t). a = ip \<and> s \<le> t \<and> t < s + RATE_GENERAL_WINDOW"
  have IH: "length (filter ?in ?adm) \<le> RATE_GENERAL_LIMIT" using 2 by simp
  have "length (filter ?in ?adm) < RATE_GENERAL_LIMIT"
    if "\<not> fst (rate_limited ip now (fst (guard_run ops)))" "now < s + RATE_GENERAL_WINDOW"
  proof -
    have "length (filter ?in ?adm) \<le> recent RATE_GENERAL_WINDOW now ip ?adm"
      unfolding recent_def using that(2)
      by (intro length_filter_mono) (auto simp: RATE_GENERAL_WINDOW_def)
    also have "\<dots> < RATE_GENERAL_LIMIT"
      using rate_limited_after [of now ops ip] that(1) "2.prems" by (simp add: list_all_iff)
    finally show ?thesis .
  qed
  with IH show ?case
    by (cases "guard_run ops"; cases "rate_limited a now (fst (guard_run ops))") auto
qed (auto split: prod.splits)

theorem rate_limit_sliding_window_witness:
  "length (filter (\<lambda>(a, t). a = ''x'' \<and> 5 \<le> t \<and> t < 5 + RATE_GENERAL_WINDOW)
      (snd (guard_run [Request ''x'' 9, Auth_failure ''y'' 8, Request ''x'' 7]))) \<le> RATE_GENERAL_LIMIT"
  using rate_limit_sliding_window [of "[Request ''x'' 9, Auth_failure ''y'' 8, Request ''x'' 7]" "''x''" 5]
  by simp

text \<open>Nobody is limited by somebody else's traffic, nor for longer than the window: a request is
  rejected exactly when its own address was let through \<open>RATE_GENERAL_LIMIT\<close> times less than
  \<open>RATE_GENERAL_WINDOW\<close> ago.\<close>

theorem rate_limited_exact:
  assumes "list_all (\<lambda>op. guard_time op \<le> now) ops"
  shows "fst (rate_limited ip now (fst (guard_run ops))) \<longleftrightarrow>
    RATE_GENERAL_LIMIT \<le> recent RATE_GENERAL_WINDOW now ip (snd (guard_run ops))"
  using assms by (rule rate_limited_after)

theorem rate_limited_exact_witness:
  "\<not> fst (rate_limited ''x'' 9 (fst (guard_run [Request ''x'' 7, Request ''y'' 7])))"
proof -
  have "recent RATE_GENERAL_WINDOW 9 ''x'' (snd (guard_run [Request ''x'' 7, Request ''y'' 7])) < RATE_GENERAL_LIMIT"
    by (simp add: recent_def rate_limited_def rate_check_def sweep_hits_def table_hits_def
        RATE_GENERAL_LIMIT_def RATE_GENERAL_WINDOW_def split_beta Let_def)
  then show ?thesis
    using rate_limited_exact [of 9 "[Request ''x'' 7, Request ''y'' 7]" "''x''"] by simp
qed

text \<open>C25: the lockout after failed tokens counts exactly the failures of that address in the last
  \<open>RATE_AUTH_FAIL_WINDOW\<close>: requests, lockout checks and other addresses' failures never lift it early,
  and once the failures are older than the window the address can try again.\<close>

theorem auth_lockout_exact:
  assumes "list_all (\<lambda>op. guard_time op \<le> now) ops"
  shows "fst (auth_failures_exceeded ip now (fst (guard_run ops))) \<longleftrightarrow>
    RATE_AUTH_FAIL_LIMIT \<le> recent RATE_AUTH_FAIL_WINDOW now ip (failures ops)"
  using assms by (rule lockout_after)

theorem auth_lockout_exact_witness:
  "fst (auth_failures_exceeded ''x'' 9 (fst (guard_run (Request ''y'' 6 # replicate 20 (Auth_failure ''x'' 5)))))"
  using auth_lockout_exact [of 9 "Request ''y'' 6 # replicate 20 (Auth_failure ''x'' 5)" "''x''"]
  by (simp add: failures_replicate recent_def RATE_AUTH_FAIL_LIMIT_def RATE_AUTH_FAIL_WINDOW_def
      list_all_iff del: guard_run.simps)

text \<open>The sweep at the end of \<open>rate_check\<close> drops only addresses whose list is already empty, and only the
  caller's own list is shortened. An address that was seen once and never again stays in the table for
  good, however long ago that was: the table grows with every address ever seen.\<close>

theorem stale_address_kept:
  assumes "a \<noteq> ip" and "m a = Some hits" and "hits \<noteq> []"
  shows "snd (rate_check m ip window limit now) a = Some hits"
  using assms
  by (simp add: rate_check_def sweep_hits_def push_hit_def drop_empty_def map_retain_def Let_def)

theorem stale_address_kept_witness:
  "snd (rate_check [''a'' \<mapsto> [0]] ''b'' RATE_GENERAL_WINDOW RATE_GENERAL_LIMIT 999999999) ''a'' = Some [0]"
  by (rule stale_address_kept) simp_all

text \<open>The table of failures has no such sweep at all: it keeps every address that reached the lockout check.\<close>

lemma lockout_table_grows:
  assumes "Lockout_check ip t \<in> set ops"
  shows "ip \<in> dom (auth_fail (fst (guard_run ops)))"
  using assms
proof (induction ops rule: guard_run.induct)
  case (2 a now ops)
  then show ?case by (auto simp: rate_limited_def split: prod.splits)
qed (auto simp: auth_failures_exceeded_def record_auth_failure_def sweep_hits_def push_hit_def Let_def split: prod.splits)

subsection \<open>Token comparison\<close>

lemma byte_word_inject: "byte_word x = byte_word y \<longleftrightarrow> x = y"
proof -
  have "unat (byte_word c) = byte c" for c
    by (simp add: byte_word_def unat_of_nat take_bit_eq_mod)
  then show ?thesis by (metis of_char_eq_iff)
qed

lemma diff_bytes_zero:
  "length a = length b \<Longrightarrow> diff_bytes d a b = 0 \<longleftrightarrow> d = 0 \<and> a = b"
proof (induction d a b rule: diff_bytes.induct)
  case (1 d x xs y ys)
  have "xor u v = 0 \<longleftrightarrow> u = v" for u v :: "8 word"
    by (metis xor.assoc xor.left_neutral xor.right_neutral xor_self_eq)
  then have "or d (xor (byte_word x) (byte_word y)) = 0 \<longleftrightarrow> d = 0 \<and> x = y"
    by (simp add: or_eq_0_iff byte_word_inject)
  with 1 show ?case by auto
qed auto

text \<open>The constant-time comparison decides equality.\<close>

theorem constant_time_eq_correct: "constant_time_eq a b \<longleftrightarrow> a = b"
  by (auto simp: constant_time_eq_def diff_bytes_zero)

subsection \<open>Query parameters\<close>

lemma percent_decode_loop_form: "percent_decode_loop s = form_decode_loop s"
  by (induction s rule: percent_decode_loop.induct) (auto split: option.split)

text \<open>What a browser sends: every byte that is not kept as it is becomes a percent sign and two
  upper-case hexadecimal digits.\<close>

definition upper_hex :: "nat \<Rightarrow> char" where
  "upper_hex n = (if n < 10 then char_of (48 + n) else char_of (55 + n))"

definition url_encode_char :: "(char \<Rightarrow> bool) \<Rightarrow> char \<Rightarrow> string" where
  "url_encode_char keep c =
     (if keep c then [c] else [CHR ''%'', upper_hex (byte c div 16), upper_hex (byte c mod 16)])"

definition url_encode :: "(char \<Rightarrow> bool) \<Rightarrow> string \<Rightarrow> string" where
  "url_encode keep s = concat (map (url_encode_char keep) s)"

fun join_amp :: "string list \<Rightarrow> string" where
  "join_amp [] = []"
| "join_amp [x] = x"
| "join_amp (x # y # zs) = x @ CHR ''&'' # join_amp (y # zs)"

definition query_text :: "(char \<Rightarrow> bool) \<Rightarrow> (string \<times> string) list \<Rightarrow> string" where
  "query_text keep kvs = join_amp (map (\<lambda>(k, v). k @ CHR ''='' # url_encode keep v) kvs)"

lemma byte_upper_hex: "n < 16 \<Longrightarrow> byte (upper_hex n) = (if n < 10 then 48 + n else 55 + n)"
  by (simp add: upper_hex_def)

lemma upper_hex_not: "n < 16 \<Longrightarrow> upper_hex n \<noteq> CHR ''+'' \<and> upper_hex n \<noteq> CHR ''&''"
  using byte_upper_hex [of n] by (auto split: if_splits)

lemma hex_pair_upper:
  assumes "b < 256"
  shows "hex_pair [upper_hex (b div 16), upper_hex (b mod 16)] = Some b"
proof -
  have *: "b div 16 < 16" "b mod 16 < 16" using assms by auto
  then have "utf8_valid [upper_hex (b div 16), upper_hex (b mod 16)]"
    by (intro utf8_valid_ascii) (auto simp: byte_upper_hex)
  moreover have "to_digit 16 (upper_hex n) = Some n" if "n < 16" for n
    using byte_upper_hex [OF that] that by (simp add: to_digit_def)
  ultimately show ?thesis
    using * upper_hex_not [OF *(1)] assms
    by (simp add: hex_pair_def u8_from_str_radix16_def from_str_radix_def)
qed

lemma percent_decode_encode:
  assumes "\<And>c. keep c \<Longrightarrow> c \<noteq> CHR ''%'' \<and> c \<noteq> CHR ''+''"
  shows "percent_decode_loop (url_encode keep s) = s"
proof (induction s)
  case (Cons c s)
  then show ?case
    using assms [of c] hex_pair_upper [of "byte c"]
    by (auto simp: url_encode_def url_encode_char_def)
qed (simp add: url_encode_def)

lemma url_encode_no_amp:
  assumes "\<And>c. keep c \<Longrightarrow> c \<noteq> CHR ''&''"
  shows "CHR ''&'' \<notin> set (url_encode keep s)"
proof -
  have "byte c div 16 < 16" "byte c mod 16 < 16" for c by (simp_all add: less_mult_imp_div_less)
  then have "CHR ''&'' \<notin> set (url_encode_char keep c)" for c
    using assms [of c] upper_hex_not [of "byte c div 16"] upper_hex_not [of "byte c mod 16"]
    by (auto simp: url_encode_char_def)
  then show ?thesis by (auto simp: url_encode_def)
qed

lemma split_join_amp:
  "ps \<noteq> [] \<Longrightarrow> list_all (\<lambda>p. CHR ''&'' \<notin> set p) ps \<Longrightarrow> split_str ''&'' (join_amp ps) = ps"
  by (induction ps rule: join_amp.induct) (auto simp: split_str_single split_str_char)

text \<open>Both decoders of form-encoded text, the one for query parameters and the one for form bodies, are the
  same function although their branches stand in a different order.\<close>

theorem percent_decode_is_form_decode: "percent_decode s = form_decode s"
  by (simp add: percent_decode_def form_decode_def percent_decode_loop_form)

text \<open>A query parameter arrives as it was meant. For a query built from key-value pairs with the values
  percent-encoded, \<open>query_param\<close> returns the value of the first pair with the key, or nothing when no
  pair has it.\<close>

theorem query_param_roundtrip:
  assumes "\<And>c. keep c \<Longrightarrow> c \<notin> {CHR ''%'', CHR ''+'', CHR ''&''}"
    and "list_all (\<lambda>(k, v). CHR ''='' \<notin> set k \<and> CHR ''&'' \<notin> set k \<and> utf8_valid v) kvs"
  shows "query_param (query_text keep kvs) key = map_of kvs key"
proof (cases "kvs = []")
  case True
  then show ?thesis
    by (simp add: query_param_def query_text_def split_str_single List.map_filter_simps split_once_def)
next
  case False
  have enc: "percent_decode (url_encode keep v) = v" if "utf8_valid v" for v
    using percent_decode_encode [of keep v] assms(1) that
    by (auto simp: percent_decode_def from_utf8_lossy_id)
  have "split_str ''&'' (query_text keep kvs) = map (\<lambda>(k, v). k @ CHR ''='' # url_encode keep v) kvs"
    using False assms url_encode_no_amp [of keep] unfolding query_text_def
    by (intro split_join_amp) (auto simp: list_all_iff)
  moreover have "List.map_filter (split_once ''='') (map (\<lambda>(k, v). k @ CHR ''='' # url_encode keep v) kvs) =
      map (\<lambda>(k, v). (k, url_encode keep v)) kvs"
    using assms(2) by (induction kvs) (auto simp: List.map_filter_simps split_once_char)
  moreover have "map_option (\<lambda>(_, v). percent_decode v)
      (find (\<lambda>(k, _). k = key) (map (\<lambda>(k, v). (k, url_encode keep v)) kvs)) = map_of kvs key"
    using assms(2) by (induction kvs) (auto simp: enc)
  ultimately show ?thesis by (simp add: query_param_def)
qed

theorem query_param_roundtrip_witness:
  "query_param (query_text is_ascii_alphanumeric [(''v'', ''1''), (''ticket'', ''a b&c'')]) ''ticket'' =
     Some ''a b&c''"
proof -
  have "c \<notin> {CHR ''%'', CHR ''+'', CHR ''&''}" if "is_ascii_alphanumeric c" for c
    using that by (auto simp: string_ops)
  from query_param_roundtrip [OF this, where kvs = "[(''v'', ''1''), (''ticket'', ''a b&c'')]"]
  show ?thesis by simp
qed

subsection \<open>Authorization and origin\<close>

lemma bearer_ok_iff: "bearer_ok r cfg \<longleftrightarrow> header r ''authorization'' = Some (''Bearer '' @ token cfg)"
  unfolding bearer_ok_def
  by (auto simp: constant_time_eq_def diff_bytes_zero strip_prefix_def prefix_def split: option.splits)

text \<open>C9: with a dashboard token configured a request is authorized exactly when it carries the token as
  its bearer credential, or asks for the event stream with a ticket that is live: nothing else opens
  the dashboard, on any sequence of mints and redemptions.\<close>

theorem authorized_iff_credential:
  assumes "token cfg \<noteq> []" and "list_all (\<lambda>op. op_time op \<le> now) ops"
  shows "fst (authorized r cfg now (tickets_after ops)) \<longleftrightarrow>
    header r ''authorization'' = Some (''Bearer '' @ token cfg)
    \<or> route r = ''/api/v1/events''
      \<and> (\<exists>t. query_param (query r) ''ticket'' = Some t \<and> ticket_live t now ops)"
  using assms(1) tickets_after_live [OF assms(2)]
  by (auto simp: authorized_def bearer_ok_iff consume_iff split: option.splits)

theorem authorized_iff_credential_witness:
  "\<not> fst (authorized \<lparr>req_method = ''GET'', req_path = ''/api/v1/status'', req_headers = [], req_body = []\<rparr>
      \<lparr>token = ''t'', socket = ''s'', mock_enabled = False\<rparr> 9 (tickets_after [Mint ''a'' 5]))"
proof -
  let ?r = "\<lparr>req_method = ''GET'', req_path = ''/api/v1/status'', req_headers = [], req_body = []\<rparr>"
  have "route ?r = ''/api/v1/status''" by (simp add: route_def split_str_single)
  with authorized_iff_credential [where cfg = "\<lparr>token = ''t'', socket = ''s'', mock_enabled = False\<rparr>"
      and now = 9 and ops = "[Mint ''a'' 5]" and r = ?r]
  show ?thesis by (simp add: header_def)
qed

lemma split_origin:
  assumes "CHR '':'' \<notin> set scheme" "\<not> sublist ''://'' authority"
  shows "split_str ''://'' (scheme @ ''://'' @ authority) = [scheme, authority]"
proof -
  have "str_find ''://'' authority = None" using assms(2) by (simp add: str_find_None_iff)
  then have "split_str ''://'' authority = [authority]" by (simp add: split_str.simps [of _ authority])
  with str_find_skip [of "''://''" scheme "''://'' @ authority"] assms(1) show ?thesis
    by (simp add: split_str.simps [of _ "scheme @ _"])
qed

text \<open>A request that names its origin passes the cross-origin check exactly when the origin's authority is
  the host it was sent to, letter case aside, and it is either for the event stream or carries the
  client header no form or image can set.\<close>

theorem csrf_ok_same_origin:
  assumes "header r ''origin'' = Some (scheme @ ''://'' @ authority)"
    and "CHR '':'' \<notin> set scheme" and "\<not> sublist ''://'' authority"
  shows "csrf_ok r \<longleftrightarrow> authority \<noteq> []
    \<and> eq_ignore_ascii_case authority (case header r ''host'' of None \<Rightarrow> [] | Some h \<Rightarrow> h)
    \<and> (route r = ''/api/v1/events'' \<or> header r ''x-allgres-client'' \<noteq> None)"
  using split_origin [OF assms(2,3)] assms(1) by (auto simp: csrf_ok_def origin_host_def Let_def)

theorem csrf_ok_same_origin_witness:
  "\<not> csrf_ok \<lparr>req_method = ''POST'', req_path = ''/api/v1/run'',
     req_headers = [(''host'', ''localhost:8088''), (''origin'', ''https://evil.example''), (''x-allgres-client'', ''1'')],
     req_body = []\<rparr>"
  using csrf_ok_same_origin [where scheme = "''https''" and authority = "''evil.example''" and
      r = "\<lparr>req_method = ''POST'', req_path = ''/api/v1/run'',
     req_headers = [(''host'', ''localhost:8088''), (''origin'', ''https://evil.example''), (''x-allgres-client'', ''1'')],
     req_body = []\<rparr>"]
  by (simp add: header_def eq_ignore_ascii_case_def to_ascii_lowercase_def ascii_lower_def sublist_code)

end
