(* ===== verification/Web_Server.thy ===== *)
theory Web_Server
  imports Web_Guard Json_Value
begin

text \<open>
  \<open>src/web.rs\<close>, second half: nonces, responses, the call to the runtime worker over its socket, the
  routes, the event stream, the connection handler, the exposure check and the accept loop. The
  handler returns the new process-wide tables and the list of what it did, in order: bytes written,
  requests forwarded, sleeps. \<open>serde_json\<close>'s text functions, the operating system's random bytes, the
  peer on the socket and the dashboard page are parameters, collected in one record.
\<close>

section \<open>Definitions\<close>

subsection \<open>Nonces\<close>

record nonce_env =
  urandom :: "bytes option"
  unix_nanos :: "128 word"
  process_id :: "32 word"
  buf_addr :: "64 word"

definition to_le_bytes :: "128 word \<Rightarrow> bytes" where
  "to_le_bytes w = map (\<lambda>i. char_of (unat (drop_bit (8 * i) w))) [0..<16]"

definition hex2 :: "char \<Rightarrow> string" where
  "hex2 b = [hex_digit (byte b div 16), hex_digit (byte b mod 16)]"

definition nonce :: "nonce_env \<Rightarrow> string" where
  "nonce env =
     (let buf = (case urandom env of
                   Some b \<Rightarrow> b
                 | None \<Rightarrow>
                     to_le_bytes (xor (xor (unix_nanos env) (push_bit 64 (ucast (process_id env))))
                       (ucast (buf_addr env))))
      in concat (map hex2 buf))"

subsection \<open>Responses\<close>

definition header_crlf :: "string \<Rightarrow> string" where
  "header_crlf l = l @ crlf"

definition security_headers :: string where
  "security_headers =
     header_crlf ''X-Content-Type-Options: nosniff'' @
     header_crlf ''X-Frame-Options: DENY'' @
     header_crlf ''Referrer-Policy: no-referrer'' @
     header_crlf ''Cross-Origin-Resource-Policy: same-origin''"

definition response_head :: "string \<Rightarrow> string \<Rightarrow> nat \<Rightarrow> string \<Rightarrow> string" where
  "response_head status content_type len extra =
     header_crlf (''HTTP/1.1 '' @ status) @
     header_crlf (''Content-Type: '' @ content_type) @
     header_crlf (''Content-Length: '' @ nat_to_radix 10 len) @
     header_crlf ''Cache-Control: no-store'' @
     header_crlf ''Connection: close'' @
     security_headers @ extra @ crlf"

text \<open>The bytes written; the results of the writes are discarded.\<close>

definition respond :: "string \<Rightarrow> string \<Rightarrow> string \<Rightarrow> string \<Rightarrow> bytes" where
  "respond status content_type body extra =
     response_head status content_type (length body) extra @ body"

definition respond_json :: "string \<Rightarrow> string \<Rightarrow> bytes" where
  "respond_json status body = respond status ''application/json'' body []"

subsection \<open>The runtime worker's socket\<close>

datatype rpc_outcome =
    Connect_failed string
  | Write_failed
  | Read_failed
  | Reply string

definition rpc :: "json_text \<Rightarrow> (string \<Rightarrow> bytes \<Rightarrow> rpc_outcome) \<Rightarrow> web_config \<Rightarrow> json \<Rightarrow> json" where
  "rpc jt peer cfg req =
     (case peer (socket cfg) (json_print jt req) of
        Connect_failed e \<Rightarrow> rpc_error (''runtime unavailable: '' @ e)
      | Write_failed \<Rightarrow> rpc_error ''rpc_write_failed''
      | Read_failed \<Rightarrow> rpc_error ''rpc_read_failed''
      | Reply out \<Rightarrow>
          (case json_parse jt out of
             Some v \<Rightarrow> v
           | None \<Rightarrow> rpc_error ''invalid_rpc_response''))"

definition body_json :: "json_text \<Rightarrow> http_request \<Rightarrow> json" where
  "body_json jt r = (case json_parse jt (req_body r) of Some v \<Rightarrow> v | None \<Rightarrow> json_object [])"

subsection \<open>Routes\<close>

function trim_start_matches :: "string \<Rightarrow> string \<Rightarrow> string" where
  "trim_start_matches p s =
     (if p \<noteq> [] \<and> prefix p s then trim_start_matches p (drop (length p) s) else s)"
  by pat_completeness auto
termination
  by (relation "measure (\<lambda>(p, s). length s)") (auto simp: prefix_def)

declare trim_start_matches.simps [simp del]

definition session_token :: "http_request \<Rightarrow> json" where
  "session_token r = json_opt JString (header r ''x-allgres-session'')"

definition agents_prefix :: string where
  "agents_prefix = ''/api/v1/agents/''"

text \<open>What a route asks of the runtime: nothing it knows, an answer of its own, or a request to forward.
  A body that cannot take the \<open>action\<close> key panics (\<^const>\<open>None\<close>).\<close>

datatype route_action = No_route | Answer json | Forward json

definition with_action :: "json \<Rightarrow> string \<Rightarrow> route_action panics" where
  "with_action b action = map_option Forward (json_set b ''action'' (JString action))"

definition route_request :: "json_text \<Rightarrow> http_request \<Rightarrow> route_action panics" where
  "route_request jt r =
     (let m = req_method r; p = route r in
      if m = ''GET'' \<and> p = ''/api/v1/status'' then
        Some (Forward (json_object [(''action'', JString ''overview'')]))
      else if m = ''GET'' \<and> p = ''/api/v1/agents'' then
        Some (Forward (json_object [(''action'', JString ''agents.list'')]))
      else if m = ''POST'' \<and> p = ''/api/v1/agents'' then with_action (body_json jt r) ''agents.create''
      else if m = ''POST'' \<and> p = ''/api/v1/run'' then with_action (body_json jt r) ''run''
      else if m = ''GET'' \<and> p = ''/api/v1/tasks'' then
        Some (Forward (json_object [(''action'', JString ''tasks.list''), (''limit'', JInt 200),
          (''session_token'', session_token r)]))
      else if m = ''GET'' \<and> p = ''/api/v1/logs'' then
        Some (Forward (json_object [(''action'', JString ''logs.list''), (''limit'', JInt 250),
          (''session_token'', session_token r)]))
      else if m = ''GET'' \<and> p = ''/api/v1/settings'' then
        Some (Forward (json_object [(''action'', JString ''settings.get'')]))
      else if m = ''POST'' \<and> p = ''/api/v1/selftest'' then
        Some (Forward (json_object [(''action'', JString ''selftest'')]))
      else if m = ''POST'' \<and> p = ''/api/v1/settings/provider'' then
        with_action (body_json jt r) ''provider.update''
      else if m = ''PATCH'' \<and> prefix agents_prefix p then
        (case json_set (body_json jt r) ''action'' (JString ''agents.update'') of
           None \<Rightarrow> None
         | Some b \<Rightarrow>
             map_option Forward (json_set b ''agent_id'' (JString (trim_start_matches agents_prefix p))))
      else if m = ''POST'' \<and> p = ''/api/v1/rpc'' then
        (let b = body_json jt r in
         if get_str b ''action'' = None then Some (Answer (rpc_error ''action_required''))
         else Some (Forward b))
      else Some No_route)"

text \<open>The answer of the API, with the request it forwarded, if any.\<close>

definition api_route ::
    "json_text \<Rightarrow> (string \<Rightarrow> bytes \<Rightarrow> rpc_outcome) \<Rightarrow> web_config \<Rightarrow> http_request
     \<Rightarrow> (json option \<times> json list) panics" where
  "api_route jt peer cfg r =
     (case route_request jt r of
        None \<Rightarrow> None
      | Some No_route \<Rightarrow> Some (None, [])
      | Some (Answer v) \<Rightarrow> Some (Some v, [])
      | Some (Forward req) \<Rightarrow> Some (Some (rpc jt peer cfg req), [req]))"

subsection \<open>The connection handler\<close>

datatype web_effect = Wrote bytes | Forwarded json | Slept nat

datatype handler_end = Finished | Panicked

record 'ip web_state =
  rate :: "'ip rate_windows"
  ticket_table :: tickets

text \<open>
  What one connection sees of the world: its peer address, the clock at each reading, what the socket
  delivers and whether its writes succeed, the runtime worker's answer to each call, and the time a
  turn of the event loop takes beside its sleep (\<open>thread::sleep\<close> never returns early).
\<close>

record 'ip web_env =
  peer_ip :: "'ip option"
  overflow_checks :: bool
  t_rate :: nat
  t_read :: nat
  reads :: "nat \<Rightarrow> nat \<times> bytes option"
  t_lockout :: nat
  t_auth :: nat
  t_failure :: nat
  t_mint :: nat
  t_stream :: nat
  stream_write_ok :: "nat \<Rightarrow> bool"
  stream_delay :: "nat \<Rightarrow> nat"
  rand :: nonce_env
  peer :: "nat \<Rightarrow> string \<Rightarrow> bytes \<Rightarrow> rpc_outcome"
  jtext :: json_text
  dashboard_html :: string

definition events_request :: json where
  "events_request = json_object [(''action'', JString ''events'')]"

definition sse_frame :: "string \<Rightarrow> bytes" where
  "sse_frame snapshot =
     ''event: snapshot'' @ [CHR 0x0A] @ ''data: '' @ snapshot @ [CHR 0x0A, CHR 0x0A]"

function stream_loop ::
    "'ip web_env \<Rightarrow> web_config \<Rightarrow> nat \<Rightarrow> nat \<Rightarrow> nat \<Rightarrow> web_effect list" where
  "stream_loop env cfg deadline now k =
     (if now < deadline then
        let snapshot = rpc (jtext env) (peer env k) cfg events_request in
        Forwarded events_request # Wrote (sse_frame (json_print (jtext env) snapshot)) #
        (if stream_write_ok env (Suc k) then
           Slept SSE_INTERVAL #
           stream_loop env cfg deadline (now + stream_delay env k + SSE_INTERVAL) (Suc k)
         else [])
      else [])"
  by pat_completeness auto
termination
  by (relation "measure (\<lambda>(env, cfg, deadline, now, k). deadline - now)") (auto simp: SSE_INTERVAL_def)

declare stream_loop.simps [simp del]

definition stream_head :: bytes where
  "stream_head =
     header_crlf ''HTTP/1.1 200 OK'' @
     header_crlf ''Content-Type: text/event-stream; charset=utf-8'' @
     header_crlf ''Cache-Control: no-store'' @
     header_crlf ''Connection: close'' @
     header_crlf ''X-Accel-Buffering: no'' @
     security_headers @ crlf"

definition stream_events :: "'ip web_env \<Rightarrow> web_config \<Rightarrow> web_effect list" where
  "stream_events env cfg =
     Wrote stream_head #
     (if stream_write_ok env 0 then stream_loop env cfg (t_stream env + SSE_TOTAL) (t_stream env) 0
      else [])"

definition not_found :: web_effect where
  "not_found = Wrote (respond_json ''404 Not Found'' ''{\"ok\":false,\"error\":\"not_found\"}'')"

definition too_many :: "string \<Rightarrow> web_effect" where
  "too_many retry = Wrote (respond ''429 Too Many Requests'' ''application/json''
     ''{\"ok\":false,\"error\":\"rate_limited\"}'' (header_crlf (''Retry-After: '' @ retry)))"

definition method_not_allowed :: "string \<Rightarrow> web_effect" where
  "method_not_allowed allow = Wrote (respond ''405 Method Not Allowed'' ''application/json''
     ''{\"ok\":false,\"error\":\"method_not_allowed\"}'' (header_crlf (''Allow: '' @ allow)))"

subsubsection \<open>Mock endpoints\<close>

definition mock_chat_body :: json where
  "mock_chat_body = json_object
     [(''id'', JString ''allgres-mock''),
      (''object'', JString ''chat.completion''),
      (''choices'', JArray [json_object
         [(''index'', JInt 0),
          (''message'', json_object
             [(''role'', JString ''assistant''),
              (''content'', JString ''{\"action\":\"final_answer\",\"answer\":\"Allgres mock runtime OK\"}'')]),
          (''finish_reason'', JString ''stop'')]])]"

definition mock_chat :: "'ip web_env \<Rightarrow> web_config \<Rightarrow> string \<Rightarrow> web_effect list" where
  "mock_chat env cfg path =
     (if \<not> mock_enabled cfg then [not_found]
      else (if path = ''/mock/slow/chat/completions'' then [Slept 15000] else []) @
           [Wrote (respond_json ''200 OK'' (json_print (jtext env) mock_chat_body))])"

definition mock_oauth :: "'ip web_env \<Rightarrow> web_config \<Rightarrow> http_request \<Rightarrow> web_effect list" where
  "mock_oauth env cfg r =
     (if \<not> mock_enabled cfg then [not_found]
      else
        let form = parse_form_body (req_body r);
            code = (case form ''code'' of None \<Rightarrow> [] | Some c \<Rightarrow> c);
            secret = (case form ''client_secret'' of None \<Rightarrow> [] | Some c \<Rightarrow> c) in
        if code = [] \<or> secret \<noteq> ''allgres-mock-oauth-secret'' then
          [Wrote (respond_json ''401 Unauthorized'' ''{\"error\":\"invalid_client\"}'')]
        else
          [Wrote (respond_json ''200 OK'' (json_print (jtext env) (json_object
             [(''access_token'', JString (''allgres-mock-access-'' @ code)),
              (''refresh_token'', JString ''allgres-mock-refresh''),
              (''expires_in'', JInt 3600),
              (''token_type'', JString ''bearer'')])))])"

definition KEYWORDS :: "string list" where
  "KEYWORDS = [''alpha'', ''beta'', ''gamma'', ''delta'', ''epsilon'', ''zeta'', ''eta'', ''theta'']"

definition mock_embedding :: "string \<Rightarrow> json list" where
  "mock_embedding input =
     map (\<lambda>k. if str_contains input k then JFloat 10 1 else JFloat 5 2) KEYWORDS"

definition mock_embeddings :: "'ip web_env \<Rightarrow> web_config \<Rightarrow> http_request \<Rightarrow> web_effect list" where
  "mock_embeddings env cfg r =
     (if \<not> mock_enabled cfg then [not_found]
      else
        let input = to_ascii_lowercase
              (case Option.bind (json_parse (jtext env) (req_body r)) (\<lambda>v. get_str v ''input'') of
                 None \<Rightarrow> [] | Some s \<Rightarrow> s)
        in [Wrote (respond_json ''200 OK'' (json_print (jtext env) (json_object
             [(''data'', JArray [json_object [(''embedding'', JArray (mock_embedding input)), (''index'', JInt 0)]]),
              (''model'', JString ''allgres-mock-embed''),
              (''object'', JString ''list'')])))])"

subsubsection \<open>The dashboard page\<close>

fun join_with :: "string \<Rightarrow> string list \<Rightarrow> string" where
  "join_with sep [] = []"
| "join_with sep [x] = x"
| "join_with sep (x # y # zs) = x @ sep @ join_with sep (y # zs)"

definition str_replace :: "string \<Rightarrow> string \<Rightarrow> string \<Rightarrow> string" where
  "str_replace pat rep s = join_with rep (split_str pat s)"

definition csp_header :: "string \<Rightarrow> string" where
  "csp_header n = header_crlf
     (''Content-Security-Policy: default-src 'none'; '' @
      ''script-src 'nonce-'' @ n @ [CHR 0x27] @ ''; style-src 'nonce-'' @ n @ [CHR 0x27] @
      ''; connect-src 'self'; img-src 'self' data:; '' @
      ''base-uri 'none'; form-action 'none'; frame-ancestors 'none'' @ [CHR 0x27])"

subsubsection \<open>Requests to the API\<close>

definition forbidden :: web_effect where
  "forbidden = Wrote (respond_json ''403 Forbidden''
     ''{\"ok\":false,\"error\":\"cross_origin_request_rejected\"}'')"

definition unauthorized :: web_effect where
  "unauthorized = Wrote (respond ''401 Unauthorized'' ''application/json''
     ''{\"ok\":false,\"error\":\"unauthorized\"}'' (header_crlf ''WWW-Authenticate: Bearer''))"

text \<open>After \<open>authorized\<close>: ticket minting, the event stream, the routes.\<close>

definition serve_api ::
    "'ip web_env \<Rightarrow> web_config \<Rightarrow> http_request \<Rightarrow> 'ip web_state
     \<Rightarrow> 'ip web_state \<times> web_effect list \<times> handler_end" where
  "serve_api env cfg r st =
     (if route r = ''/api/v1/events/ticket'' then
        if req_method r \<noteq> ''POST'' then (st, [method_not_allowed ''POST''], Finished)
        else
          let (ticket, tk) = mint_sse_ticket (nonce (rand env)) (t_mint env) (ticket_table st) in
          (st\<lparr>ticket_table := tk\<rparr>,
           [Wrote (respond_json ''200 OK'' (json_print (jtext env) (json_object
              [(''ok'', JBool True), (''ticket'', JString ticket),
               (''expires_in'', JInt (int (SSE_TICKET_TTL div 1000)))])))], Finished)
      else if route r = ''/api/v1/events'' then (st, stream_events env cfg, Finished)
      else case api_route (jtext env) (peer env 0) cfg r of
             None \<Rightarrow> (st, [], Panicked)
           | Some (Some v, reqs) \<Rightarrow>
               let status = (if get_bool v ''ok'' = Some False then ''400 Bad Request'' else ''200 OK'') in
               (st, map Forwarded reqs @ [Wrote (respond_json status (json_print (jtext env) v))], Finished)
           | Some (None, reqs) \<Rightarrow> (st, map Forwarded reqs @ [not_found], Finished))"

text \<open>From the cross-origin check to \<open>authorized\<close>. A peer without an address skips the lockout.\<close>

definition handle_api ::
    "'ip web_env \<Rightarrow> web_config \<Rightarrow> http_request \<Rightarrow> 'ip web_state
     \<Rightarrow> 'ip web_state \<times> web_effect list \<times> handler_end" where
  "handle_api env cfg r st =
     (if \<not> csrf_ok r then (st, [forbidden], Finished)
      else
        let (locked, w) = (case peer_ip env of
                             None \<Rightarrow> (False, rate st)
                           | Some ip \<Rightarrow> auth_failures_exceeded ip (t_lockout env) (rate st));
            st1 = st\<lparr>rate := w\<rparr> in
        if locked then (st1, [too_many ''300''], Finished)
        else
          let (ok, tk) = authorized r cfg (t_auth env) (ticket_table st1);
              st2 = st1\<lparr>ticket_table := tk\<rparr> in
          if \<not> ok then
            (case peer_ip env of
               None \<Rightarrow> st2
             | Some ip \<Rightarrow> st2\<lparr>rate := record_auth_failure ip (t_failure env) (rate st2)\<rparr>,
             [unauthorized], Finished)
          else serve_api env cfg r st2)"

definition handle_request ::
    "'ip web_env \<Rightarrow> web_config \<Rightarrow> http_request \<Rightarrow> 'ip web_state
     \<Rightarrow> 'ip web_state \<times> web_effect list \<times> handler_end" where
  "handle_request env cfg r st =
     (let path = route r in
      if req_method r = ''OPTIONS'' then (st, [method_not_allowed ''GET, POST, PATCH''], Finished)
      else if path = ''/healthz'' then (st, [Wrote (respond_json ''200 OK'' ''{\"ok\":true}'')], Finished)
      else if path = ''/mock/chat/completions'' \<or> path = ''/mock/slow/chat/completions'' then
        (st, mock_chat env cfg path, Finished)
      else if path = ''/mock/oauth/token'' then (st, mock_oauth env cfg r, Finished)
      else if path = ''/mock/embeddings'' then (st, mock_embeddings env cfg r, Finished)
      else if path = ''/'' then
        let n = nonce (rand env) in
        (st, [Wrote (respond ''200 OK'' ''text/html; charset=utf-8''
                (str_replace ''__CSP_NONCE__'' n (dashboard_html env)) (csp_header n))], Finished)
      else if \<not> prefix ''/api/v1/'' path then (st, [not_found], Finished)
      else handle_api env cfg r st)"

definition handle_web_connection ::
    "'ip web_env \<Rightarrow> web_config \<Rightarrow> 'ip web_state
     \<Rightarrow> 'ip web_state \<times> web_effect list \<times> handler_end" where
  "handle_web_connection env cfg st =
     (let (limited, w) = (case peer_ip env of
                            None \<Rightarrow> (False, rate st)
                          | Some ip \<Rightarrow> rate_limited ip (t_rate env) (rate st));
          st1 = st\<lparr>rate := w\<rparr> in
      if limited then (st1, [too_many ''60''], Finished)
      else case read_http_request (overflow_checks env) (t_read env) (reads env) of
             None \<Rightarrow> (st1, [], Panicked)
           | Some None \<Rightarrow> (st1, [], Finished)
           | Some (Some r) \<Rightarrow> handle_request env cfg r st1)"

subsection \<open>Exposure\<close>

definition rfind_char :: "char \<Rightarrow> string \<Rightarrow> nat option" where
  "rfind_char c s =
     (if c \<in> set s then Some (length s - 1 - length (takeWhile (\<lambda>x. x \<noteq> c) (rev s))) else None)"

definition is_loopback_addr :: "string \<Rightarrow> bool" where
  "is_loopback_addr addr =
     (let host = (case rfind_char (CHR '':'') addr of Some i \<Rightarrow> take i addr | None \<Rightarrow> addr);
          host' = rev (dropWhile (\<lambda>c. c = CHR '']'') (rev (dropWhile (\<lambda>c. c = CHR ''['') host)))
      in host' = ''127.0.0.1'' \<or> host' = ''::1'' \<or> host' = ''localhost'' \<or> prefix ''127.'' host')"

text \<open>\<open>insecure\<close> is the value of \<open>ALLGRES_ALLOW_INSECURE_HTTP\<close>, if it is set.\<close>

definition check_exposure :: "string option \<Rightarrow> string \<Rightarrow> string \<Rightarrow> string + unit" where
  "check_exposure insecure addr tok =
     (if is_loopback_addr addr \<or> tok \<noteq> [] then Inr ()
      else if insecure = Some ''1'' then Inr ()
      else Inl (''refusing to bind '' @ addr @ '' with no ALLGRES_DASHBOARD_TOKEN. '' @
                ''Set a token, bind to 127.0.0.1, or set ALLGRES_ALLOW_INSECURE_HTTP=1 if the '' @
                ''port is already protected by the surrounding network.''))"

subsection \<open>The accept loop\<close>

text \<open>
  \<open>allgres_web_main\<close> as a transition system: \<open>web_threads\<close> is the atomic counter, \<open>handlers\<close> the number of
  connection threads that are running. \<open>Accept_ok\<close> is an accepted connection whose thread starts,
  \<open>Accept_spawn_failed\<close> one whose thread does not, \<open>Return\<close> and \<open>Die\<close> a handler that returns or panics:
  a panic unwinds past the decrement that follows the call.
\<close>

record accept_state =
  web_threads :: nat
  handlers :: nat

datatype accept_event = Accept_busy | Accept_ok | Accept_spawn_failed | Return | Die

inductive accept_step :: "accept_state \<Rightarrow> accept_event \<Rightarrow> accept_state \<Rightarrow> bool" where
  busy: "MAX_WEB_THREADS \<le> web_threads s \<Longrightarrow> accept_step s Accept_busy s"
| spawned: "web_threads s < MAX_WEB_THREADS \<Longrightarrow>
    accept_step s Accept_ok \<lparr>web_threads = web_threads s + 1, handlers = handlers s + 1\<rparr>"
| spawn_failed: "web_threads s < MAX_WEB_THREADS \<Longrightarrow>
    accept_step s Accept_spawn_failed \<lparr>web_threads = web_threads s + 1 - 1, handlers = handlers s\<rparr>"
| returned: "0 < handlers s \<Longrightarrow>
    accept_step s Return \<lparr>web_threads = web_threads s - 1, handlers = handlers s - 1\<rparr>"
| died: "0 < handlers s \<Longrightarrow>
    accept_step s Die \<lparr>web_threads = web_threads s, handlers = handlers s - 1\<rparr>"

inductive_simps accept_step_iff [simp]:
  "accept_step s Accept_busy t" "accept_step s Accept_ok t" "accept_step s Accept_spawn_failed t"
  "accept_step s Return t" "accept_step s Die t"

inductive accept_run :: "accept_state \<Rightarrow> accept_event list \<Rightarrow> accept_state \<Rightarrow> bool" where
  run_Nil: "accept_run s [] s"
| run_snoc: "\<lbrakk>accept_run s es t; accept_step t e u\<rbrakk> \<Longrightarrow> accept_run s (es @ [e]) u"

definition accept_start :: accept_state where
  "accept_start = \<lparr>web_threads = 0, handlers = 0\<rparr>"

subsection \<open>Startup\<close>

text \<open>The worker's main function up to its loop: each early return with the warning it logs.\<close>

datatype web_start = Exposure_refused string | Bind_failed string | Nonblocking_failed string | Listening web_config

definition allgres_web_main ::
    "(string \<Rightarrow> string option) \<Rightarrow> string \<Rightarrow> string \<Rightarrow> (string \<Rightarrow> string + unit) \<Rightarrow> string + unit \<Rightarrow> web_start" where
  "allgres_web_main env_var addr rpc_socket bind_tcp set_nonblocking =
     (let cfg = \<lparr>token = (case env_var ''ALLGRES_DASHBOARD_TOKEN'' of None \<Rightarrow> [] | Some t \<Rightarrow> t),
                 socket = rpc_socket,
                 mock_enabled = (env_var ''ALLGRES_ENABLE_MOCK'' = Some ''1'')\<rparr> in
      case check_exposure (env_var ''ALLGRES_ALLOW_INSECURE_HTTP'') addr (token cfg) of
        Inl msg \<Rightarrow> Exposure_refused msg
      | Inr _ \<Rightarrow>
          (case bind_tcp addr of
             Inl e \<Rightarrow> Bind_failed e
           | Inr _ \<Rightarrow>
               (case set_nonblocking of
                  Inl e \<Rightarrow> Nonblocking_failed e
                | Inr _ \<Rightarrow> Listening cfg)))"


section \<open>Lemmas\<close>

lemma mock_no_forward:
  "Forwarded j \<notin> set (mock_chat env cfg p)" "Forwarded j \<notin> set (mock_oauth env cfg r)"
  "Forwarded j \<notin> set (mock_embeddings env cfg r)"
  by (simp_all add: mock_chat_def mock_oauth_def mock_embeddings_def not_found_def Let_def)

lemmas effect_defs = not_found_def too_many_def method_not_allowed_def forbidden_def unauthorized_def

lemma handle_api_forward:
  assumes "handle_api env cfg r st = (st', effs, e)" and "Forwarded j \<in> set effs"
  shows "csrf_ok r \<and> fst (authorized r cfg (t_auth env) (ticket_table st)) \<and>
    (case peer_ip env of None \<Rightarrow> True
     | Some ip \<Rightarrow> \<not> fst (auth_failures_exceeded ip (t_lockout env) (rate st)))"
  using assms by (auto simp: handle_api_def Let_def effect_defs split: if_splits prod.splits option.splits)

lemma handle_request_forward:
  assumes "handle_request env cfg r st = (st', effs, e)" and "Forwarded j \<in> set effs"
  shows "prefix ''/api/v1/'' (route r) \<and> handle_api env cfg r st = (st', effs, e)"
  using assms
  by (auto simp: handle_request_def Let_def effect_defs mock_no_forward split: if_splits)

subsection \<open>Response framing\<close>

lemma lines_text_Cons: "lines_text (l # ls) = l @ crlf @ lines_text ls"
  by (simp add: lines_text_def)

definition response_lines :: "string \<Rightarrow> string \<Rightarrow> nat \<Rightarrow> string list \<Rightarrow> string list" where
  "response_lines status content_type len extra =
     [''HTTP/1.1 '' @ status, ''Content-Type: '' @ content_type, ''Content-Length: '' @ nat_to_radix 10 len,
      ''Cache-Control: no-store'', ''Connection: close'', ''X-Content-Type-Options: nosniff'',
      ''X-Frame-Options: DENY'', ''Referrer-Policy: no-referrer'',
      ''Cross-Origin-Resource-Policy: same-origin''] @ extra"

lemma respond_lines:
  "respond status content_type body (lines_text extra) =
     lines_text (response_lines status content_type (length body) extra) @ crlf @ body"
  by (simp add: respond_def response_head_def security_headers_def header_crlf_def response_lines_def
      lines_text_Cons)

lemma printable_decimal: "printable (nat_to_radix 10 n)"
proof -
  have "set (nat_to_radix 10 n) \<subseteq> hex_digit ` {..<10}" by (rule nat_to_radix_digits) simp_all
  then show ?thesis by (auto simp: printable_def list_all_iff byte_hex_digit)
qed

lemma trimmed_decimal: "trimmed (nat_to_radix 10 n)"
proof -
  have "set (nat_to_radix 10 n) \<subseteq> hex_digit ` {..<10}" by (rule nat_to_radix_digits) simp_all
  moreover have "hex_digit d \<noteq> CHR '' ''" if "d < 10" for d
    using byte_hex_digit [of d] that by auto
  ultimately have "CHR '' '' \<notin> set (nat_to_radix 10 n)" by fastforce
  then show ?thesis unfolding trimmed_def by (metis hd_in_set last_in_set)
qed

lemma response_lines_ok:
  "printable status \<Longrightarrow> printable content_type \<Longrightarrow> list_all line_ok extra \<Longrightarrow>
     list_all line_ok (response_lines status content_type len extra)"
  by (simp add: response_lines_def line_ok_def printable_decimal)

lemma content_length_response_lines:
  assumes "printable status" "printable content_type" "len < 2 ^ 64"
  shows "content_length_lines (response_lines status content_type len extra @ rest) = len"
proof -
  have status: "content_length_lines ((''HTTP/1.1 '' @ status) # ls) = content_length_lines ls" for ls
    by (auto simp: eq_ignore_ascii_case_def to_ascii_lowercase_def ascii_lower_def split_once_def
        dest!: str_find_Some_split split: option.splits)
  have type: "split_once '':'' (''Content-Type'' @ '':'' @ t) = Some (''Content-Type'', t)"
    and len: "split_once '':'' (''Content-Length'' @ '':'' @ t) = Some (''Content-Length'', t)" for t
    by (simp_all add: split_once_def)
  have "str_trim (CHR '' '' # nat_to_radix 10 len) = nat_to_radix 10 len"
    by (rule str_trim_printable(2) [OF printable_decimal trimmed_decimal])
  moreover have "eq_ignore_ascii_case ''Content-Length'' ''content-length''"
    "\<not> eq_ignore_ascii_case ''Content-Type'' ''content-length''" by code_simp+
  ultimately show ?thesis
    using parse_usize_print [OF assms(3)] type len
    by (simp add: response_lines_def status [simplified])
qed

section \<open>Properties\<close>

text \<open>C7: nothing reaches the runtime worker without passing every gate. If a connection makes the handler
  forward anything, then the general limit admitted it, a request was read whose path is under
  \<open>/api/v1/\<close>, the cross-origin check passed, its address was not locked out, and it was authorized.\<close>

theorem forwarded_only_when_guarded:
  assumes "handle_web_connection env cfg st = (st', effs, e)" and "Forwarded j \<in> set effs"
  shows "\<exists>r. read_http_request (overflow_checks env) (t_read env) (reads env) = Some (Some r)
    \<and> prefix ''/api/v1/'' (route r) \<and> csrf_ok r
    \<and> fst (authorized r cfg (t_auth env) (ticket_table st))
    \<and> (case peer_ip env of None \<Rightarrow> True
       | Some ip \<Rightarrow> \<not> fst (rate_limited ip (t_rate env) (rate st))
          \<and> \<not> fst (auth_failures_exceeded ip (t_lockout env) (snd (rate_limited ip (t_rate env) (rate st)))))"
proof -
  obtain limited w where lw: "(case peer_ip env of None \<Rightarrow> (False, rate st)
      | Some ip \<Rightarrow> rate_limited ip (t_rate env) (rate st)) = (limited, w)" by force
  with assms obtain r where r: "read_http_request (overflow_checks env) (t_read env) (reads env) = Some (Some r)"
    "\<not> limited" "handle_request env cfg r (st\<lparr>rate := w\<rparr>) = (st', effs, e)"
    by (auto simp: handle_web_connection_def effect_defs Let_def split: if_splits option.splits)
  from handle_request_forward [OF r(3) assms(2)]
  have api: "prefix ''/api/v1/'' (route r)" "handle_api env cfg r (st\<lparr>rate := w\<rparr>) = (st', effs, e)" by auto
  from handle_api_forward [OF api(2) assms(2)] r lw api(1) show ?thesis
    by (auto split: option.splits)
qed

definition sample_status_request :: http_request where
  "sample_status_request = \<lparr>req_method = ''GET'', req_path = ''/api/v1/status'',
     req_headers = [(''x-allgres-client'', ''1'')], req_body = []\<rparr>"

definition sample_env :: "nat web_env" where
  "sample_env = \<lparr>peer_ip = Some 7, overflow_checks = True, t_rate = 0, t_read = 0,
     reads = (\<lambda>_. (0, Some (print_request sample_status_request))), t_lockout = 0, t_auth = 0,
     t_failure = 0, t_mint = 0, t_stream = 0, stream_write_ok = (\<lambda>_. True), stream_delay = (\<lambda>_. 0),
     rand = \<lparr>urandom = None, unix_nanos = 0, process_id = 0, buf_addr = 0\<rparr>,
     peer = (\<lambda>_ _ _. Read_failed), jtext = \<lparr>json_print = (\<lambda>_. []), json_parse = (\<lambda>_. None)\<rparr>,
     dashboard_html = []\<rparr>"

definition sample_config :: web_config where
  "sample_config = \<lparr>token = [], socket = ''s'', mock_enabled = False\<rparr>"

definition empty_state :: "nat web_state" where
  "empty_state = \<lparr>rate = \<lparr>general = Map.empty, auth_fail = Map.empty\<rparr>, ticket_table = Map.empty\<rparr>"

lemma sample_status_sent:
  "request_ok sample_status_request"
  "content_length_lines (request_lines sample_status_request) = length (req_body sample_status_request)"
  "length (print_request sample_status_request) \<le> MAX_REQUEST_BYTES" "print_request sample_status_request \<noteq> []"
proof -
  show "request_ok sample_status_request"
    by (simp add: request_ok_def sample_status_request_def visible_def header_ok_def printable_def
        trimmed_def to_ascii_lowercase_def ascii_lower_def)
  show "content_length_lines (request_lines sample_status_request) = length (req_body sample_status_request)"
    by code_simp
qed (simp_all add: sample_status_request_def print_request_def request_lines_def lines_text_def
    header_line_def crlf_def MAX_REQUEST_BYTES_def)

lemma sample_status_read:
  "read_http_request True 0 (\<lambda>_. (0, Some (print_request sample_status_request))) =
     Some (Some sample_status_request)"
  by (rule read_printed_request [where cs = "[print_request sample_status_request]"])
    (use sample_status_sent in simp_all)

lemma sample_status_guards:
  "route sample_status_request = ''/api/v1/status''" "csrf_ok sample_status_request"
  by code_simp+

theorem forwarded_only_when_guarded_witness:
  "csrf_ok sample_status_request \<and>
   Forwarded (json_object [(''action'', JString ''overview'')]) \<in>
     set (fst (snd (handle_web_connection sample_env sample_config empty_state)))"
proof -
  have run: "snd (handle_web_connection sample_env sample_config empty_state) =
      ([Forwarded (json_object [(''action'', JString ''overview'')]),
        Wrote (respond_json ''400 Bad Request'' [])], Finished)"
    using sample_status_guards
    by (simp add: handle_web_connection_def handle_request_def handle_api_def serve_api_def sample_env_def
        sample_config_def empty_state_def sample_status_read api_route_def route_request_def rpc_def
        rate_limited_def rate_check_def sweep_hits_def table_hits_def auth_failures_exceeded_def
        authorized_def RATE_GENERAL_LIMIT_def RATE_AUTH_FAIL_LIMIT_def rpc_error_def Let_def
        sample_status_request_def [THEN arg_cong, of req_method] json_get_object get_bool_def as_bool_def)
  then obtain st' where "handle_web_connection sample_env sample_config empty_state =
      (st', [Forwarded (json_object [(''action'', JString ''overview'')]),
        Wrote (respond_json ''400 Bad Request'' [])], Finished)" by (metis prod.collapse)
  from forwarded_only_when_guarded [OF this, of "json_object [(''action'', JString ''overview'')]"] run
  show ?thesis by (auto simp: sample_env_def sample_status_read)
qed

text \<open>Every response frames its own body. Whatever the status, the content type, the body and the extra
  header lines are, the first empty line ends the head, what follows is the body, and the length the
  head announces is the body's; the security headers are among the head's lines.\<close>

theorem respond_framed:
  assumes "printable status" "printable content_type" "list_all line_ok extra" "length body < 2 ^ 64"
  shows "\<exists>p. str_find crlf2 (respond status content_type body (lines_text extra)) = Some p
    \<and> drop (p + 4) (respond status content_type body (lines_text extra)) = body
    \<and> content_length (respond status content_type body (lines_text extra)) (p + 4) = length body
    \<and> {''X-Frame-Options: DENY'', ''X-Content-Type-Options: nosniff'', ''Cache-Control: no-store''}
      \<subseteq> set (str_lines (take (p + 4) (respond status content_type body (lines_text extra))))"
proof -
  let ?ls = "response_lines status content_type (length body) extra"
  let ?r = "respond status content_type body (lines_text extra)"
  have ok: "list_all line_ok ?ls" using assms(1-3) by (rule response_lines_ok)
  have ne: "?ls \<noteq> []" by (simp add: response_lines_def)
  define p where "p = length (lines_text ?ls) - 2"
  have "2 \<le> length (lines_text ?ls)" using ne by (cases ?ls) (auto simp: lines_text_def crlf_def)
  then have p4: "p + 4 = length (lines_text ?ls @ crlf)" by (simp add: p_def crlf_def)
  have find: "str_find crlf2 ?r = Some p"
    using find_head_end [OF ok ne, of body] by (simp add: respond_lines p_def)
  have parts: "take (p + 4) ?r = lines_text ?ls @ crlf" "drop (p + 4) ?r = body"
    unfolding p4 respond_lines by simp_all
  have lossy: "from_utf8_lossy (lines_text ?ls @ crlf) = lines_text ?ls @ crlf"
    using lines_text_ascii [OF ok] by (intro from_utf8_lossy_id utf8_valid_ascii)
  have lines: "str_lines (lines_text ?ls @ crlf) = ?ls @ [[]]" by (rule str_lines_text [OF ok])
  have "content_length ?r (p + 4) = length body"
    unfolding content_length_def parts(1) lossy lines
    by (rule content_length_response_lines [OF assms(1,2,4)])
  with find parts lines show ?thesis
    by (intro exI [of _ p]) (simp add: response_lines_def)
qed

theorem respond_framed_witness:
  "\<exists>p. str_find crlf2 (respond ''200 OK'' ''application/json'' ''{}'' (lines_text [''Allow: POST''])) = Some p
    \<and> content_length (respond ''200 OK'' ''application/json'' ''{}'' (lines_text [''Allow: POST''])) (p + 4) = 2"
  using respond_framed [of "''200 OK''" "''application/json''" "[''Allow: POST'']" "''{}''"]
  by (auto simp: line_ok_def)

subsection \<open>Bodies that are not objects\<close>

definition merging_route :: "http_request \<Rightarrow> bool" where
  "merging_route r \<longleftrightarrow>
     req_method r = ''POST'' \<and> route r \<in> {''/api/v1/agents'', ''/api/v1/run'', ''/api/v1/settings/provider''}
     \<or> req_method r = ''PATCH'' \<and> prefix ''/api/v1/agents/'' (route r)"

lemma route_request_None_iff:
  "route_request jt r = None \<longleftrightarrow>
     merging_route r \<and> as_object (body_json jt r) = None \<and> body_json jt r \<noteq> JNull"
  by (cases "body_json jt r")
    (auto simp: route_request_def with_action_def merging_route_def agents_prefix_def Let_def
        json_set_def as_object_def split: if_splits)

text \<open>The routes that merge \<open>action\<close> into the request body panic exactly on a body that is JSON but neither an object
  nor \<open>null\<close>; every other route answers on every body.\<close>

lemma serve_api_panics_iff:
  "snd (snd (serve_api env cfg r st)) = Panicked \<longleftrightarrow>
     merging_route r \<and> as_object (body_json (jtext env) r) = None \<and> body_json (jtext env) r \<noteq> JNull"
proof -
  have "route_request (jtext env) r \<noteq> None" if "route r = ''/api/v1/events/ticket'' \<or> route r = ''/api/v1/events''"
    using that by (auto simp: merging_route_def route_request_None_iff simp del: not_None_eq)
  then show ?thesis
    by (auto simp: serve_api_def api_route_def Let_def split_beta
        simp flip: route_request_None_iff split: option.splits route_action.splits)
qed

lemma merging_route_api: "merging_route r \<Longrightarrow> req_method r \<noteq> ''OPTIONS'' \<and> prefix ''/api/v1/'' (route r)"
  using prefix_order.trans [of "''/api/v1/''" "''/api/v1/agents/''" "route r"]
  by (auto simp: merging_route_def agents_prefix_def)

definition locked_out :: "'ip web_env \<Rightarrow> 'ip rate_windows \<Rightarrow> bool" where
  "locked_out env w = (case peer_ip env of None \<Rightarrow> False | Some ip \<Rightarrow> fst (auth_failures_exceeded ip (t_lockout env) w))"

lemma handle_request_panics_iff:
  "snd (snd (handle_request env cfg r st)) = Panicked \<longleftrightarrow>
     merging_route r \<and> csrf_ok r \<and> \<not> locked_out env (rate st) \<and> fst (authorized r cfg (t_auth env) (ticket_table st))
     \<and> as_object (body_json (jtext env) r) = None \<and> body_json (jtext env) r \<noteq> JNull"
proof (cases "req_method r \<noteq> ''OPTIONS'' \<and> prefix ''/api/v1/'' (route r)")
  case True
  then have "snd (snd (handle_request env cfg r st)) = snd (snd (handle_api env cfg r st))"
    by (auto simp: handle_request_def Let_def)
  then show ?thesis
    by (auto simp: handle_api_def locked_out_def Let_def split_beta serve_api_panics_iff split: option.splits)
next
  case False
  then have "snd (snd (handle_request env cfg r st)) = Finished" by (auto simp: handle_request_def Let_def)
  with False merging_route_api [of r] show ?thesis by auto
qed

text \<open>C37: when the handler panics. Exactly on a connection that is not rate limited and whose request either cannot be
  read without an overflow (the announced length), or passes the origin check, the lockout and the authorization
  and brings, to a route that merges \<open>action\<close> into the body, a body that is JSON but neither an object nor \<open>null\<close>.\<close>

theorem handler_panics_iff:
  "snd (snd (handle_web_connection env cfg st)) = Panicked \<longleftrightarrow>
     (case peer_ip env of None \<Rightarrow> True | Some ip \<Rightarrow> \<not> fst (rate_limited ip (t_rate env) (rate st)))
     \<and> (case read_http_request (overflow_checks env) (t_read env) (reads env) of
          None \<Rightarrow> True
        | Some None \<Rightarrow> False
        | Some (Some r) \<Rightarrow>
            merging_route r \<and> csrf_ok r
            \<and> \<not> locked_out env (case peer_ip env of None \<Rightarrow> rate st | Some ip \<Rightarrow> snd (rate_limited ip (t_rate env) (rate st)))
            \<and> fst (authorized r cfg (t_auth env) (ticket_table st))
            \<and> as_object (body_json (jtext env) r) = None \<and> body_json (jtext env) r \<noteq> JNull)"
  by (auto simp: handle_web_connection_def Let_def split_beta handle_request_panics_iff split: option.splits)

subsection \<open>Thread accounting\<close>

lemma accept_run_accounting:
  "accept_run s es t \<Longrightarrow> web_threads s = handlers s + d \<Longrightarrow> web_threads s \<le> MAX_WEB_THREADS \<Longrightarrow>
     web_threads t = handlers t + d + count_list es Die \<and> web_threads t \<le> MAX_WEB_THREADS"
proof (induction rule: accept_run.induct)
  case (run_snoc s es t e u)
  then show ?case by (cases e) auto
qed simp

text \<open>C36: connection threads never exceed \<open>MAX_WEB_THREADS\<close>, whatever order connections arrive, fail to
  start, finish or die in; the counter is exactly the running handlers plus the ones that panicked.\<close>

theorem accept_threads_bounded:
  assumes "accept_run accept_start es s"
  shows "web_threads s = handlers s + count_list es Die \<and> handlers s \<le> MAX_WEB_THREADS"
  using accept_run_accounting [OF assms, of 0] by (simp add: accept_start_def)

theorem accept_threads_bounded_witness:
  "accept_run accept_start [Accept_ok, Die] \<lparr>web_threads = 1, handlers = 0\<rparr> \<and>
   web_threads \<lparr>web_threads = 1, handlers = 0\<rparr> = (0::nat) + count_list [Accept_ok, Die] Die"
proof -
  have "accept_run accept_start ([] @ [Accept_ok]) \<lparr>web_threads = 1, handlers = 1\<rparr>"
    by (rule run_snoc [OF run_Nil]) (simp add: accept_start_def MAX_WEB_THREADS_def)
  then have "accept_run accept_start (([] @ [Accept_ok]) @ [Die]) \<lparr>web_threads = 1, handlers = 0\<rparr>"
    by (rule run_snoc) simp
  then have run: "accept_run accept_start [Accept_ok, Die] \<lparr>web_threads = 1, handlers = 0\<rparr>" by simp
  from accept_threads_bounded [OF run] run show ?thesis by simp
qed

text \<open>C40: a panicking handler never gives its slot back. Once \<open>MAX_WEB_THREADS\<close> handlers have panicked no
  handler is left, and every later connection is turned away as busy, for ever.\<close>

theorem panics_exhaust_the_server:
  assumes "accept_run accept_start es s" and "count_list es Die = MAX_WEB_THREADS"
    and "accept_run s es' t"
  shows "t = s \<and> handlers s = 0 \<and> set es' \<subseteq> {Accept_busy}"
proof -
  have s: "web_threads s = MAX_WEB_THREADS" "handlers s = 0"
    using accept_run_accounting [OF assms(1), of 0] assms(2) by (auto simp: accept_start_def)
  from assms(3) have "t = s \<and> set es' \<subseteq> {Accept_busy}"
    using s
  proof (induction rule: accept_run.induct)
    case (run_snoc s es t e u)
    then show ?case by (cases e) auto
  qed simp
  with s show ?thesis by simp
qed

lemma panics_pile_up:
  "n \<le> MAX_WEB_THREADS \<Longrightarrow>
     accept_run accept_start (concat (replicate n [Accept_ok, Die])) \<lparr>web_threads = n, handlers = 0\<rparr>"
proof (induction n)
  case 0
  then show ?case using run_Nil [of accept_start] by (simp add: accept_start_def)
next
  case (Suc n)
  then have "accept_run accept_start (concat (replicate n [Accept_ok, Die])) \<lparr>web_threads = n, handlers = 0\<rparr>"
    by simp
  from run_snoc [OF run_snoc [OF this, of Accept_ok "\<lparr>web_threads = n + 1, handlers = 1\<rparr>"],
      of Die "\<lparr>web_threads = n + 1, handlers = 0\<rparr>"] Suc.prems
  show ?case by (simp add: replicate_append_same flip: replicate_append_same)
qed

theorem panics_exhaust_the_server_witness:
  "\<exists>s. accept_run accept_start (concat (replicate 64 [Accept_ok, Die])) s \<and>
     (\<forall>es' t. \<not> accept_run s (es' @ [Accept_ok]) t)"
proof -
  have run: "accept_run accept_start (concat (replicate 64 [Accept_ok, Die])) \<lparr>web_threads = 64, handlers = 0\<rparr>"
    using panics_pile_up [of 64] by (simp add: MAX_WEB_THREADS_def)
  have "count_list (concat (replicate n [Accept_ok, Die])) Die = n" for n by (induction n) auto
  then have "count_list (concat (replicate 64 [Accept_ok, Die])) Die = MAX_WEB_THREADS"
    by (simp add: MAX_WEB_THREADS_def)
  from panics_exhaust_the_server [OF run this] run show ?thesis by fastforce
qed

subsection \<open>Nonces\<close>

lemma hex2_inject: "hex2 a = hex2 b \<longleftrightarrow> a = b"
proof
  assume eq: "hex2 a = hex2 b"
  have lt: "byte c div 16 < 16" "byte c mod 16 < 16" for c by (simp_all add: less_mult_imp_div_less)
  have inj: "x = y" if "x < 16" "y < 16" and eq: "hex_digit x = hex_digit y" for x y
  proof -
    have "Some x = to_digit 16 (hex_digit x)" using that(1) by (simp only: to_digit_hex_digit order_refl)
    also have "\<dots> = to_digit 16 (hex_digit y)" by (rule arg_cong [OF eq])
    also have "\<dots> = Some y" using that(2) by (simp only: to_digit_hex_digit order_refl)
    finally show ?thesis by (rule option.inject [THEN iffD1])
  qed
  have "byte a div 16 = byte b div 16" by (rule inj [OF lt(1) lt(1)]) (use eq in \<open>simp add: hex2_def\<close>)
  moreover have "byte a mod 16 = byte b mod 16" by (rule inj [OF lt(2) lt(2)]) (use eq in \<open>simp add: hex2_def\<close>)
  ultimately have "byte a = byte b" by (metis div_mult_mod_eq)
  then show "a = b" by (simp only: of_char_eq_iff)
qed simp

lemma concat_hex2_inject: "concat (map hex2 a) = concat (map hex2 b) \<longleftrightarrow> a = b"
proof (induction a arbitrary: b)
  case Nil
  then show ?case by (cases b) (auto simp: hex2_def)
next
  case (Cons x a)
  then show ?case
    using hex2_inject [of x] by (cases b) (auto simp: hex2_def)
qed

lemma hex_digit_range: "n < 16 \<Longrightarrow> is_ascii_hexdigit (hex_digit n) \<and> byte (hex_digit n) < 128"
  using byte_hex_digit [of n] by (auto simp: string_ops)

text \<open>A nonce is 32 hexadecimal digits, so it can stand in a header, a URL or the page's attributes
  without escaping, and it loses nothing of the random bytes: two nonces are equal only if the bytes
  drawn for them are.\<close>

theorem nonce_faithful:
  assumes "urandom e1 = Some a" and "urandom e2 = Some b" and "length a = 16"
  shows "length (nonce e1) = 32 \<and> list_all is_ascii_hexdigit (nonce e1) \<and> (nonce e1 = nonce e2 \<longleftrightarrow> a = b)"
proof -
  have "length (concat (map hex2 xs)) = 2 * length xs" for xs by (induction xs) (auto simp: hex2_def)
  moreover have "list_all is_ascii_hexdigit (concat (map hex2 xs))" for xs
    by (auto simp: list_all_iff hex2_def hex_digit_range less_mult_imp_div_less)
  ultimately show ?thesis using assms by (simp add: nonce_def concat_hex2_inject)
qed

theorem nonce_faithful_witness:
  "nonce \<lparr>urandom = Some (replicate 16 (CHR ''a'')), unix_nanos = 0, process_id = 0, buf_addr = 0\<rparr> \<noteq>
   nonce \<lparr>urandom = Some (replicate 16 (CHR ''b'')), unix_nanos = 0, process_id = 0, buf_addr = 0\<rparr>"
  using nonce_faithful [of "\<lparr>urandom = Some (replicate 16 (CHR ''a'')), unix_nanos = 0, process_id = 0, buf_addr = 0\<rparr>"
      "replicate 16 (CHR ''a'')"
      "\<lparr>urandom = Some (replicate 16 (CHR ''b'')), unix_nanos = 0, process_id = 0, buf_addr = 0\<rparr>"
      "replicate 16 (CHR ''b'')"] by (simp add: numeral_eq_Suc)

subsection \<open>The event stream\<close>

fun is_forward :: "web_effect \<Rightarrow> bool" where
  "is_forward (Forwarded _) = True"
| "is_forward _ = False"

lemma frames_arith:
  "(1000::nat) * n \<le> deadline - (now + x + 1000) + 999 \<Longrightarrow> now < deadline \<Longrightarrow> 1000 + 1000 * n \<le> deadline + 999 - now"
  by (cases n; cases "now + x + 1000 \<le> deadline") auto

lemma stream_loop_frames:
  "SSE_INTERVAL * length (filter is_forward (stream_loop env cfg deadline now k)) \<le>
     deadline - now + (SSE_INTERVAL - 1)"
proof (induction env cfg deadline now k rule: stream_loop.induct)
  case (1 env cfg deadline now k)
  then show ?case
    by (subst stream_loop.simps) (auto simp: Let_def SSE_INTERVAL_def dest: frames_arith)
qed

lemma stream_loop_writes:
  "Wrote b \<in> set (stream_loop env cfg deadline now k) \<Longrightarrow> \<exists>v. b = sse_frame (json_print (jtext env) v)"
proof (induction env cfg deadline now k rule: stream_loop.induct)
  case (1 env cfg deadline now k)
  from "1.prems" show ?case
    by (subst (asm) stream_loop.simps) (use "1.IH" in \<open>auto simp: Let_def split: if_splits\<close>)
qed

lemma str_lines_sse_frame:
  assumes "CHR 0x0A \<notin> set s" "CHR 0x0D \<notin> set s"
  shows "str_lines (sse_frame s) = [''event: snapshot'', ''data: '' @ s, []]"
proof -
  have "strip_cr (''data: '' @ s) = ''data: '' @ s"
    using assms(2) by (cases s rule: rev_cases) (auto simp: strip_cr_def)
  moreover have "strip_cr ''event: snapshot'' = ''event: snapshot''" "strip_cr [] = []"
    by (simp_all add: strip_cr_def)
  ultimately show ?thesis
    using str_lines_acc_plain [of "''event: snapshot''" "[]" "''data: '' @ s @ [CHR 0x0A, CHR 0x0A]"]
      str_lines_acc_plain [of "''data: '' @ s" "[]" "[CHR 0x0A]"] assms(1)
    by (simp add: str_lines_def sse_frame_def)
qed

text \<open>One event stream asks the runtime for at most \<open>SSE_TOTAL / SSE_INTERVAL\<close> snapshots, however slow
  the runtime or the client is, and each thing it writes after the head is one whole event, provided
  \<open>serde_json\<close> prints values without raw line breaks.\<close>

theorem stream_events_bounded:
  assumes "\<And>v. CHR 0x0A \<notin> set (json_print (jtext env) v) \<and> CHR 0x0D \<notin> set (json_print (jtext env) v)"
  shows "length (filter is_forward (stream_events env cfg)) \<le> SSE_TOTAL div SSE_INTERVAL
    \<and> (\<forall>b. Wrote b \<in> set (tl (stream_events env cfg)) \<longrightarrow>
          (\<exists>d. str_lines b = [''event: snapshot'', ''data: '' @ d, []]))"
proof
  show "length (filter is_forward (stream_events env cfg)) \<le> SSE_TOTAL div SSE_INTERVAL"
    using stream_loop_frames [of env cfg "t_stream env + SSE_TOTAL" "t_stream env" 0]
    by (simp add: stream_events_def SSE_TOTAL_def SSE_INTERVAL_def)
  show "\<forall>b. Wrote b \<in> set (tl (stream_events env cfg)) \<longrightarrow>
      (\<exists>d. str_lines b = [''event: snapshot'', ''data: '' @ d, []])"
    using assms str_lines_sse_frame
    by (auto simp: stream_events_def dest!: stream_loop_writes split: if_splits)
qed

theorem stream_events_bounded_witness:
  "length (filter is_forward (stream_events sample_env sample_config)) \<le> SSE_TOTAL div SSE_INTERVAL"
  using stream_events_bounded [of sample_env sample_config] by (simp add: sample_env_def)

subsection \<open>Exposure\<close>

lemma rfind_char_last: "c \<notin> set b \<Longrightarrow> rfind_char c (a @ c # b) = Some (length a)"
proof -
  assume "c \<notin> set b"
  then have "takeWhile (\<lambda>x. x \<noteq> c) (rev b) = rev b" by (subst takeWhile_eq_all_conv) auto
  then show ?thesis using \<open>c \<notin> set b\<close> by (simp add: rfind_char_def takeWhile_tail del: takeWhile_eq_all_conv)
qed

lemma decimal_first: "\<exists>d < 10. hd (nat_to_radix 10 n) = hex_digit d"
proof -
  have "set (nat_to_radix 10 n) \<subseteq> hex_digit ` {..<10}" by (rule nat_to_radix_digits) simp_all
  then have "hd (nat_to_radix 10 n) \<in> hex_digit ` {..<10}" by (rule subsetD) simp
  then show ?thesis by blast
qed

lemma decimal_no_dot: "CHR ''.'' \<notin> set (nat_to_radix 10 n)"
proof -
  have "set (nat_to_radix 10 n) \<subseteq> hex_digit ` {..<10}" by (rule nat_to_radix_digits) simp_all
  moreover have "hex_digit d \<noteq> CHR ''.''" if "d < 10" for d
    using byte_hex_digit [of d] that by auto
  ultimately show ?thesis by fastforce
qed

lemma dotted_loopback_prefix:
  "prefix ''127.'' (nat_to_radix 10 a @ CHR ''.'' # rest) \<longleftrightarrow> a = 127"
proof -
  have "prefix ''127.'' (nat_to_radix 10 a @ CHR ''.'' # rest) \<longleftrightarrow> nat_to_radix 10 a = ''127''"
  proof
    assume "prefix ''127.'' (nat_to_radix 10 a @ CHR ''.'' # rest)"
    then obtain z where z: "nat_to_radix 10 a @ CHR ''.'' # rest = ''127'' @ CHR ''.'' # z"
      by (auto simp: prefix_def)
    have "takeWhile (\<lambda>c. c \<noteq> CHR ''.'') (nat_to_radix 10 a @ CHR ''.'' # rest) = nat_to_radix 10 a"
      using decimal_no_dot [of a] by (subst takeWhile_append2) auto
    then show "nat_to_radix 10 a = ''127''" unfolding z by simp
  qed simp
  also have "''127'' = nat_to_radix 10 127" by code_simp
  finally show ?thesis by (simp add: nat_to_radix_inject)
qed

lemma loopback_host_port:
  assumes "CHR '':'' \<notin> set port" "host \<noteq> []" "hd host \<noteq> CHR ''[''" "last host \<noteq> CHR '']''"
  shows "is_loopback_addr (host @ CHR '':'' # port) \<longleftrightarrow>
    host = ''::1'' \<or> host = ''localhost'' \<or> prefix ''127.'' host"
proof -
  have "dropWhile (\<lambda>c. c = CHR ''['') host = host" using assms(2,3) by (cases host) auto
  moreover have "dropWhile (\<lambda>c. c = CHR '']'') (rev host) = rev host"
    using assms(2,4) by (cases host rule: rev_cases) auto
  ultimately show ?thesis by (auto simp: is_loopback_addr_def rfind_char_last [OF assms(1)])
qed

text \<open>The exposure check on IPv4 addresses. With no token and no explicit opt-in, binding \<open>a.b.c.d:port\<close> is
  accepted exactly when the first number is 127, so a wildcard or public address is refused.\<close>

theorem exposure_ipv4:
  assumes "CHR '':'' \<notin> set port" and "last (nat_to_radix 10 a @ CHR ''.'' # rest) \<noteq> CHR '']''"
    and "insecure \<noteq> Some ''1''"
  shows "check_exposure insecure (nat_to_radix 10 a @ CHR ''.'' # rest @ CHR '':'' # port) [] = Inr () \<longleftrightarrow> a = 127"
proof -
  let ?host = "nat_to_radix 10 a @ CHR ''.'' # rest"
  obtain d where "d < 10" "hd ?host = hex_digit d" using decimal_first [of a] by auto
  then have b: "48 \<le> byte (hd ?host)" "byte (hd ?host) < 58" using byte_hex_digit [of d] by auto
  then have "hd ?host \<notin> {CHR ''['', CHR '':'', CHR ''l''}" by auto
  then have "hd ?host \<noteq> CHR ''[''" "?host \<noteq> ''::1''" "?host \<noteq> ''localhost''"
    by (auto simp del: hd_append2)
  with loopback_host_port [OF assms(1) _ _ assms(2)] assms(3) show ?thesis
    by (simp add: check_exposure_def dotted_loopback_prefix)
qed

theorem exposure_ipv4_witness:
  "check_exposure None ''0.0.0.0:8088'' [] \<noteq> Inr () \<and> check_exposure None ''127.0.0.1:8088'' [] = Inr ()"
proof -
  have dec: "nat_to_radix 10 0 = ''0''" "nat_to_radix 10 127 = ''127''" by code_simp+
  show ?thesis
    using exposure_ipv4 [of "''8088''" 0 "''0.0.0''" None] exposure_ipv4 [of "''8088''" 127 "''0.0.1''" None]
    by (simp add: dec)
qed

text \<open>The prefix test also takes a host name for a loopback address: a name whose first label is \<open>127\<close> is
  bound without a token wherever it resolves to.\<close>

theorem hostname_taken_for_loopback:
  "check_exposure None ''127.example.com:80'' [] = Inr ()"
  by code_simp

end
