(* ===== verification/Web_Threads.thy ===== *)
theory Web_Threads
  imports Web_Server
begin

text \<open>
  The connection threads of \<open>src/web.rs\<close> side by side. Each thread goes through \<open>handle_web_connection\<close> in the
  stretches between its locks: the rate check, the request read, the lockout check, the authorization, the
  recorded failure. Other threads run in between, and the clock moves. The accept loop starts a thread
  only while \<open>WEB_THREADS\<close> is below its limit.
\<close>

section \<open>Definitions\<close>

text \<open>How far a connection has come: accepted, past the rate check, its request read, past the lockout check, refused
  (the failure not recorded yet), let in.\<close>

datatype conn =
    Accepted
  | Reading
  | Parsed http_request
  | Unlocked http_request
  | Refused
  | Granted http_request

text \<open>The process-wide tables, the threads with their peers' addresses, the counter, the clock; \<open>guard_log\<close> records
  the operations on the two windows, newest first.\<close>

record 'ip web_sys =
  windows :: "'ip rate_windows"
  tickets_now :: tickets
  conns :: "('ip option \<times> conn) list"
  thread_count :: nat
  clock :: nat
  guard_log :: "'ip guard_op list"

definition web_sys_start :: "nat \<Rightarrow> 'ip web_sys" where
  "web_sys_start t =
     \<lparr>windows = \<lparr>general = Map.empty, auth_fail = Map.empty\<rparr>, tickets_now = Map.empty, conns = [],
      thread_count = 0, clock = t, guard_log = []\<rparr>"

definition conn_to :: "nat \<Rightarrow> 'ip option \<Rightarrow> conn \<Rightarrow> 'ip web_sys \<Rightarrow> 'ip web_sys" where
  "conn_to i ip c s = s\<lparr>conns := (conns s)[i := (ip, c)]\<rparr>"

text \<open>The thread ends: by returning, which decrements the counter, or by a panic, which does not.\<close>

definition drop_nth :: "nat \<Rightarrow> 'a list \<Rightarrow> 'a list" where
  "drop_nth i xs = take i xs @ drop (Suc i) xs"

definition conn_done :: "nat \<Rightarrow> 'ip web_sys \<Rightarrow> 'ip web_sys" where
  "conn_done i s = s\<lparr>conns := drop_nth i (conns s), thread_count := thread_count s - 1\<rparr>"

definition conn_dies :: "nat \<Rightarrow> 'ip web_sys \<Rightarrow> 'ip web_sys" where
  "conn_dies i s = s\<lparr>conns := drop_nth i (conns s)\<rparr>"

text \<open>The requests that reach the guarded part of \<open>handle_web_connection\<close>.\<close>

definition api_request :: "http_request \<Rightarrow> bool" where
  "api_request r \<longleftrightarrow> req_method r \<noteq> ''OPTIONS'' \<and> prefix ''/api/v1/'' (route r) \<and> csrf_ok r"

definition rate_step :: "nat \<Rightarrow> 'ip option \<Rightarrow> 'ip web_sys \<Rightarrow> 'ip web_sys" where
  "rate_step i ip s =
     (case ip of
        None \<Rightarrow> conn_to i ip Reading s
      | Some a \<Rightarrow>
          let (limited, w) = rate_limited a (clock s) (windows s);
              s1 = s\<lparr>windows := w, guard_log := Request a (clock s) # guard_log s\<rparr>
          in if limited then conn_done i s1 else conn_to i ip Reading s1)"

definition lockout_step :: "nat \<Rightarrow> 'ip option \<Rightarrow> http_request \<Rightarrow> 'ip web_sys \<Rightarrow> 'ip web_sys" where
  "lockout_step i ip r s =
     (case ip of
        None \<Rightarrow> conn_to i ip (Unlocked r) s
      | Some a \<Rightarrow>
          let (locked, w) = auth_failures_exceeded a (clock s) (windows s);
              s1 = s\<lparr>windows := w, guard_log := Lockout_check a (clock s) # guard_log s\<rparr>
          in if locked then conn_done i s1 else conn_to i ip (Unlocked r) s1)"

text \<open>The clock of the ticket table is read before its lock is taken, so it may be behind.\<close>

definition auth_step :: "web_config \<Rightarrow> nat \<Rightarrow> nat \<Rightarrow> 'ip option \<Rightarrow> http_request \<Rightarrow> 'ip web_sys \<Rightarrow> 'ip web_sys" where
  "auth_step cfg t i ip r s =
     (let (ok, tk) = authorized r cfg t (tickets_now s);
          s1 = s\<lparr>tickets_now := tk\<rparr>
      in conn_to i ip (if ok then Granted r else Refused) s1)"

definition refuse_step :: "nat \<Rightarrow> 'ip option \<Rightarrow> 'ip web_sys \<Rightarrow> 'ip web_sys" where
  "refuse_step i ip s =
     (case ip of
        None \<Rightarrow> conn_done i s
      | Some a \<Rightarrow>
          conn_done i (s\<lparr>windows := record_auth_failure a (clock s) (windows s),
            guard_log := Auth_failure a (clock s) # guard_log s\<rparr>))"

text \<open>What is left of the handler touches only the ticket table, when a ticket is minted.\<close>

definition serve_step :: "string \<Rightarrow> nat \<Rightarrow> nat \<Rightarrow> http_request \<Rightarrow> 'ip web_sys \<Rightarrow> 'ip web_sys" where
  "serve_step n t i r s =
     conn_done i (if route r = ''/api/v1/events/ticket'' \<and> req_method r = ''POST''
       then s\<lparr>tickets_now := snd (mint_sse_ticket n t (tickets_now s))\<rparr> else s)"

inductive web_sys_step :: "web_config \<Rightarrow> 'ip web_sys \<Rightarrow> 'ip web_sys \<Rightarrow> bool" for cfg where
  time: "web_sys_step cfg s (s\<lparr>clock := t\<rparr>)"
    if "clock s \<le> t"
| accept: "web_sys_step cfg s (s\<lparr>conns := conns s @ [(ip, Accepted)], thread_count := thread_count s + 1\<rparr>)"
    if "thread_count s < MAX_WEB_THREADS"
| rate_check: "web_sys_step cfg s (rate_step i ip s)"
    if "i < length (conns s)" and "conns s ! i = (ip, Accepted)"
| no_request: "web_sys_step cfg s (conn_done i s)"
    if "i < length (conns s)" and "conns s ! i = (ip, Reading)"
| read_request: "web_sys_step cfg s (conn_to i ip (Parsed r) s)"
    if "i < length (conns s)" and "conns s ! i = (ip, Reading)"
| other_answer: "web_sys_step cfg s (conn_done i s)"
    if "i < length (conns s)" and "conns s ! i = (ip, Parsed r)" and "\<not> api_request r"
| lockout: "web_sys_step cfg s (lockout_step i ip r s)"
    if "i < length (conns s)" and "conns s ! i = (ip, Parsed r)" and "api_request r"
| auth: "web_sys_step cfg s (auth_step cfg t i ip r s)"
    if "i < length (conns s)" and "conns s ! i = (ip, Unlocked r)" and "t \<le> clock s"
| refuse: "web_sys_step cfg s (refuse_step i ip s)"
    if "i < length (conns s)" and "conns s ! i = (ip, Refused)"
| serve: "web_sys_step cfg s (serve_step n t i r s)"
    if "i < length (conns s)" and "conns s ! i = (ip, Granted r)" and "t \<le> clock s"
| die: "web_sys_step cfg s (conn_dies i s)"
    if "i < length (conns s)"

inductive web_sys_run :: "web_config \<Rightarrow> 'ip web_sys \<Rightarrow> bool" for cfg where
  start: "web_sys_run cfg (web_sys_start t)"
| step: "web_sys_run cfg s'"
    if "web_sys_run cfg s" and "web_sys_step cfg s s'"

section \<open>Lemmas\<close>

inductive_cases web_sys_stepE: "web_sys_step cfg s s'"

lemma length_filter_update:
  assumes "i < length xs"
  shows "length (filter P (xs[i := y])) + of_bool (P (xs ! i)) = length (filter P xs) + of_bool (P y)"
proof -
  have "length (filter P (a @ z # b)) = length (filter P (a @ b)) + of_bool (P z)" for a z b by simp
  from this [of "take i xs" y "drop (Suc i) xs"] this [of "take i xs" "xs ! i" "drop (Suc i) xs"] assms show ?thesis
    by (simp add: upd_conv_take_nth_drop id_take_nth_drop [symmetric])
qed

lemma length_filter_drop_nth:
  assumes "i < length xs"
  shows "length (filter P (drop_nth i xs)) + of_bool (P (xs ! i)) = length (filter P xs)"
proof -
  have "length (filter P (a @ z # b)) = length (filter P (a @ b)) + of_bool (P z)" for a z b by simp
  from this [of "take i xs" "xs ! i" "drop (Suc i) xs"] assms show ?thesis
    by (simp add: drop_nth_def id_take_nth_drop [symmetric])
qed

lemma length_drop_nth: "i < length xs \<Longrightarrow> length (drop_nth i xs) = length xs - 1"
  by (simp add: drop_nth_def)

text \<open>Between its lockout check and the end of its attempt.\<close>

fun guessing :: "'ip \<Rightarrow> 'ip option \<times> conn \<Rightarrow> bool" where
  "guessing ip (a, Unlocked r) = (a = Some ip)"
| "guessing ip (a, Refused) = (a = Some ip)"
| "guessing ip _ = False"

definition guesses :: "'ip \<Rightarrow> 'ip web_sys \<Rightarrow> nat" where
  "guesses ip s = length (filter (guessing ip) (conns s))"

definition recent_failures :: "'ip \<Rightarrow> 'ip web_sys \<Rightarrow> nat" where
  "recent_failures ip s = recent RATE_AUTH_FAIL_WINDOW (clock s) ip (failures (guard_log s))"

definition web_sys_ok :: "'ip web_sys \<Rightarrow> bool" where
  "web_sys_ok s \<longleftrightarrow> windows s = fst (guard_run (guard_log s))
     \<and> list_all (\<lambda>op. guard_time op \<le> clock s) (guard_log s)
     \<and> length (conns s) \<le> thread_count s \<and> thread_count s \<le> MAX_WEB_THREADS"

definition guess_bound :: "'ip web_sys \<Rightarrow> bool" where
  "guess_bound s \<longleftrightarrow> (\<forall>ip. recent_failures ip s + guesses ip s \<le> RATE_AUTH_FAIL_LIMIT - 1 + MAX_WEB_THREADS)"

lemma guesses_le: "web_sys_ok s \<Longrightarrow> guesses ip s \<le> MAX_WEB_THREADS"
  unfolding web_sys_ok_def guesses_def by (meson le_trans length_filter_le)

lemma web_sys_ok_updates [simp]:
  "web_sys_ok (conn_to i ip c s) = web_sys_ok s"
  "web_sys_ok (s\<lparr>tickets_now := tk\<rparr>) = web_sys_ok s"
  by (simp_all add: web_sys_ok_def conn_to_def)

lemma web_sys_ok_end:
  assumes "i < length (conns s)" "web_sys_ok s"
  shows "web_sys_ok (conn_done i s)" "web_sys_ok (conn_dies i s)"
  using assms by (auto simp: web_sys_ok_def conn_done_def conn_dies_def length_drop_nth)

lemma recent_failures_updates [simp]:
  "recent_failures ip (conn_to i a c s) = recent_failures ip s"
  "recent_failures ip (conn_done i s) = recent_failures ip s" "recent_failures ip (conn_dies i s) = recent_failures ip s"
  "recent_failures ip (s\<lparr>tickets_now := tk\<rparr>) = recent_failures ip s"
  by (simp_all add: recent_failures_def conn_to_def conn_done_def conn_dies_def)

lemma guesses_updates:
  assumes "i < length (conns s)"
  shows "guesses ip (conn_to i a c s) + of_bool (guessing ip (conns s ! i)) = guesses ip s + of_bool (guessing ip (a, c))"
    "guesses ip (conn_done i s) + of_bool (guessing ip (conns s ! i)) = guesses ip s"
    "guesses ip (conn_dies i s) + of_bool (guessing ip (conns s ! i)) = guesses ip s"
  using length_filter_update [OF assms] length_filter_drop_nth [OF assms]
  by (simp_all add: guesses_def conn_to_def conn_done_def conn_dies_def)

lemma recent_later: "now \<le> now' \<Longrightarrow> recent w now' ip log \<le> recent w now ip log"
  unfolding recent_def by (rule length_filter_mono) auto

lemma rate_step_ok:
  assumes "web_sys_ok s" "i < length (conns s)"
  shows "web_sys_ok (rate_step i ip s)"
proof (cases ip)
  case (Some a)
  obtain limited w where r: "rate_limited a (clock s) (windows s) = (limited, w)" by force
  let ?s1 = "s\<lparr>windows := w, guard_log := Request a (clock s) # guard_log s\<rparr>"
  have "web_sys_ok ?s1"
    using assms(1) r by (cases "guard_run (guard_log s)") (auto simp: web_sys_ok_def)
  then show ?thesis
    using assms(2) r Some web_sys_ok_end [of i ?s1] by (simp add: rate_step_def Let_def)
qed (use assms in \<open>simp add: rate_step_def\<close>)

lemma lockout_step_ok:
  assumes "web_sys_ok s" "i < length (conns s)"
  shows "web_sys_ok (lockout_step i ip r s)"
proof (cases ip)
  case (Some a)
  obtain locked w where l: "auth_failures_exceeded a (clock s) (windows s) = (locked, w)" by force
  let ?s1 = "s\<lparr>windows := w, guard_log := Lockout_check a (clock s) # guard_log s\<rparr>"
  have "web_sys_ok ?s1"
    using assms(1) l by (cases "guard_run (guard_log s)") (auto simp: web_sys_ok_def)
  then show ?thesis
    using assms(2) l Some web_sys_ok_end [of i ?s1] by (simp add: lockout_step_def Let_def)
qed (use assms in \<open>simp add: lockout_step_def\<close>)

lemma refuse_step_ok:
  assumes "web_sys_ok s" "i < length (conns s)"
  shows "web_sys_ok (refuse_step i ip s)"
proof (cases ip)
  case (Some a)
  let ?s1 = "s\<lparr>windows := record_auth_failure a (clock s) (windows s), guard_log := Auth_failure a (clock s) # guard_log s\<rparr>"
  have "web_sys_ok ?s1"
    using assms(1) by (cases "guard_run (guard_log s)") (auto simp: web_sys_ok_def)
  then show ?thesis using assms(2) Some web_sys_ok_end [of i ?s1] by (simp add: refuse_step_def)
qed (use assms web_sys_ok_end in \<open>simp add: refuse_step_def\<close>)

lemma web_sys_step_ok:
  assumes "web_sys_step cfg s s'" "web_sys_ok s"
  shows "web_sys_ok s'"
  using assms(1)
proof cases
  case (time t)
  with assms(2) show ?thesis by (fastforce simp: web_sys_ok_def list_all_iff)
next
  case (accept ip)
  with assms(2) show ?thesis by (simp add: web_sys_ok_def)
next
  case (auth i ip r t)
  with assms(2) show ?thesis by (simp add: auth_step_def split_beta Let_def)
next
  case (serve i ip r t n)
  with assms(2) show ?thesis by (auto simp: serve_step_def intro!: web_sys_ok_end)
qed (use assms(2) web_sys_ok_end rate_step_ok lockout_step_ok refuse_step_ok in simp_all)

subsection \<open>Guesses\<close>

text \<open>Steps that add no failure and start no attempt keep the bound.\<close>

lemma guess_bound_mono:
  assumes "guess_bound s" "\<And>ip. recent_failures ip s' \<le> recent_failures ip s" "\<And>ip. guesses ip s' \<le> guesses ip s"
  shows "guess_bound s'"
  using assms unfolding guess_bound_def by (meson add_le_mono le_trans)

lemma guess_bound_end:
  assumes "guess_bound s" "i < length (conns s)"
  shows "guess_bound (conn_done i s)" "guess_bound (conn_dies i s)"
proof -
  have "guesses ip (conn_done i s) \<le> guesses ip s" "guesses ip (conn_dies i s) \<le> guesses ip s" for ip
    using guesses_updates(2,3) [OF assms(2), of ip] by linarith+
  then show "guess_bound (conn_done i s)" "guess_bound (conn_dies i s)"
    by (auto intro: guess_bound_mono [OF assms(1)])
qed

lemma guess_bound_to:
  assumes "guess_bound s" "i < length (conns s)" "\<And>ip. guessing ip (a, c) \<Longrightarrow> guessing ip (conns s ! i)"
  shows "guess_bound (conn_to i a c s)"
proof -
  have "guesses ip (conn_to i a c s) \<le> guesses ip s" for ip
  proof -
    have "(of_bool (guessing ip (a, c)) :: nat) \<le> of_bool (guessing ip (conns s ! i))" using assms(3) by auto
    with guesses_updates(1) [OF assms(2), of ip a c] show ?thesis by linarith
  qed
  then show ?thesis by (intro guess_bound_mono [OF assms(1)]) simp_all
qed

lemma guess_bound_same:
  assumes "conns s' = conns s" "clock s' = clock s" "failures (guard_log s') = failures (guard_log s)"
  shows "guess_bound s' = guess_bound s"
  using assms by (simp add: guess_bound_def recent_failures_def guesses_def)

text \<open>A passed lockout check: fewer than the limit recorded, and no more attempts than threads.\<close>

lemma guess_bound_lockout:
  assumes "web_sys_ok s" "guess_bound s" "i < length (conns s)" "conns s ! i = (ip, Parsed r)"
  shows "guess_bound (lockout_step i ip r s)"
proof (cases ip)
  case None
  have "guess_bound (conn_to i None (Unlocked r) s)"
    by (rule guess_bound_to [OF assms(2,3)]) simp
  with None show ?thesis by (simp add: lockout_step_def)
next
  case (Some a)
  obtain locked w where l: "auth_failures_exceeded a (clock s) (windows s) = (locked, w)" by force
  let ?s1 = "s\<lparr>windows := w, guard_log := Lockout_check a (clock s) # guard_log s\<rparr>"
  have b1: "guess_bound ?s1" using assms(2) by (simp add: guess_bound_same [of ?s1 s])
  show ?thesis
  proof (cases locked)
    case True
    with guess_bound_end(1) [OF b1] assms(3) l Some show ?thesis by (simp add: lockout_step_def Let_def)
  next
    case False
    let ?s2 = "conn_to i (Some a) (Unlocked r) ?s1"
    have s2: "lockout_step i ip r s = ?s2" using l Some False by (simp add: lockout_step_def Let_def)
    have "recent_failures a ?s2 \<le> RATE_AUTH_FAIL_LIMIT - 1"
      using lockout_after [of "clock s" "guard_log s" a] l False assms(1)
      by (simp add: web_sys_ok_def recent_failures_def conn_to_def)
    moreover have "guesses a ?s2 \<le> MAX_WEB_THREADS"
      using lockout_step_ok [OF assms(1,3)] guesses_le by (metis s2)
    moreover have "recent_failures b ?s2 = recent_failures b s" "guesses b ?s2 = guesses b s" if "b \<noteq> a" for b
      using guesses_updates(1) [of i ?s1 b "Some a" "Unlocked r"] that assms(3,4)
      by (simp_all add: recent_failures_def guesses_def conn_to_def)
    ultimately show ?thesis
      using assms(2) unfolding s2 guess_bound_def by (metis add_le_mono)
  qed
qed

text \<open>A recorded failure: one attempt less, one failure more.\<close>

lemma guess_bound_refuse:
  assumes "guess_bound s" "i < length (conns s)" "conns s ! i = (ip, Refused)"
  shows "guess_bound (refuse_step i ip s)"
proof (cases ip)
  case None
  with guess_bound_end(1) [OF assms(1,2)] show ?thesis by (simp add: refuse_step_def)
next
  case (Some a)
  let ?s1 = "s\<lparr>windows := record_auth_failure a (clock s) (windows s), guard_log := Auth_failure a (clock s) # guard_log s\<rparr>"
  have "recent_failures b ?s1 = recent_failures b s + of_bool (a = b)" for b
    by (simp add: recent_failures_def recent_def RATE_AUTH_FAIL_WINDOW_def)
  moreover have "guesses b (conn_done i ?s1) + of_bool (a = b) = guesses b s" for b
    using guesses_updates(2) [of i ?s1 b] assms(2,3) Some by (simp add: guesses_def)
  ultimately have "recent_failures b (conn_done i ?s1) + guesses b (conn_done i ?s1) = recent_failures b s + guesses b s" for b
    by (metis add.assoc add.commute recent_failures_updates(2))
  with assms(1) Some show ?thesis by (simp add: guess_bound_def refuse_step_def)
qed

lemma web_sys_step_bound:
  assumes "web_sys_step cfg s s'" "web_sys_ok s" "guess_bound s"
  shows "guess_bound s'"
  using assms(1)
proof cases
  case (time t)
  then have "recent_failures ip s' \<le> recent_failures ip s" "guesses ip s' = guesses ip s" for ip
    by (simp_all add: recent_failures_def guesses_def recent_later)
  then show ?thesis by (auto intro: guess_bound_mono [OF assms(3)])
next
  case (accept ip)
  then show ?thesis using assms(3) by (simp add: guess_bound_def recent_failures_def guesses_def)
next
  case (rate_check i ip)
  show ?thesis
  proof (cases ip)
    case None
    with rate_check guess_bound_to [OF assms(3), of i None Reading] show ?thesis by (simp add: rate_step_def)
  next
    case (Some a)
    obtain limited w where r: "rate_limited a (clock s) (windows s) = (limited, w)" by force
    let ?s1 = "s\<lparr>windows := w, guard_log := Request a (clock s) # guard_log s\<rparr>"
    have "guess_bound ?s1" using assms(3) by (simp add: guess_bound_same [of ?s1 s])
    with guess_bound_end(1) [of ?s1 i] guess_bound_to [of ?s1 i ip Reading] rate_check r Some show ?thesis
      by (simp add: rate_step_def Let_def)
  qed
next
  case (auth i ip r t)
  obtain ok tk where a: "authorized r cfg t (tickets_now s) = (ok, tk)" by force
  let ?s1 = "s\<lparr>tickets_now := tk\<rparr>"
  have "guess_bound ?s1" using assms(3) by (simp add: guess_bound_same [of ?s1 s])
  with guess_bound_to [of ?s1 i ip "if ok then Granted r else Refused"] auth a show ?thesis
    by (simp add: auth_step_def split: if_splits)
next
  case (serve i ip r t n)
  have "guess_bound (s\<lparr>tickets_now := tk\<rparr>)" for tk
    using assms(3) guess_bound_same [of "s\<lparr>tickets_now := tk\<rparr>" s] by simp
  with serve assms(3) show ?thesis by (auto simp: serve_step_def intro!: guess_bound_end(1))
next
  case (read_request i ip r)
  with guess_bound_to [OF assms(3), of i ip "Parsed r"] show ?thesis by simp
qed (use assms(2,3) guess_bound_end guess_bound_lockout guess_bound_refuse in simp_all)

lemma web_sys_run_ok: "web_sys_run cfg s \<Longrightarrow> web_sys_ok s \<and> guess_bound s"
proof (induction rule: web_sys_run.induct)
  case (start t)
  show ?case
    by (simp add: web_sys_start_def web_sys_ok_def guess_bound_def recent_failures_def guesses_def recent_def)
next
  case (step s s')
  then show ?case using web_sys_step_ok web_sys_step_bound by blast
qed

subsection \<open>One thread through its handler\<close>

text \<open>Thread \<open>i\<close> is at \<open>c\<close>, beside the others.\<close>

definition here :: "nat \<Rightarrow> 'ip option \<Rightarrow> conn \<Rightarrow> ('ip option \<times> conn) list \<Rightarrow> 'ip web_sys \<Rightarrow> bool" where
  "here i ip c others s \<longleftrightarrow> i < length (conns s) \<and> conns s ! i = (ip, c) \<and> drop_nth i (conns s) = others"

lemma drop_nth_update [simp]: "drop_nth i (xs[i := y]) = drop_nth i xs"
  by (simp add: drop_nth_def)

lemma here_to [simp]: "here i ip c others s \<Longrightarrow> here i ip c' others (conn_to i ip c' s)"
  by (simp add: here_def conn_to_def)

lemma here_windows [simp]:
  "here i ip c others (s\<lparr>windows := w\<rparr>) = here i ip c others s" "here i ip c others (s\<lparr>guard_log := l\<rparr>) = here i ip c others s"
  "here i ip c others (s\<lparr>tickets_now := tk\<rparr>) = here i ip c others s" "here i ip c others (s\<lparr>clock := t\<rparr>) = here i ip c others s"
  by (simp_all add: here_def)

lemma conn_simps [simp]:
  "windows (conn_to i ip c s) = windows s" "tickets_now (conn_to i ip c s) = tickets_now s" "clock (conn_to i ip c s) = clock s"
  "windows (conn_done i s) = windows s" "tickets_now (conn_done i s) = tickets_now s" "clock (conn_done i s) = clock s"
  "windows (conn_dies i s) = windows s" "tickets_now (conn_dies i s) = tickets_now s"
  "thread_count (conn_to i ip c s) = thread_count s" "thread_count (conn_done i s) = thread_count s - 1"
  "thread_count (conn_dies i s) = thread_count s"
  "conns (conn_done i s) = drop_nth i (conns s)" "conns (conn_dies i s) = drop_nth i (conns s)"
  by (simp_all add: conn_to_def conn_done_def conn_dies_def)

lemma hereD: "here i ip c others s \<Longrightarrow> i < length (conns s) \<and> conns s ! i = (ip, c) \<and> drop_nth i (conns s) = others"
  by (simp add: here_def)

lemma run_time: "web_sys_run cfg s \<Longrightarrow> clock s \<le> t \<Longrightarrow> web_sys_run cfg (s\<lparr>clock := t\<rparr>)"
  by (rule web_sys_run.step [OF _ web_sys_step.time])

lemma run_rate:
  assumes "web_sys_run cfg s" "here i ip Accepted others s" "clock s \<le> t"
    and "(case ip of None \<Rightarrow> (False, windows s) | Some a \<Rightarrow> rate_limited a t (windows s)) = (limited, w)"
  shows "\<exists>s'. web_sys_run cfg s' \<and> clock s' = t \<and> tickets_now s' = tickets_now s \<and> windows s' = w
    \<and> (if limited then conns s' = others \<and> thread_count s' = thread_count s - 1
         else here i ip Reading others s' \<and> thread_count s' = thread_count s)"
proof -
  let ?s = "s\<lparr>clock := t\<rparr>"
  have "web_sys_run cfg (rate_step i ip ?s)"
    using hereD [OF assms(2)] by (intro web_sys_run.step [OF run_time [OF assms(1,3)] web_sys_step.rate_check]) simp_all
  then show ?thesis
    using assms(2,4) by (intro exI [of _ "rate_step i ip ?s"]) (auto simp: rate_step_def here_def Let_def conn_to_def split: option.splits)
qed

lemma run_read:
  assumes "web_sys_run cfg s" "here i ip Reading others s"
  shows "web_sys_run cfg (conn_to i ip (Parsed r) s)" "web_sys_run cfg (conn_done i s)" "web_sys_run cfg (conn_dies i s)"
  using assms hereD [OF assms(2)]
  by (auto intro: web_sys_run.step web_sys_step.read_request web_sys_step.no_request web_sys_step.die)

lemma run_lockout:
  assumes "web_sys_run cfg s" "here i ip (Parsed r) others s" "api_request r" "clock s \<le> t"
    and "(case ip of None \<Rightarrow> (False, windows s) | Some a \<Rightarrow> auth_failures_exceeded a t (windows s)) = (locked, w)"
  shows "\<exists>s'. web_sys_run cfg s' \<and> clock s' = t \<and> tickets_now s' = tickets_now s \<and> windows s' = w
    \<and> (if locked then conns s' = others \<and> thread_count s' = thread_count s - 1
         else here i ip (Unlocked r) others s' \<and> thread_count s' = thread_count s)"
proof -
  let ?s = "s\<lparr>clock := t\<rparr>"
  have "web_sys_run cfg (lockout_step i ip r ?s)"
    using hereD [OF assms(2)] assms(3) by (intro web_sys_run.step [OF run_time [OF assms(1,4)] web_sys_step.lockout]) simp_all
  then show ?thesis
    using assms(2,5) by (intro exI [of _ "lockout_step i ip r ?s"])
      (auto simp: lockout_step_def here_def Let_def conn_to_def split: option.splits)
qed

lemma run_auth:
  assumes "web_sys_run cfg s" "here i ip (Unlocked r) others s" "clock s \<le> t"
    and "authorized r cfg t (tickets_now s) = (ok, tk)"
  shows "\<exists>s'. web_sys_run cfg s' \<and> clock s' = t \<and> tickets_now s' = tk \<and> windows s' = windows s
    \<and> here i ip (if ok then Granted r else Refused) others s' \<and> thread_count s' = thread_count s"
proof -
  let ?s = "s\<lparr>clock := t\<rparr>"
  have "web_sys_run cfg (auth_step cfg t i ip r ?s)"
    using hereD [OF assms(2)] by (intro web_sys_run.step [OF run_time [OF assms(1,3)] web_sys_step.auth]) simp_all
  then show ?thesis
    using assms(2,4) by (intro exI [of _ "auth_step cfg t i ip r ?s"]) (auto simp: auth_step_def here_def conn_to_def)
qed

lemma run_refuse:
  assumes "web_sys_run cfg s" "here i ip Refused others s" "clock s \<le> t"
  shows "\<exists>s'. web_sys_run cfg s' \<and> tickets_now s' = tickets_now s \<and> conns s' = others
    \<and> thread_count s' = thread_count s - 1 \<and> windows s' = (case ip of None \<Rightarrow> windows s | Some a \<Rightarrow> record_auth_failure a t (windows s))"
proof -
  let ?s = "s\<lparr>clock := t\<rparr>"
  have "web_sys_run cfg (refuse_step i ip ?s)"
    using hereD [OF assms(2)] by (intro web_sys_run.step [OF run_time [OF assms(1,3)] web_sys_step.refuse]) simp_all
  then show ?thesis
    using assms(2) by (intro exI [of _ "refuse_step i ip ?s"]) (auto simp: refuse_step_def here_def split: option.splits)
qed

lemma run_serve:
  assumes "web_sys_run cfg s" "here i ip (Granted r) others s" "clock s \<le> t"
  shows "\<exists>s'. web_sys_run cfg s' \<and> windows s' = windows s \<and> conns s' = others
    \<and> thread_count s' = thread_count s - 1 \<and> tickets_now s' = (if route r = ''/api/v1/events/ticket'' \<and> req_method r = ''POST''
        then snd (mint_sse_ticket n t (tickets_now s)) else tickets_now s)"
proof -
  let ?s = "s\<lparr>clock := t\<rparr>"
  have "web_sys_run cfg (serve_step n t i r ?s)"
    using hereD [OF assms(2)] by (intro web_sys_run.step [OF run_time [OF assms(1,3)] web_sys_step.serve]) simp_all
  then show ?thesis using assms(2) by (intro exI [of _ "serve_step n t i r ?s"]) (auto simp: serve_step_def here_def)
qed

text \<open>What the handler does to the tables after the request has been read.\<close>

lemma handle_request_cases:
  "api_request r \<Longrightarrow> handle_request env cfg r st = handle_api env cfg r st"
  "\<not> api_request r \<Longrightarrow> \<exists>effs. handle_request env cfg r st = (st, effs, Finished)"
  by (auto simp: api_request_def handle_request_def handle_api_def Let_def)

lemma serve_api_tables:
  assumes "serve_api env cfg r st = (st', effs, e)"
  shows "rate st' = rate st" "e = Panicked \<Longrightarrow> ticket_table st' = ticket_table st"
    "ticket_table st' = (if route r = ''/api/v1/events/ticket'' \<and> req_method r = ''POST''
      then snd (mint_sse_ticket (nonce (rand env)) (t_mint env) (ticket_table st)) else ticket_table st)"
  using assms by (auto simp: serve_api_def Let_def split: if_splits prod.splits option.splits)

text \<open>Where the thread of a handler leaves the system.\<close>

definition left_as :: "web_config \<Rightarrow> 'ip web_state \<Rightarrow> handler_end \<Rightarrow> ('ip option \<times> conn) list \<Rightarrow> nat \<Rightarrow> bool" where
  "left_as cfg st e others n \<longleftrightarrow> (\<exists>s. web_sys_run cfg s \<and> windows s = rate st \<and> tickets_now s = ticket_table st
     \<and> conns s = others \<and> thread_count s = (if e = Panicked then n else n - 1))"

lemma left_asI:
  "web_sys_run cfg s \<Longrightarrow> windows s = rate st \<Longrightarrow> tickets_now s = ticket_table st \<Longrightarrow> conns s = others \<Longrightarrow>
   thread_count s = (if e = Panicked then n else n - 1) \<Longrightarrow> left_as cfg st e others n"
  unfolding left_as_def by blast

lemma serve_thread:
  assumes "web_sys_run cfg s" "here i ip (Granted r) others s" "clock s \<le> t_mint env"
    and "windows s = rate st" "tickets_now s = ticket_table st" "serve_api env cfg r st = (st', effs, e)"
  shows "left_as cfg st' e others (thread_count s)"
proof (cases e)
  case Finished
  from run_serve [OF assms(1-3), of "nonce (rand env)"] obtain s' where s': "web_sys_run cfg s'" "windows s' = windows s"
    "conns s' = others" "thread_count s' = thread_count s - 1"
    "tickets_now s' = (if route r = ''/api/v1/events/ticket'' \<and> req_method r = ''POST''
      then snd (mint_sse_ticket (nonce (rand env)) (t_mint env) (tickets_now s)) else tickets_now s)" by blast
  with serve_api_tables [OF assms(6)] assms(4,5) Finished show ?thesis by (intro left_asI [of cfg s']) simp_all
next
  case Panicked
  have "web_sys_run cfg (conn_dies i s)"
    using hereD [OF assms(2)] by (intro web_sys_run.step [OF assms(1) web_sys_step.die]) simp
  with serve_api_tables [OF assms(6)] assms(4,5) Panicked hereD [OF assms(2)] show ?thesis
    by (intro left_asI [of cfg "conn_dies i s"]) simp_all
qed

lemma api_thread:
  assumes "web_sys_run cfg s" "here i (peer_ip env) (Parsed r) others s" "api_request r"
    and "clock s \<le> t_lockout env" "t_lockout env \<le> t_auth env" "t_auth env \<le> t_failure env" "t_auth env \<le> t_mint env"
    and "windows s = rate st" "tickets_now s = ticket_table st" "handle_api env cfg r st = (st', effs, e)"
  shows "left_as cfg st' e others (thread_count s)"
proof -
  have csrf: "csrf_ok r" using assms(3) by (simp add: api_request_def)
  obtain locked w where l: "(case peer_ip env of None \<Rightarrow> (False, windows s)
      | Some ip \<Rightarrow> auth_failures_exceeded ip (t_lockout env) (windows s)) = (locked, w)" by force
  from run_lockout [OF assms(1-4) l] obtain s1 where s1: "web_sys_run cfg s1" "clock s1 = t_lockout env"
    "tickets_now s1 = tickets_now s" "windows s1 = w"
    "if locked then conns s1 = others \<and> thread_count s1 = thread_count s - 1
     else here i (peer_ip env) (Unlocked r) others s1 \<and> thread_count s1 = thread_count s" by blast
  show ?thesis
  proof (cases locked)
    case True
    have "st' = st\<lparr>rate := w\<rparr>" "e = Finished"
      using assms(10) csrf l [unfolded assms(8)] True by (simp_all add: handle_api_def)
    with assms(9) s1 True show ?thesis by (intro left_asI [of cfg s1]) simp_all
  next
    case False
    obtain ok tk where a: "authorized r cfg (t_auth env) (tickets_now s1) = (ok, tk)" by force
    from s1(5) False have h1: "here i (peer_ip env) (Unlocked r) others s1" "thread_count s1 = thread_count s" by simp_all
    from run_auth [OF s1(1) h1(1) _ a] s1(2) assms(5) obtain s2 where s2: "web_sys_run cfg s2" "clock s2 = t_auth env"
      "tickets_now s2 = tk" "windows s2 = w" "here i (peer_ip env) (if ok then Granted r else Refused) others s2"
      "thread_count s2 = thread_count s" using s1(4) h1(2) by auto
    let ?st2 = "st\<lparr>rate := w, ticket_table := tk\<rparr>"
    show ?thesis
    proof (cases ok)
      case True
      have "serve_api env cfg r ?st2 = (st', effs, e)"
        using assms(9,10) csrf l [unfolded assms(8)] False a s1(3) True by (simp add: handle_api_def)
      with serve_thread [OF s2(1), of i "peer_ip env" r others env ?st2 st' effs e] s2 True assms(7) show ?thesis by simp
    next
      case False
      from run_refuse [OF s2(1), of i "peer_ip env" others "t_failure env"] s2(2,5) False assms(6) obtain s3 where
        s3: "web_sys_run cfg s3" "tickets_now s3 = tickets_now s2" "conns s3 = others" "thread_count s3 = thread_count s2 - 1"
        "windows s3 = (case peer_ip env of None \<Rightarrow> windows s2 | Some ip \<Rightarrow> record_auth_failure ip (t_failure env) (windows s2))"
        by auto
      have "st' = (case peer_ip env of None \<Rightarrow> ?st2
          | Some ip \<Rightarrow> ?st2\<lparr>rate := record_auth_failure ip (t_failure env) w\<rparr>)" "e = Finished"
        using assms(9,10) csrf l [unfolded assms(8)] \<open>\<not> locked\<close> a s1(3) False by (auto simp: handle_api_def Let_def split: option.splits)
      with s2 s3 show ?thesis by (intro left_asI [of cfg s3]) (auto split: option.splits)
    qed
  qed
qed

lemma connection_thread:
  assumes "web_sys_run cfg s" "here i (peer_ip env) Accepted others s"
    and "clock s \<le> t_rate env" "t_rate env \<le> t_lockout env" "t_lockout env \<le> t_auth env" "t_auth env \<le> t_failure env"
      "t_auth env \<le> t_mint env"
    and "windows s = rate st" "tickets_now s = ticket_table st" "handle_web_connection env cfg st = (st', effs, e)"
  shows "left_as cfg st' e others (thread_count s)"
proof -
  obtain limited w where l: "(case peer_ip env of None \<Rightarrow> (False, windows s)
      | Some ip \<Rightarrow> rate_limited ip (t_rate env) (windows s)) = (limited, w)" by force
  from run_rate [OF assms(1-3) l] obtain s1 where s1: "web_sys_run cfg s1" "clock s1 = t_rate env"
    "tickets_now s1 = tickets_now s" "windows s1 = w"
    "if limited then conns s1 = others \<and> thread_count s1 = thread_count s - 1
     else here i (peer_ip env) Reading others s1 \<and> thread_count s1 = thread_count s" by blast
  note handler = assms(10) [unfolded handle_web_connection_def l [unfolded assms(8)]]
  show ?thesis
  proof (cases limited)
    case True
    with handler have "st' = st\<lparr>rate := w\<rparr>" "e = Finished" by simp_all
    with s1 assms(9) True show ?thesis by (intro left_asI [of cfg s1]) simp_all
  next
    case False
    with s1(5) have h1: "here i (peer_ip env) Reading others s1" "thread_count s1 = thread_count s" by simp_all
    note reads = run_read [OF s1(1) h1(1)]
    show ?thesis
    proof (cases "read_http_request (overflow_checks env) (t_read env) (reads env)")
      case None
      with handler False have "st' = st\<lparr>rate := w\<rparr>" "e = Panicked" by simp_all
      with reads(3) s1 assms(9) h1 hereD [OF h1(1)] show ?thesis by (intro left_asI [of cfg "conn_dies i s1"]) simp_all
    next
      case (Some req)
      show ?thesis
      proof (cases req)
        case None
        with Some handler False have "st' = st\<lparr>rate := w\<rparr>" "e = Finished" by simp_all
        with reads(2) s1 assms(9) h1 hereD [OF h1(1)] show ?thesis by (intro left_asI [of cfg "conn_done i s1"]) simp_all
      next
        case r: (Some r)
        let ?s2 = "conn_to i (peer_ip env) (Parsed r) s1"
        have h2: "here i (peer_ip env) (Parsed r) others ?s2" using h1(1) by (rule here_to)
        have req: "handle_request env cfg r (st\<lparr>rate := w\<rparr>) = (st', effs, e)"
          using Some r handler False by simp
        show ?thesis
        proof (cases "api_request r")
          case True
          with handle_request_cases(1) req have "handle_api env cfg r (st\<lparr>rate := w\<rparr>) = (st', effs, e)" by metis
          from api_thread [OF reads(1) h2 True _ assms(5-7) _ _ this] s1 h1(2) assms(4,9) show ?thesis by simp
        next
          case False
          with handle_request_cases(2) [of r env cfg "st\<lparr>rate := w\<rparr>"] req
          have "st' = st\<lparr>rate := w\<rparr>" "e = Finished" by auto
          moreover have "web_sys_run cfg (conn_done i ?s2)"
            using hereD [OF h2] False by (intro web_sys_run.step [OF reads(1) web_sys_step.other_answer]) simp_all
          ultimately show ?thesis
            using s1 assms(9) h1(2) hereD [OF h2] by (intro left_asI [of cfg "conn_done i ?s2"]) simp_all
        qed
      qed
    qed
  qed
qed

subsection \<open>Attempts that pass the lockout check together\<close>

text \<open>At one moment: \<open>k\<close> threads of one address past the lockout check, \<open>f\<close> failures and \<open>q\<close> requests of it so far.\<close>

definition at_door :: "web_config \<Rightarrow> 'ip \<Rightarrow> http_request \<Rightarrow> nat \<Rightarrow> nat \<Rightarrow> nat \<Rightarrow> 'ip web_sys \<Rightarrow> bool" where
  "at_door cfg ip r k f q s \<longleftrightarrow> web_sys_run cfg s \<and> clock s = 0 \<and> conns s = replicate k (Some ip, Unlocked r)
     \<and> thread_count s = k \<and> failures (guard_log s) = replicate f (ip, 0) \<and> snd (guard_run (guard_log s)) = replicate q (ip, 0)"

lemma recent_replicate: "recent w 0 ip (replicate n (ip, 0)) = (if 0 < w then n else 0)"
  by (simp add: recent_def)

lemma conn_to_log [simp]: "guard_log (conn_to i a c s) = guard_log s"
  by (simp add: conn_to_def)

lemma replicate_Suc_update: "(replicate (Suc k) x)[k := y] = replicate k x @ [y]"
  by (induction k) simp_all

lemma at_door_more:
  assumes "at_door cfg ip r k f q s" "api_request r" "k < MAX_WEB_THREADS" "f < RATE_AUTH_FAIL_LIMIT" "q < RATE_GENERAL_LIMIT"
  shows "\<exists>s'. at_door cfg ip r (Suc k) f (Suc q) s'"
proof -
  note s = assms(1) [unfolded at_door_def]
  let ?s1 = "s\<lparr>conns := conns s @ [(Some ip, Accepted)], thread_count := thread_count s + 1\<rparr>"
  have r1: "web_sys_run cfg ?s1" using s assms(3) by (intro web_sys_run.step [OF _ web_sys_step.accept]) simp_all
  have ok: "windows s = fst (guard_run (guard_log s))" "list_all (\<lambda>op. guard_time op \<le> 0) (guard_log s)"
    using web_sys_run_ok [of cfg s] s by (simp_all add: web_sys_ok_def)
  obtain w where w: "rate_limited ip 0 (windows s) = (False, w)"
    using rate_limited_after [OF ok(2), of ip] ok(1) s assms(5)
    by (cases "rate_limited ip 0 (windows s)") (simp add: recent_replicate RATE_GENERAL_WINDOW_def)
  let ?s2 = "?s1\<lparr>windows := w, guard_log := Request ip 0 # guard_log s\<rparr>"
  have step2: "rate_step k (Some ip) ?s1 = conn_to k (Some ip) Reading ?s2" using w s by (simp add: rate_step_def)
  have r2: "web_sys_run cfg (conn_to k (Some ip) Reading ?s2)"
    unfolding step2 [symmetric] using s by (intro web_sys_run.step [OF r1 web_sys_step.rate_check]) (simp_all add: nth_append)
  let ?s3 = "conn_to k (Some ip) (Parsed r) (conn_to k (Some ip) Reading ?s2)"
  have c3: "conns ?s3 = replicate k (Some ip, Unlocked r) @ [(Some ip, Parsed r)]"
    using s by (simp add: conn_to_def list_update_append)
  have r3: "web_sys_run cfg ?s3"
    using s by (intro web_sys_run.step [OF r2 web_sys_step.read_request]) (simp_all add: conn_to_def nth_append)
  have "guard_run (guard_log ?s3) = (w, replicate (Suc q) (ip, 0))"
    using w s ok(1) by (cases "guard_run (guard_log s)") simp
  moreover have "list_all (\<lambda>op. guard_time op \<le> 0) (guard_log ?s3)" using ok(2) by simp
  ultimately obtain w' where w': "auth_failures_exceeded ip 0 w = (False, w')"
    using lockout_after [of 0 "guard_log ?s3" ip] s assms(4)
    by (cases "auth_failures_exceeded ip 0 w") (simp add: recent_replicate RATE_AUTH_FAIL_WINDOW_def)
  let ?s4 = "lockout_step k (Some ip) r ?s3"
  have "web_sys_run cfg ?s4"
    using c3 assms(2) by (intro web_sys_run.step [OF r3 web_sys_step.lockout]) (simp_all add: nth_append)
  moreover have "conns ?s4 = replicate (Suc k) (Some ip, Unlocked r)"
    using w' s c3 by (simp add: lockout_step_def conn_to_def list_update_append replicate_append_same)
  ultimately show ?thesis
    using w w' s ok(1)
    by (intro exI [of _ ?s4]) (cases "guard_run (guard_log s)", simp add: at_door_def lockout_step_def conn_to_def)
qed

text \<open>One of them fails.\<close>

lemma at_door_fail:
  assumes "at_door cfg ip r (Suc k) f q s" "\<And>tk. authorized r cfg 0 tk = (False, tk)"
  shows "\<exists>s'. at_door cfg ip r k (Suc f) q s'"
proof -
  note s = assms(1) [unfolded at_door_def]
  let ?s1 = "conn_to k (Some ip) Refused s"
  have h: "k < length (conns s)" "conns s ! k = (Some ip, Unlocked r)" using s by (simp_all del: replicate_Suc)
  have c1: "conns ?s1 = replicate k (Some ip, Unlocked r) @ [(Some ip, Refused)]"
    using s by (simp add: conn_to_def replicate_Suc_update del: replicate_Suc)
  have "auth_step cfg 0 k (Some ip) r s = ?s1" using assms(2) by (simp add: auth_step_def)
  with web_sys_step.auth [OF h, of 0 cfg] s have r1: "web_sys_run cfg ?s1" by (auto intro: web_sys_run.step)
  let ?s2 = "refuse_step k (Some ip) ?s1"
  have "web_sys_run cfg ?s2"
    using c1 by (intro web_sys_run.step [OF r1 web_sys_step.refuse]) (simp_all add: nth_append)
  moreover have "conns ?s2 = replicate k (Some ip, Unlocked r)"
    using c1 by (simp add: refuse_step_def drop_nth_def)
  moreover have "clock ?s2 = 0" "thread_count ?s2 = k" using s by (simp_all add: refuse_step_def)
  moreover have "guard_log ?s2 = Auth_failure ip 0 # guard_log s"
    using s by (simp add: refuse_step_def conn_done_def conn_to_def)
  ultimately show ?thesis
    using s by (intro exI [of _ ?s2]) (auto simp: at_door_def split: prod.split)
qed

lemma at_door_sequential:
  assumes "api_request r" "\<And>tk. authorized r cfg 0 tk = (False, tk)" "f \<le> RATE_AUTH_FAIL_LIMIT - 1"
  shows "\<exists>s. at_door cfg ip r 0 f f s"
  using assms(3)
proof (induction f)
  case 0
  have "at_door cfg ip r 0 0 0 (web_sys_start 0)"
    using web_sys_run.start [of cfg 0] by (simp add: at_door_def web_sys_start_def)
  then show ?case by blast
next
  case (Suc f)
  then obtain s where "at_door cfg ip r 0 f f s" by auto
  with at_door_more [OF this assms(1)] Suc.prems obtain s1 where "at_door cfg ip r (Suc 0) f (Suc f) s1"
    by (auto simp: MAX_WEB_THREADS_def RATE_AUTH_FAIL_LIMIT_def RATE_GENERAL_LIMIT_def)
  from at_door_fail [OF this assms(2)] show ?case .
qed

lemma at_door_together:
  assumes "api_request r" "at_door cfg ip r 0 f f s" "f < RATE_AUTH_FAIL_LIMIT" "k \<le> MAX_WEB_THREADS"
  shows "\<exists>s'. at_door cfg ip r k f (f + k) s'"
  using assms(4)
proof (induction k)
  case 0
  with assms(2) show ?case by auto
next
  case (Suc k)
  then obtain s1 where "at_door cfg ip r k f (f + k) s1" by auto
  with at_door_more [OF this assms(1)] Suc.prems assms(3) show ?case
    by (simp add: MAX_WEB_THREADS_def RATE_AUTH_FAIL_LIMIT_def RATE_GENERAL_LIMIT_def)
qed

lemma at_door_all_fail:
  assumes "at_door cfg ip r k f q s" "\<And>tk. authorized r cfg 0 tk = (False, tk)"
  shows "\<exists>s'. at_door cfg ip r 0 (f + k) q s'"
  using assms(1)
proof (induction k arbitrary: f s)
  case 0
  then show ?case by auto
next
  case (Suc k)
  from at_door_fail [OF Suc.prems assms(2)] obtain s1 where "at_door cfg ip r k (Suc f) q s1" by blast
  from Suc.IH [OF this] show ?case by simp
qed

lemma at_door_bound:
  assumes "api_request r" "\<And>tk. authorized r cfg 0 tk = (False, tk)"
  shows "\<exists>s. web_sys_run cfg s \<and> recent RATE_AUTH_FAIL_WINDOW (clock s) ip (failures (guard_log s)) =
    RATE_AUTH_FAIL_LIMIT - 1 + MAX_WEB_THREADS"
proof -
  let ?f = "RATE_AUTH_FAIL_LIMIT - 1" and ?k = MAX_WEB_THREADS
  have "?f < RATE_AUTH_FAIL_LIMIT" by (simp add: RATE_AUTH_FAIL_LIMIT_def)
  with at_door_sequential [OF assms order_refl] at_door_together [OF assms(1) _ this order_refl]
  obtain s where "at_door cfg ip r ?k ?f (?f + ?k) s" by meson
  from at_door_all_fail [OF this assms(2)] obtain s' where "at_door cfg ip r 0 (?f + ?k) (?f + ?k) s'" by blast
  then show ?thesis
    by (intro exI [of _ s']) (simp add: at_door_def recent_replicate RATE_AUTH_FAIL_WINDOW_def)
qed

section \<open>Properties\<close>

text \<open>C26: guessing the token stays bounded under concurrency. However connection threads interleave between the
  lockout check, the comparison and the recorded failure, at no time have more than
  \<open>RATE_AUTH_FAIL_LIMIT - 1 + MAX_WEB_THREADS\<close> attempts from one address failed within the last
  \<open>RATE_AUTH_FAIL_WINDOW\<close>, although threads that passed the check together can all fail after it.\<close>

theorem guessing_bounded:
  assumes "web_sys_run cfg s"
  shows "recent RATE_AUTH_FAIL_WINDOW (clock s) ip (failures (guard_log s)) \<le> RATE_AUTH_FAIL_LIMIT - 1 + MAX_WEB_THREADS
    \<and> windows s = fst (guard_run (guard_log s)) \<and> length (conns s) \<le> MAX_WEB_THREADS"
proof -
  from web_sys_run_ok [OF assms] have "web_sys_ok s" "guess_bound s" by simp_all
  then show ?thesis
    unfolding web_sys_ok_def guess_bound_def recent_failures_def by (meson add_leE le_trans)
qed

theorem guessing_bounded_witness:
  "let s = (web_sys_start 5)\<lparr>conns := [(Some (7::nat), Accepted)], thread_count := 1\<rparr>
   in recent RATE_AUTH_FAIL_WINDOW (clock s) 7 (failures (guard_log s)) \<le> RATE_AUTH_FAIL_LIMIT - 1 + MAX_WEB_THREADS
     \<and> windows s = fst (guard_run (guard_log s)) \<and> length (conns s) \<le> MAX_WEB_THREADS"
proof -
  have "web_sys_run sample_config ((web_sys_start 5)\<lparr>conns := [(Some (7::nat), Accepted)], thread_count := 1\<rparr>)"
    using web_sys_run.step [OF web_sys_run.start [of sample_config 5] web_sys_step.accept [of _ _ "Some (7::nat)"]]
    by (simp add: web_sys_start_def MAX_WEB_THREADS_def)
  from guessing_bounded [OF this, of 7] show ?thesis by (simp only: Let_def)
qed

text \<open>C27: the bound is exact, and it is above the lockout limit. With a token set, threads that pass
  the lockout check together before any of them fails leave \<open>RATE_AUTH_FAIL_LIMIT - 1 + MAX_WEB_THREADS\<close> failures of one
  address in one window.\<close>

theorem guessing_bound_attained:
  assumes "token cfg \<noteq> []"
  shows "\<exists>s. web_sys_run cfg s \<and> recent RATE_AUTH_FAIL_WINDOW (clock s) ip (failures (guard_log s)) =
    RATE_AUTH_FAIL_LIMIT - 1 + MAX_WEB_THREADS"
proof (rule at_door_bound)
  show "api_request sample_status_request" by code_simp
  have "header sample_status_request ''authorization'' = None" "route sample_status_request \<noteq> ''/api/v1/events''"
    by code_simp+
  then show "authorized sample_status_request cfg 0 tk = (False, tk)" for tk
    using assms by (simp add: authorized_def bearer_ok_def)
qed

theorem guessing_bound_attained_witness:
  "\<exists>s. web_sys_run (sample_config\<lparr>token := ''t''\<rparr>) s \<and>
    recent RATE_AUTH_FAIL_WINDOW (clock s) (7::nat) (failures (guard_log s)) = 83"
  using guessing_bound_attained [of "sample_config\<lparr>token := ''t''\<rparr>" 7]
  by (simp add: RATE_AUTH_FAIL_LIMIT_def MAX_WEB_THREADS_def)

text \<open>C28: the handler is what a thread does. From any state of the running server, the handler of an
  accepted connection, run as a whole, leaves the rate windows and the ticket table as a run of its thread's steps leaves
  them, with the other threads where they were; the counter goes down unless the handler panicked.\<close>

theorem handler_is_a_thread:
  assumes "web_sys_run cfg s" and "i < length (conns s)" and "conns s ! i = (peer_ip env, Accepted)"
    and "clock s \<le> t_rate env" and "t_rate env \<le> t_lockout env" and "t_lockout env \<le> t_auth env"
    and "t_auth env \<le> t_failure env" and "t_auth env \<le> t_mint env"
    and "handle_web_connection env cfg \<lparr>rate = windows s, ticket_table = tickets_now s\<rparr> = (st', effs, e)"
  shows "\<exists>s'. web_sys_run cfg s' \<and> windows s' = rate st' \<and> tickets_now s' = ticket_table st'
    \<and> conns s' = take i (conns s) @ drop (Suc i) (conns s)
    \<and> thread_count s' = (if e = Panicked then thread_count s else thread_count s - 1)"
proof -
  have "here i (peer_ip env) Accepted (drop_nth i (conns s)) s" using assms(2,3) by (simp add: here_def)
  from connection_thread [OF assms(1) this assms(4-8) _ _ assms(9)] show ?thesis by (simp add: left_as_def drop_nth_def)
qed

theorem handler_is_a_thread_witness:
  "\<exists>s' :: nat web_sys. web_sys_run sample_config s' \<and> conns s' = [(Some 8, Accepted)]
    \<and> windows s' = rate (fst (handle_web_connection sample_env sample_config empty_state))"
proof -
  let ?s = "(web_sys_start 0)\<lparr>conns := [(Some (7::nat), Accepted), (Some 8, Accepted)], thread_count := Suc (Suc 0)\<rparr>"
  let ?s1 = "(web_sys_start 0)\<lparr>conns := [(Some (7::nat), Accepted)], thread_count := 1\<rparr>"
  have "web_sys_run sample_config ?s1"
    using web_sys_run.step [OF web_sys_run.start [of sample_config 0] web_sys_step.accept [of _ _ "Some (7::nat)"]]
    by (simp add: web_sys_start_def MAX_WEB_THREADS_def)
  from web_sys_run.step [OF this web_sys_step.accept [of _ _ "Some 8"]] have run: "web_sys_run sample_config ?s"
    by (simp add: web_sys_start_def MAX_WEB_THREADS_def)
  have st: "\<lparr>rate = windows ?s, ticket_table = tickets_now ?s\<rparr> = empty_state"
    by (simp add: web_sys_start_def empty_state_def)
  obtain st' effs e where h: "handle_web_connection sample_env sample_config empty_state = (st', effs, e)"
    by (metis prod_cases3)
  with handler_is_a_thread [OF run, of 0 sample_env st' effs e, unfolded st] show ?thesis
    by (auto simp: sample_env_def web_sys_start_def)
qed

end
