(* ===== verification/Pg_Session.thy ===== *)
theory Pg_Session
  imports Rust_Str Json_Value Lib_Core
begin

text \<open>
  The runtime worker's PostgreSQL session. A piece of the worker that talks to the server is a function
  of the server's behaviour and of what happened in the session so far; it gives its result and the
  events it adds. A server error raised inside a call (pgrx turns it into an unwind) is \<open>Raise\<close>; a call
  that returns an error value to the Rust code is \<open>Failed\<close>. The server is a parameter: a function of the
  session's history and the statement. Shared here: \<open>drop_privileges\<close> of \<open>src/runtime_worker.rs\<close>,
  \<open>run_in_subtransaction\<close> of \<open>src/sandbox.rs\<close>, \<open>valid_uuid\<close> of \<open>src/rpc.rs\<close>, the claim and completion
  transactions and the pump loop that the executors have in common.
\<close>

section \<open>Definitions\<close>

subsection \<open>Session events and computations\<close>

text \<open>Bound parameters, by SQL type.\<close>

datatype spi_arg =
    ANull
  | AText string
  | AInt int
  | ABool bool
  | AJsonb json
  | ATexts "string list"

definition arg_opt :: "('a \<Rightarrow> spi_arg) \<Rightarrow> 'a option \<Rightarrow> spi_arg" where
  "arg_opt f x = (case x of None \<Rightarrow> ANull | Some a \<Rightarrow> f a)"

datatype spi_response = Returned "json option" | Failed string | Raised string

datatype pg_event =
    Begin_xact
  | Commit_xact
  | Begin_sub
  | Release_sub
  | Rollback_sub
  | Timer_on int
  | Timer_off
  | Spi string "spi_arg list" spi_response
  | Warned string "string list"

type_synonym pg_db = "pg_event list \<Rightarrow> string \<Rightarrow> spi_arg list \<Rightarrow> spi_response"

datatype 'a pg_result = Value 'a | Raise string

type_synonym 'a pg = "pg_db \<Rightarrow> pg_event list \<Rightarrow> 'a pg_result \<times> pg_event list"

named_theorems pg_ops

definition pg_return :: "'a \<Rightarrow> 'a pg" where
  [pg_ops]: "pg_return x = (\<lambda>db h. (Value x, []))"

definition pg_bind :: "'a pg \<Rightarrow> ('a \<Rightarrow> 'b pg) \<Rightarrow> 'b pg" where
  [pg_ops]: "pg_bind m f = (\<lambda>db h.
     case m db h of
       (Raise e, es) \<Rightarrow> (Raise e, es)
     | (Value x, es) \<Rightarrow> (case f x db (h @ es) of (r, es') \<Rightarrow> (r, es @ es')))"

definition pg_emit :: "pg_event \<Rightarrow> unit pg" where
  [pg_ops]: "pg_emit ev = (\<lambda>db h. (Value (), [ev]))"

definition pg_warn :: "string \<Rightarrow> string list \<Rightarrow> unit pg" where
  [pg_ops]: "pg_warn msg args = pg_emit (Warned msg args)"

text \<open>An SPI call: the server's response, recorded; a raised error leaves the function.\<close>

definition spi :: "string \<Rightarrow> spi_arg list \<Rightarrow> spi_response pg" where
  [pg_ops]: "spi q args = (\<lambda>db h.
     let r = db h q args in
     (case r of Raised e \<Rightarrow> Raise e | _ \<Rightarrow> Value r, [Spi q args r]))"

text \<open>\<open>Spi::run(...).is_ok()\<close>.\<close>

definition is_ok :: "spi_response \<Rightarrow> bool" where
  "is_ok r = (case r of Returned _ \<Rightarrow> True | _ \<Rightarrow> False)"

definition spi_run_ok :: "string \<Rightarrow> spi_arg list \<Rightarrow> bool pg" where
  [pg_ops]: "spi_run_ok q args = pg_bind (spi q args) (\<lambda>r. pg_return (is_ok r))"

text \<open>\<open>a && b\<close> on calls: \<open>b\<close> only runs when \<open>a\<close> is true.\<close>

definition pg_and :: "bool pg \<Rightarrow> bool pg \<Rightarrow> bool pg" where
  [pg_ops]: "pg_and a b = pg_bind a (\<lambda>x. if x then b else pg_return False)"

text \<open>\<open>get_one(...).ok().flatten()\<close>.\<close>

definition ok_flatten :: "spi_response \<Rightarrow> json option" where
  "ok_flatten r = (case r of Returned v \<Rightarrow> v | _ \<Rightarrow> None)"

text \<open>\<open>BackgroundWorker::transaction\<close>: no commit is reached when the body raises.\<close>

definition transaction :: "'a pg \<Rightarrow> 'a pg" where
  [pg_ops]: "transaction body =
     pg_bind (pg_emit Begin_xact) (\<lambda>_.
     pg_bind body (\<lambda>x.
     pg_bind (pg_emit Commit_xact) (\<lambda>_. pg_return x)))"

subsection \<open>Privileges\<close>

text \<open>\<open>dp\<close> is the value of \<open>ALLGRES_DROP_PRIVILEGES\<close>, if it is set.\<close>

definition assume_worker_role :: string where
  "assume_worker_role = ''SELECT allgres.assume_worker_role()''"

definition drop_privileges :: "string option \<Rightarrow> bool pg" where
  "drop_privileges dp =
     (if dp = Some ''0'' then pg_return True
      else pg_bind (spi assume_worker_role []) (\<lambda>r.
        case r of
          Returned (Some v) \<Rightarrow>
            if v = JBool True then pg_return True
            else pg_bind (pg_warn ''Allgres: assume_worker_role() reports the worker role is not ready'' [])
                   (\<lambda>_. pg_return False)
        | Returned None \<Rightarrow>
            pg_bind (pg_warn ''Allgres: assume_worker_role() returned no result'' []) (\<lambda>_. pg_return False)
        | Failed e \<Rightarrow>
            pg_bind (pg_warn ''Allgres: assume_worker_role() failed: {}'' [e]) (\<lambda>_. pg_return False)
        | Raised e \<Rightarrow> pg_return False))"

subsection \<open>Subtransactions\<close>

text \<open>The closure's own error value (\<^const>\<open>Inl\<close>) is passed through with no release and no rollback.\<close>

definition run_in_subtransaction :: "(string + 'a) pg \<Rightarrow> (string + 'a) pg" where
  "run_in_subtransaction f = (\<lambda>db h.
     case f db (h @ [Begin_sub]) of
       (Raise e, es) \<Rightarrow> (Value (Inl e), Begin_sub # es @ [Rollback_sub])
     | (Value (Inr v), es) \<Rightarrow> (Value (Inr v), Begin_sub # es @ [Release_sub])
     | (Value (Inl e), es) \<Rightarrow> (Value (Inl e), Begin_sub # es))"

subsection \<open>Claiming and completing\<close>

text \<open>The claim transactions: the same shape for every queue.\<close>

definition empty_claim :: "string \<Rightarrow> json" where
  "empty_claim key = json_object [(''count'', JInt 0), (key, JArray [])]"

definition claim_jobs :: "string option \<Rightarrow> string \<Rightarrow> string \<Rightarrow> int \<Rightarrow> json pg" where
  "claim_jobs dp q key limit =
     transaction (pg_bind (drop_privileges dp) (\<lambda>ok.
       if \<not> ok then pg_return (empty_claim key)
       else pg_bind (spi q [AInt limit]) (\<lambda>r.
         pg_return (case ok_flatten r of Some j \<Rightarrow> j | None \<Rightarrow> empty_claim key))))"

text \<open>The completion transactions: one call that records a result, a warning when it cannot be made.\<close>

definition skip_warning :: "string \<Rightarrow> string \<Rightarrow> string" where
  "skip_warning fn noun = ''Allgres: skipping '' @ fn @ '' for '' @ noun @ ''{} -- privilege drop failed''"

definition failed_warning :: "string \<Rightarrow> string \<Rightarrow> string" where
  "failed_warning fn noun = ''Allgres: '' @ fn @ '' failed for '' @ noun @ ''{}: {}''"

definition complete_call ::
    "string option \<Rightarrow> string \<Rightarrow> string \<Rightarrow> string \<Rightarrow> string \<Rightarrow> spi_arg list \<Rightarrow> unit pg" where
  "complete_call dp fn noun q call_id args =
     transaction (pg_bind (drop_privileges dp) (\<lambda>ok.
       if \<not> ok then pg_warn (skip_warning fn noun) [call_id]
       else pg_bind (spi q (AText call_id # args)) (\<lambda>r.
         case r of
           Failed e \<Rightarrow> pg_warn (failed_warning fn noun) [call_id, e]
         | _ \<Rightarrow> pg_return ())))"

subsection \<open>Identifiers\<close>

definition valid_uuid :: "string \<Rightarrow> bool" where
  "valid_uuid s =
     (length s = 36 \<and>
      list_all (\<lambda>(i, b). if i \<in> {8, 13, 18, 23} then b = CHR ''-'' else is_ascii_hexdigit b)
        (enumerate 0 s))"

subsection \<open>The pump loop\<close>

text \<open>\<open>for call in calls { ... n += 1 }\<close>: the entries that parse, in order, each run and then completed.\<close>

definition pump_step ::
    "(json \<Rightarrow> 'job option) \<Rightarrow> ('job \<Rightarrow> string) \<Rightarrow> ('job \<Rightarrow> 'out pg) \<Rightarrow> (string \<Rightarrow> 'out \<Rightarrow> unit pg) \<Rightarrow> json \<Rightarrow> nat pg" where
  "pump_step parse job_id execute submit call =
     (case parse call of
        None \<Rightarrow> pg_return 0
      | Some job \<Rightarrow>
          pg_bind (execute job) (\<lambda>outcome.
          pg_bind (submit (job_id job) outcome) (\<lambda>_. pg_return 1)))"

primrec pump_each :: "(json \<Rightarrow> nat pg) \<Rightarrow> json list \<Rightarrow> nat pg" where
  "pump_each step [] = pg_return 0"
| "pump_each step (c # cs) =
     pg_bind (step c) (\<lambda>k. pg_bind (pump_each step cs) (\<lambda>n. pg_return (k + n)))"

definition pump_claimed :: "json pg \<Rightarrow> string \<Rightarrow> (json \<Rightarrow> nat pg) \<Rightarrow> nat pg" where
  "pump_claimed claim key step =
     pg_bind claim (\<lambda>claimed.
       case get_array claimed key of
         None \<Rightarrow> pg_return 0
       | Some calls \<Rightarrow> pump_each step calls)"


section \<open>Lemmas\<close>

lemma bind_Value_iff:
  "pg_bind m f db h = (Value y, es) \<longleftrightarrow>
     (\<exists>x es1 es2. m db h = (Value x, es1) \<and> f x db (h @ es1) = (Value y, es2) \<and> es = es1 @ es2)"
  by (auto simp: pg_bind_def split: prod.splits pg_result.splits)

lemma bind_Value:
  "m db h = (Value x, es1) \<Longrightarrow> pg_bind m f db h = (let (r, es2) = f x db (h @ es1) in (r, es1 @ es2))"
  by (simp add: pg_bind_def)

lemma return_eq [simp]: "pg_return x db h = (Value x, [])"
  by (simp add: pg_return_def)

lemma emit_eq [simp]: "pg_emit ev db h = (Value (), [ev])"
  by (simp add: pg_emit_def)

lemma spi_Value_iff:
  "spi q args db h = (Value r, es) \<longleftrightarrow> db h q args = r \<and> (\<forall>e. r \<noteq> Raised e) \<and> es = [Spi q args r]"
  by (auto simp: spi_def Let_def split: spi_response.splits)

text \<open>A computation that gives the same value whatever happened before it.\<close>

definition pg_gives :: "'a pg \<Rightarrow> pg_db \<Rightarrow> 'a \<Rightarrow> bool" where
  "pg_gives m db x \<longleftrightarrow> (\<forall>h. \<exists>es. m db h = (Value x, es))"

lemma gives_return [intro]: "pg_gives (pg_return x) db x"
  by (simp add: pg_gives_def)

lemma gives_bind [intro]: "pg_gives m db x \<Longrightarrow> pg_gives (f x) db y \<Longrightarrow> pg_gives (pg_bind m f) db y"
  unfolding pg_gives_def by (metis bind_Value_iff)

lemma gives_at: "pg_gives m db x \<Longrightarrow> \<exists>es. m db h = (Value x, es)"
  by (simp add: pg_gives_def)

text \<open>\<open>drop_privileges\<close> succeeds only on the server's true, and its events are its one query and a warning.\<close>

lemma drop_privileges_cases:
  obtains (disabled) "dp = Some ''0''" "drop_privileges dp db h = (Value True, [])"
    | (dropped) "dp \<noteq> Some ''0''"
        "drop_privileges dp db h = (Value True, [Spi assume_worker_role [] (Returned (Some (JBool True)))])"
    | (refused) r w args where "dp \<noteq> Some ''0''" "r \<noteq> Returned (Some (JBool True))"
        "drop_privileges dp db h = (Value False, [Spi assume_worker_role [] r, Warned w args])"
        "w \<in> {''Allgres: assume_worker_role() reports the worker role is not ready'',
           ''Allgres: assume_worker_role() returned no result'', ''Allgres: assume_worker_role() failed: {}''}"
    | (raised) e where "dp \<noteq> Some ''0''"
        "drop_privileges dp db h = (Raise e, [Spi assume_worker_role [] (Raised e)])"
proof (cases "dp = Some ''0''")
  case True
  then show ?thesis using disabled by (simp add: drop_privileges_def)
next
  case False
  let ?r = "db h assume_worker_role []"
  consider "?r = Returned (Some (JBool True))" | v where "?r = Returned (Some v)" "v \<noteq> JBool True"
    | "?r = Returned None" | e where "?r = Failed e" | e where "?r = Raised e"
    by (metis not_None_eq spi_response.exhaust)
  then show ?thesis
  proof cases
    case 1
    with False show ?thesis using dropped by (simp add: drop_privileges_def pg_ops Let_def)
  next
    case (2 v)
    with False show ?thesis using refused [of "Returned (Some v)"]
      by (simp add: drop_privileges_def pg_ops Let_def)
  next
    case 3
    with False show ?thesis using refused [of "Returned None"]
      by (simp add: drop_privileges_def pg_ops Let_def)
  next
    case (4 e)
    with False show ?thesis using refused [of "Failed e"]
      by (simp add: drop_privileges_def pg_ops Let_def)
  next
    case 5
    with False show ?thesis using raised by (simp add: drop_privileges_def pg_ops Let_def)
  qed
qed

subsection \<open>Completion events\<close>

text \<open>The call an event accounts for: the completion query with its first argument, or the warning that the
  completion was skipped.\<close>

definition accounts_for :: "string \<Rightarrow> string \<Rightarrow> string \<Rightarrow> pg_event \<Rightarrow> string option" where
  "accounts_for fn noun q ev =
     (case ev of
        Spi q' (AText i # _) _ \<Rightarrow> if q' = q then Some i else None
      | Warned w [i] \<Rightarrow> if w = skip_warning fn noun then Some i else None
      | _ \<Rightarrow> None)"

lemma map_filter_append: "List.map_filter f (xs @ ys) = List.map_filter f xs @ List.map_filter f ys"
  by (induction xs) (auto simp: List.map_filter_simps split: option.split)

lemmas map_filter_ops = map_filter_append List.map_filter_simps

lemma accounts_for_other [simp]:
  "accounts_for fn noun q Begin_xact = None" "accounts_for fn noun q Commit_xact = None"
  "accounts_for fn noun q Begin_sub = None" "accounts_for fn noun q Release_sub = None"
  "accounts_for fn noun q Rollback_sub = None" "accounts_for fn noun q (Timer_on n) = None"
  "accounts_for fn noun q Timer_off = None" "accounts_for fn noun q (Spi q' [] r) = None"
  by (simp_all add: accounts_for_def)

lemma skip_warning_not_role_warning:
  "skip_warning fn noun \<noteq> ''Allgres: assume_worker_role() reports the worker role is not ready''"
  "skip_warning fn noun \<noteq> ''Allgres: assume_worker_role() returned no result''"
  "skip_warning fn noun \<noteq> ''Allgres: assume_worker_role() failed: {}''"
  by (simp_all add: skip_warning_def)

lemma drop_privileges_silent:
  "drop_privileges dp db h = (r, es) \<Longrightarrow> List.map_filter (accounts_for fn noun q) es = []"
  using skip_warning_not_role_warning [of fn noun]
  by (cases rule: drop_privileges_cases [of dp db h])
    (auto simp: map_filter_ops accounts_for_def split: list.splits)

lemma complete_call_once:
  assumes "complete_call dp fn noun q i args db h = (Value x, es)"
    and "failed_warning fn noun \<noteq> skip_warning fn noun"
  shows "List.map_filter (accounts_for fn noun q) es = [i]"
proof -
  obtain ok es1 where d: "drop_privileges dp db (h @ [Begin_xact]) = (Value ok, es1)"
    using assms(1) by (auto simp: complete_call_def transaction_def bind_Value_iff)
  note silent = drop_privileges_silent [OF d, of fn noun q]
  from assms(1) d silent show ?thesis
    by (auto simp: complete_call_def transaction_def bind_Value_iff map_filter_ops accounts_for_def spi_def
        pg_warn_def Let_def split: if_splits spi_response.splits)
qed

subsection \<open>The contract of an executor\<close>

text \<open>
  What the pump loop relies on: running a job gives an outcome, never an unwind, and accounts for no
  call; submitting the outcome of a call accounts for that call once. Then a pump that returns has
  accounted for every claimed entry that parses exactly once and in order, and its count is their number.
\<close>

locale executor =
  fixes parse :: "json \<Rightarrow> 'job option"
    and job_id :: "'job \<Rightarrow> string"
    and execute :: "'job \<Rightarrow> 'out pg"
    and submit :: "string \<Rightarrow> 'out \<Rightarrow> unit pg"
    and accounts :: "pg_event \<Rightarrow> string option"
  assumes execute_returns: "\<exists>out es. execute job db h = (Value out, es)"
    and execute_silent: "execute job db h = (r, es) \<Longrightarrow> List.map_filter accounts es = []"
    and submit_once: "submit i out db h = (Value u, es) \<Longrightarrow> List.map_filter accounts es = [i]"
begin

lemma step_accounts:
  "pump_step parse job_id execute submit call db h = (Value k, es) \<Longrightarrow>
     List.map_filter accounts es = map job_id (case parse call of None \<Rightarrow> [] | Some j \<Rightarrow> [j])
     \<and> k = length (case parse call of None \<Rightarrow> [] | Some j \<Rightarrow> [j])"
proof (cases "parse call")
  case (Some job)
  assume "pump_step parse job_id execute submit call db h = (Value k, es)"
  with Some obtain out es1 u es2 where run: "execute job db h = (Value out, es1)"
    "submit (job_id job) out db (h @ es1) = (Value u, es2)" "es = es1 @ es2" "k = 1"
    by (auto simp: pump_step_def bind_Value_iff)
  with execute_silent [OF run(1)] submit_once [OF run(2)] Some show ?thesis
    by (simp add: map_filter_ops)
qed (auto simp: pump_step_def map_filter_ops)

lemma each_accounts:
  "pump_each (pump_step parse job_id execute submit) calls db h = (Value n, es) \<Longrightarrow>
     List.map_filter accounts es = map job_id (List.map_filter parse calls)
     \<and> n = length (List.map_filter parse calls)"
proof (induction calls arbitrary: db h n es)
  case (Cons c calls)
  then obtain k es1 m es2 where "pump_step parse job_id execute submit c db h = (Value k, es1)"
    "pump_each (pump_step parse job_id execute submit) calls db (h @ es1) = (Value m, es2)"
    "es = es1 @ es2" "n = k + m"
    by (auto simp: bind_Value_iff)
  with Cons.IH [of db "h @ es1" m es2] step_accounts [of c db h k es1] show ?case
    by (auto simp: map_filter_ops split: option.splits)
qed (simp add: map_filter_ops)

lemma pump_accounts:
  assumes "claim db h = (Value claimed, es0)" and "get_array claimed key = Some calls"
    and "pump_claimed claim key (pump_step parse job_id execute submit) db h = (Value n, es0 @ es)"
  shows "List.map_filter accounts es = map job_id (List.map_filter parse calls)
     \<and> n = length (List.map_filter parse calls)"
  using assms each_accounts [of calls db "h @ es0" n es] by (auto simp: pump_claimed_def bind_Value_iff)

text \<open>A job's own failure never stops the pump: it can only fail to return when a completion unwinds.\<close>

lemma step_raises_in_submit:
  "pump_step parse job_id execute submit call db h = (Raise e, es) \<Longrightarrow>
     \<exists>job out h' es'. parse call = Some job \<and> submit (job_id job) out db h' = (Raise e, es')"
proof (cases "parse call")
  case (Some job)
  assume raise: "pump_step parse job_id execute submit call db h = (Raise e, es)"
  obtain out es1 where "execute job db h = (Value out, es1)" using execute_returns by blast
  with raise Some have "\<exists>es'. submit (job_id job) out db (h @ es1) = (Raise e, es')"
    by (auto simp: pump_step_def pg_bind_def split: prod.splits pg_result.splits)
  with Some show ?thesis by blast
qed (simp add: pump_step_def)

text \<open>So the pump returns whenever the completions do, whatever the jobs themselves do.\<close>

lemma step_returns:
  assumes "\<And>i out h'. \<exists>es. submit i out db h' = (Value (), es)"
  shows "\<exists>k es. pump_step parse job_id execute submit call db h = (Value k, es)"
proof (cases "pump_step parse job_id execute submit call db h")
  case (Pair r es)
  then show ?thesis
  proof (cases r)
    case (Raise e)
    with Pair step_raises_in_submit [of call db h e es] assms show ?thesis
      by (metis pg_result.distinct(1) prod.inject)
  qed auto
qed

lemma pump_returns:
  assumes "\<And>i out h'. \<exists>es. submit i out db h' = (Value (), es)"
    and "claim db h = (Value claimed, es0)" and "get_array claimed key = Some calls"
  shows "\<exists>n es. pump_claimed claim key (pump_step parse job_id execute submit) db h = (Value n, es0 @ es)"
proof -
  have "\<exists>n es. pump_each (pump_step parse job_id execute submit) calls db h' = (Value n, es)" for h'
  proof (induction calls arbitrary: h')
    case (Cons c calls)
    obtain k es1 where "pump_step parse job_id execute submit c db h' = (Value k, es1)"
      using step_returns [OF assms(1)] by blast
    moreover obtain n es2 where "pump_each (pump_step parse job_id execute submit) calls db (h' @ es1) = (Value n, es2)"
      using Cons by blast
    ultimately show ?case by (auto simp: bind_Value_iff)
  qed simp
  then show ?thesis using assms(2,3) by (fastforce simp: pump_claimed_def bind_Value_iff)
qed

end

end
