(* ===== verification/Sandbox.thy ===== *)
theory Sandbox
  imports Pg_Session
begin

text \<open>
  \<open>src/sandbox.rs\<close>: an agent's validated statement, run by the worker itself under the agent's own role.
  \<open>fn_validate_sql\<close>, \<open>fn_claim_sql\<close>, \<open>fn_run_sandboxed_sql\<close> and \<open>fn_complete_sql\<close> are functions of the
  database; here is what the worker does around them, call by call.
\<close>

section \<open>Definitions\<close>

definition claim_sql_jobs :: "string option \<Rightarrow> int \<Rightarrow> json pg" where
  "claim_sql_jobs dp limit = claim_jobs dp ''SELECT allgres_public.fn_claim_sql($1)'' ''calls'' limit"

definition valid_pg_role :: "string \<Rightarrow> bool" where
  "valid_pg_role s =
     (case strip_prefix s ''allgres_agent_'' of
        None \<Rightarrow> False
      | Some hex \<Rightarrow> length hex = 32 \<and> list_all is_ascii_hexdigit hex)"

text \<open>\<open>pg_role.filter(|r| valid_pg_role(r)).unwrap_or("sandbox")\<close>.\<close>

definition effective_role :: "string option \<Rightarrow> string" where
  "effective_role pg_role =
     (case pg_role of
        Some r \<Rightarrow> if valid_pg_role r then r else ''sandbox''
      | None \<Rightarrow> ''sandbox'')"

definition set_role_sql :: "string \<Rightarrow> string" where
  "set_role_sql role = ''SET LOCAL ROLE '' @ role"

definition set_search_path_sql :: string where
  "set_search_path_sql = ''SET LOCAL search_path = pg_temp''"

definition set_read_only_sql :: string where
  "set_read_only_sql = ''SET LOCAL transaction_read_only = on''"

definition set_timeout_sql :: "int \<Rightarrow> string" where
  "set_timeout_sql ms =
     ''SET LOCAL statement_timeout = '' @ [CHR 0x27] @ nat_to_radix 10 (nat ms) @ ''ms'' @ [CHR 0x27]"

definition set_agent_sql :: string where
  "set_agent_sql = ''SELECT set_config('' @ [CHR 0x27] @ ''allgres.agent_id'' @ [CHR 0x27] @ '', $1, true)''"

definition run_sql :: string where
  "run_sql = ''SELECT allgres_public.fn_run_sandboxed_sql($1)''"

text \<open>The closure that runs in the subtransaction.\<close>

definition sandbox_body :: "string option \<Rightarrow> string \<Rightarrow> string \<Rightarrow> string \<Rightarrow> (string + json) pg" where
  "sandbox_body dp role agent_id sql =
     pg_bind
       (pg_and (drop_privileges dp)
       (pg_and (spi_run_ok (set_role_sql role) [])
       (pg_and (spi_run_ok set_search_path_sql [])
       (pg_and (spi_run_ok set_read_only_sql [])
       (pg_and (spi_run_ok (set_timeout_sql SQL_STATEMENT_TIMEOUT_MS) [])
               (spi_run_ok set_agent_sql [AText agent_id]))))))
     (\<lambda>dropped.
       if \<not> dropped then pg_return (Inl ''sandbox role unavailable'')
       else
         pg_bind (pg_emit (Timer_on SQL_STATEMENT_TIMEOUT_MS)) (\<lambda>_.
         pg_bind (spi run_sql [AText sql]) (\<lambda>r.
         pg_bind (pg_emit Timer_off) (\<lambda>_.
           pg_return (case r of
             Returned (Some v) \<Rightarrow> Inr v
           | Returned None \<Rightarrow> Inl ''sandboxed execution returned nothing''
           | Failed e \<Rightarrow> Inl e
           | Raised e \<Rightarrow> Inl e)))))"

definition run_sandboxed_sql ::
    "string option \<Rightarrow> string \<Rightarrow> string \<Rightarrow> string option \<Rightarrow> (string + json) pg" where
  "run_sandboxed_sql dp agent_id sql pg_role =
     (let role = effective_role pg_role in
      transaction (run_in_subtransaction (sandbox_body dp role agent_id sql)))"

text \<open>\<open>n as i32\<close>.\<close>

definition as_i32 :: "int \<Rightarrow> int" where
  "as_i32 n = (n + 2 ^ 31) mod 2 ^ 32 - 2 ^ 31"

definition sql_result_args :: "string + json \<Rightarrow> spi_arg list" where
  "sql_result_args outcome =
     (case outcome of
        Inr v \<Rightarrow>
          if get_bool v ''ok'' = Some True then
            [ABool True, arg_opt AJsonb (json_get v ''rows''),
             arg_opt AInt (map_option as_i32 (Option.bind (json_get v ''row_count'') as_i64)),
             ABool (case get_bool v ''truncated'' of None \<Rightarrow> False | Some b \<Rightarrow> b), ANull]
          else
            [ABool False, ANull, ANull, ABool False,
             AText (case get_str v ''error'' of None \<Rightarrow> ''sql execution failed'' | Some e \<Rightarrow> e)]
      | Inl e \<Rightarrow> [ABool False, ANull, ANull, ABool False, AText e])"

definition complete_sql :: string where
  "complete_sql = ''SELECT allgres_public.fn_complete_sql($1::uuid, $2, $3, $4, $5, $6)''"

definition submit_sql_result :: "string option \<Rightarrow> string \<Rightarrow> string + json \<Rightarrow> unit pg" where
  "submit_sql_result dp call_id outcome =
     complete_call dp ''fn_complete_sql'' ''call '' complete_sql call_id (sql_result_args outcome)"

record sql_job =
  sql_call_id :: string
  sql_agent_id :: string
  sql_text :: string
  sql_role :: "string option"

definition parse_sql_call :: "json \<Rightarrow> sql_job option" where
  "parse_sql_call call =
     (case (get_str call ''call_id'', get_str call ''agent_id'', get_str call ''sql'') of
        (Some call_id, Some agent_id, Some sql) \<Rightarrow>
          if \<not> valid_uuid call_id \<or> \<not> valid_uuid agent_id then None
          else Some \<lparr>sql_call_id = call_id, sql_agent_id = agent_id, sql_text = sql,
                     sql_role = get_str call ''pg_role''\<rparr>
      | _ \<Rightarrow> None)"

definition execute_sql_job :: "string option \<Rightarrow> sql_job \<Rightarrow> (string + json) pg" where
  "execute_sql_job dp job = run_sandboxed_sql dp (sql_agent_id job) (sql_text job) (sql_role job)"

definition pump_sql :: "string option \<Rightarrow> nat pg" where
  "pump_sql dp =
     pump_claimed (claim_sql_jobs dp SQL_CLAIM_LIMIT) ''calls''
       (pump_step parse_sql_call sql_call_id (execute_sql_job dp) (submit_sql_result dp))"


section \<open>Lemmas\<close>

lemma spi_run_ok_cases:
  obtains (ok) v where "spi_run_ok q args db h = (Value True, [Spi q args (Returned v)])"
    | (failed) e where "spi_run_ok q args db h = (Value False, [Spi q args (Failed e)])"
    | (raised) e where "spi_run_ok q args db h = (Raise e, [Spi q args (Raised e)])"
  by (cases "db h q args") (auto simp: spi_run_ok_def pg_ops is_ok_def Let_def)

lemma and_True_iff:
  "pg_and a b db h = (Value True, es) \<longleftrightarrow>
     (\<exists>es1 es2. a db h = (Value True, es1) \<and> b db (h @ es1) = (Value True, es2) \<and> es = es1 @ es2)"
  by (auto simp: pg_and_def bind_Value_iff split: if_splits)

lemma spi_run_ok_True_iff:
  "spi_run_ok q args db h = (Value True, es) \<longleftrightarrow> (\<exists>v. es = [Spi q args (Returned v)] \<and> db h q args = Returned v)"
  by (cases "db h q args") (auto simp: spi_run_ok_def pg_ops is_ok_def Let_def)

lemma transaction_eq:
  "transaction m db h =
     (case m db (h @ [Begin_xact]) of
        (Raise e, es) \<Rightarrow> (Raise e, Begin_xact # es)
      | (Value x, es) \<Rightarrow> (Value x, Begin_xact # es @ [Commit_xact]))"
  by (auto simp: transaction_def pg_bind_def split: prod.splits pg_result.splits)

lemma subtransaction_returns: "\<exists>r es. run_in_subtransaction f db h = (Value r, es)"
  by (auto simp: run_in_subtransaction_def split: prod.splits pg_result.splits sum.splits)

lemma transaction_sub_returns: "\<exists>r es. transaction (run_in_subtransaction f) db h = (Value r, es)"
  using subtransaction_returns [of f db "h @ [Begin_xact]"] by (auto simp: transaction_eq)

lemma role_text_safe: "list_all (\<lambda>c. is_ascii_alphanumeric c \<or> c = CHR ''_'') (effective_role pg_role)"
proof -
  have "list_all (\<lambda>c. is_ascii_alphanumeric c \<or> c = CHR ''_'') hex" if "list_all is_ascii_hexdigit hex" for hex
    using that by (auto simp: list_all_iff string_ops)
  then show ?thesis
    by (auto simp: effective_role_def valid_pg_role_def strip_prefix_Some_iff string_ops
        split: option.splits)
qed

text \<open>Events of a preamble: only its own statements.\<close>

lemma and_event:
  "ev \<in> set (snd (pg_and a b db h)) \<Longrightarrow> ev \<in> set (snd (a db h)) \<or> (\<exists>h'. ev \<in> set (snd (b db h')))"
proof (cases "a db h")
  case (Pair r es)
  assume "ev \<in> set (snd (pg_and a b db h))"
  then have "ev \<in> set es \<or> ev \<in> set (snd (b db (h @ es)))"
    using Pair by (auto simp: pg_and_def pg_bind_def split: prod.splits pg_result.splits if_splits)
  with Pair show ?thesis by auto
qed

lemma run_ok_event: "ev \<in> set (snd (spi_run_ok q args db h)) \<Longrightarrow> \<exists>r. ev = Spi q args r"
  by (cases rule: spi_run_ok_cases [of q args db h]) auto

lemma drop_event:
  "ev \<in> set (snd (drop_privileges dp db h)) \<Longrightarrow>
     (\<exists>r. ev = Spi assume_worker_role [] r) \<or> (\<exists>w args. ev = Warned w args \<and>
        w \<in> {''Allgres: assume_worker_role() reports the worker role is not ready'',
           ''Allgres: assume_worker_role() returned no result'', ''Allgres: assume_worker_role() failed: {}''})"
  by (cases rule: drop_privileges_cases [of dp db h]) auto

definition drop_events :: "string option \<Rightarrow> pg_event list" where
  "drop_events dp = (if dp = Some ''0'' then [] else [Spi assume_worker_role [] (Returned (Some (JBool True)))])"

lemma drop_True: "drop_privileges dp db h = (Value True, es) \<Longrightarrow> es = drop_events dp"
  by (cases rule: drop_privileges_cases [of dp db h]) (auto simp: drop_events_def)

definition sandbox_preamble :: "string option \<Rightarrow> string \<Rightarrow> string \<Rightarrow> bool pg" where
  "sandbox_preamble dp role agent_id =
     pg_and (drop_privileges dp)
    (pg_and (spi_run_ok (set_role_sql role) [])
    (pg_and (spi_run_ok set_search_path_sql [])
    (pg_and (spi_run_ok set_read_only_sql [])
    (pg_and (spi_run_ok (set_timeout_sql SQL_STATEMENT_TIMEOUT_MS) [])
            (spi_run_ok set_agent_sql [AText agent_id])))))"

lemma preamble_not_run:
  "Spi run_sql args r \<notin> set (snd (sandbox_preamble dp role agent_id db h))"
proof
  assume "Spi run_sql args r \<in> set (snd (sandbox_preamble dp role agent_id db h))"
  then have "run_sql \<in> {assume_worker_role, set_role_sql role, set_search_path_sql, set_read_only_sql,
      set_timeout_sql SQL_STATEMENT_TIMEOUT_MS, set_agent_sql}"
    unfolding sandbox_preamble_def by (fast dest!: and_event run_ok_event drop_event)
  then show False
    by (simp add: run_sql_def assume_worker_role_def set_role_sql_def set_search_path_sql_def
        set_read_only_sql_def set_timeout_sql_def set_agent_sql_def)
qed

lemma preamble_True:
  assumes "sandbox_preamble dp role agent_id db h = (Value True, es)"
  shows "\<exists>a b c d e. es = drop_events dp @
    [Spi (set_role_sql role) [] (Returned a), Spi set_search_path_sql [] (Returned b),
     Spi set_read_only_sql [] (Returned c),
     Spi (set_timeout_sql SQL_STATEMENT_TIMEOUT_MS) [] (Returned d),
     Spi set_agent_sql [AText agent_id] (Returned e)]"
  using assms unfolding sandbox_preamble_def
  by (auto simp: and_True_iff spi_run_ok_True_iff dest!: drop_True)

lemma sandbox_body_eq:
  "sandbox_body dp role agent_id sql db h =
     (case sandbox_preamble dp role agent_id db h of
        (Raise e, es) \<Rightarrow> (Raise e, es)
      | (Value False, es) \<Rightarrow> (Value (Inl ''sandbox role unavailable''), es)
      | (Value True, es) \<Rightarrow>
          (case db (h @ es @ [Timer_on SQL_STATEMENT_TIMEOUT_MS]) run_sql [AText sql] of
             Raised e \<Rightarrow> (Raise e, es @ [Timer_on SQL_STATEMENT_TIMEOUT_MS, Spi run_sql [AText sql] (Raised e)])
           | Failed e \<Rightarrow> (Value (Inl e),
               es @ [Timer_on SQL_STATEMENT_TIMEOUT_MS, Spi run_sql [AText sql] (Failed e), Timer_off])
           | Returned None \<Rightarrow> (Value (Inl ''sandboxed execution returned nothing''),
               es @ [Timer_on SQL_STATEMENT_TIMEOUT_MS, Spi run_sql [AText sql] (Returned None), Timer_off])
           | Returned (Some v) \<Rightarrow> (Value (Inr v),
               es @ [Timer_on SQL_STATEMENT_TIMEOUT_MS, Spi run_sql [AText sql] (Returned (Some v)), Timer_off])))"
  by (cases "sandbox_preamble dp role agent_id db h")
    (auto simp: sandbox_body_def pg_bind_def spi_def Let_def pg_return_def pg_emit_def
      simp flip: sandbox_preamble_def split: prod.splits pg_result.splits spi_response.splits option.splits)

lemma run_sandboxed_sql_events:
  assumes "run_sandboxed_sql dp agent_id sql pg_role db h = (r, es)"
  shows "\<exists>out bes tail. sandbox_body dp (effective_role pg_role) agent_id sql db (h @ [Begin_xact, Begin_sub]) = (out, bes)
    \<and> es = [Begin_xact, Begin_sub] @ bes @ tail
    \<and> tail = (case out of Raise _ \<Rightarrow> [Rollback_sub, Commit_xact] | Value (Inr _) \<Rightarrow> [Release_sub, Commit_xact]
        | Value (Inl _) \<Rightarrow> [Commit_xact])"
  using assms
  by (auto simp: run_sandboxed_sql_def transaction_eq run_in_subtransaction_def Let_def
      split: prod.splits pg_result.splits sum.splits)

section \<open>Properties\<close>

text \<open>C2: an agent's statement only ever runs restricted. Whatever the server answers, if the statement is
  executed at all then everything before it in the same transaction is exactly: the subtransaction,
  the privilege drop (unless switched off by configuration), a successful switch to the agent's own role
  or \<open>sandbox\<close> (a name of letters, digits and underscores only), the empty search path, read-only mode, the statement timeout, the agent's identity, and
  the armed timer.\<close>

theorem sandbox_runs_restricted:
  assumes "run_sandboxed_sql dp agent_id sql pg_role db h = (r, es)" and "Spi run_sql args x \<in> set es"
  shows "\<exists>a b c d e tail. es = [Begin_xact, Begin_sub] @ drop_events dp @
    [Spi (set_role_sql (effective_role pg_role)) [] (Returned a), Spi set_search_path_sql [] (Returned b),
     Spi set_read_only_sql [] (Returned c),
     Spi (set_timeout_sql SQL_STATEMENT_TIMEOUT_MS) [] (Returned d),
     Spi set_agent_sql [AText agent_id] (Returned e), Timer_on SQL_STATEMENT_TIMEOUT_MS,
     Spi run_sql [AText sql] x] @ tail
    \<and> list_all (\<lambda>c. is_ascii_alphanumeric c \<or> c = CHR ''_'') (effective_role pg_role)"
proof -
  let ?role = "effective_role pg_role" and ?h = "h @ [Begin_xact, Begin_sub]"
  obtain out bes tail where body: "sandbox_body dp ?role agent_id sql db ?h = (out, bes)"
    and es: "es = [Begin_xact, Begin_sub] @ bes @ tail"
    and tail: "\<forall>q a y. Spi q a y \<notin> set tail"
    using run_sandboxed_sql_events [OF assms(1)]
    by (fastforce split: pg_result.splits sum.splits)
  obtain ok pes where pre: "sandbox_preamble dp ?role agent_id db ?h = (ok, pes)" by force
  have "Spi run_sql args x \<in> set bes" using assms(2) es tail by auto
  moreover have "Spi run_sql args x \<notin> set pes" using preamble_not_run [of args x dp ?role agent_id db ?h] pre by simp
  ultimately have ok: "ok = Value True" and "\<exists>rest. bes = pes @ [Timer_on SQL_STATEMENT_TIMEOUT_MS, Spi run_sql [AText sql] x] @ rest"
    using body pre by (auto simp: sandbox_body_eq split: pg_result.splits bool.splits spi_response.splits option.splits)
  then obtain rest where bes: "bes = pes @ [Timer_on SQL_STATEMENT_TIMEOUT_MS, Spi run_sql [AText sql] x] @ rest" by blast
  from preamble_True [OF pre [unfolded ok]] obtain a b c d e where "pes = drop_events dp @
    [Spi (set_role_sql ?role) [] (Returned a), Spi set_search_path_sql [] (Returned b),
     Spi set_read_only_sql [] (Returned c),
     Spi (set_timeout_sql SQL_STATEMENT_TIMEOUT_MS) [] (Returned d),
     Spi set_agent_sql [AText agent_id] (Returned e)]" by blast
  with es bes role_text_safe show ?thesis by auto
qed

text \<open>A server on which every statement succeeds and the privilege drop lands.\<close>

definition willing_db :: pg_db where
  "willing_db h q args =
     Returned (Some (if q = assume_worker_role then JBool True else json_object [(''ok'', JBool True)]))"

theorem sandbox_runs_restricted_witness:
  "\<exists>tail. snd (run_sandboxed_sql None ''a'' ''SELECT 1'' None willing_db []) =
     [Begin_xact, Begin_sub, Spi assume_worker_role [] (Returned (Some (JBool True)))] @ tail"
proof -
  obtain r es where run: "run_sandboxed_sql None ''a'' ''SELECT 1'' None willing_db [] = (r, es)" by force
  have "Spi run_sql [AText ''SELECT 1''] (Returned (Some (json_object [(''ok'', JBool True)]))) \<in> set es"
    using run
    by (auto simp: run_sandboxed_sql_def transaction_eq run_in_subtransaction_def sandbox_body_eq
        sandbox_preamble_def pg_and_def pg_bind_def spi_run_ok_def spi_def is_ok_def drop_privileges_def
        willing_db_def run_sql_def assume_worker_role_def set_role_sql_def set_search_path_sql_def
        set_read_only_sql_def set_timeout_sql_def set_agent_sql_def Let_def)
  from sandbox_runs_restricted [OF run this] run show ?thesis by (auto simp: drop_events_def)
qed

subsection \<open>Errors of the closure\<close>

text \<open>How many internal subtransactions a stretch of events leaves open.\<close>

fun sub_depth :: "pg_event list \<Rightarrow> int" where
  "sub_depth [] = 0"
| "sub_depth (Begin_sub # es) = sub_depth es + 1"
| "sub_depth (Release_sub # es) = sub_depth es - 1"
| "sub_depth (Rollback_sub # es) = sub_depth es - 1"
| "sub_depth (_ # es) = sub_depth es"

lemma sub_depth_append: "sub_depth (a @ b) = sub_depth a + sub_depth b"
  by (induction a rule: sub_depth.induct) auto

text \<open>A subtransaction is ended when its closure succeeds and when it raises, and left open when the
  closure returns an error value of its own. The callers return such values (a role that is not
  available, a statement that returns nothing), so after one of them the session is one level deeper.\<close>

theorem error_value_leaves_subtransaction_open:
  assumes "f db (h @ [Begin_sub]) = (r, es)" and "sub_depth es = 0"
  shows "sub_depth (snd (run_in_subtransaction f db h)) =
    (case r of Value (Inl _) \<Rightarrow> 1 | _ \<Rightarrow> 0)"
  using assms by (auto simp: run_in_subtransaction_def sub_depth_append split: pg_result.splits sum.splits)

theorem error_value_leaves_subtransaction_open_witness:
  "sub_depth (snd (run_in_subtransaction (pg_return (Inl ''sandbox role unavailable'')) willing_db [])) = 1"
  using error_value_leaves_subtransaction_open
    [of "pg_return (Inl ''sandbox role unavailable'')" willing_db "[]" "Value (Inl ''sandbox role unavailable'')" "[]"]
  by simp

text \<open>When the statement itself raises, the timer armed for it is not disarmed: it is still running when the
  result is submitted.\<close>

lemma raise_leaves_timer_armed:
  assumes "run_sandboxed_sql dp agent_id sql pg_role db h = (r, es)"
    and "Spi run_sql args (Raised e) \<in> set es"
  shows "Timer_on SQL_STATEMENT_TIMEOUT_MS \<in> set es \<and> Timer_off \<notin> set es"
proof -
  let ?role = "effective_role pg_role" and ?h = "h @ [Begin_xact, Begin_sub]"
  obtain out bes tail where body: "sandbox_body dp ?role agent_id sql db ?h = (out, bes)"
    and es: "es = [Begin_xact, Begin_sub] @ bes @ tail" and tail: "set tail \<subseteq> {Rollback_sub, Release_sub, Commit_xact}"
    using run_sandboxed_sql_events [OF assms(1)] by (fastforce split: pg_result.splits sum.splits)
  obtain ok pes where pre: "sandbox_preamble dp ?role agent_id db ?h = (ok, pes)" by force
  have "Timer_off \<notin> set pes"
  proof
    assume "Timer_off \<in> set pes"
    then have "Timer_off \<in> set (snd (sandbox_preamble dp ?role agent_id db ?h))" using pre by simp
    then show False unfolding sandbox_preamble_def by (fast dest!: and_event run_ok_event drop_event)
  qed
  moreover have "Spi run_sql args (Raised e) \<notin> set pes"
    using preamble_not_run [of args "Raised e" dp ?role agent_id db ?h] pre by simp
  moreover have "Spi run_sql args (Raised e) \<in> set bes" using assms(2) es tail by auto
  ultimately show ?thesis
    using body pre es tail
    by (auto simp: sandbox_body_eq split: pg_result.splits bool.splits spi_response.splits option.splits)
qed

subsection \<open>The executor\<close>

lemma map_filter_Nil_iff: "List.map_filter f xs = [] \<longleftrightarrow> (\<forall>x \<in> set xs. f x = None)"
  by (induction xs) (auto simp: map_filter_ops split: option.splits)

lemma sandbox_body_event:
  assumes "ev \<in> set (snd (sandbox_body dp role agent_id sql db h))"
  shows "ev \<in> set (snd (sandbox_preamble dp role agent_id db h)) \<or> ev = Timer_off
    \<or> ev = Timer_on SQL_STATEMENT_TIMEOUT_MS \<or> (\<exists>r. ev = Spi run_sql [AText sql] r)"
  using assms
  by (auto simp: sandbox_body_eq split: prod.splits pg_result.splits bool.splits spi_response.splits option.splits)

lemma run_sandboxed_sql_silent:
  assumes "run_sandboxed_sql dp agent_id sql pg_role db h = (r, es)"
  shows "List.map_filter (accounts_for ''fn_complete_sql'' ''call '' complete_sql) es = []"
  unfolding map_filter_Nil_iff
proof
  fix ev assume ev: "ev \<in> set es"
  let ?role = "effective_role pg_role" and ?h = "h @ [Begin_xact, Begin_sub]"
  have "ev \<in> set (snd (sandbox_body dp ?role agent_id sql db ?h))
      \<or> ev \<in> {Begin_xact, Begin_sub, Rollback_sub, Release_sub, Commit_xact}"
    using run_sandboxed_sql_events [OF assms] ev by (fastforce split: pg_result.splits sum.splits)
  then have "ev \<in> set (snd (sandbox_preamble dp ?role agent_id db ?h))
      \<or> ev \<in> {Begin_xact, Begin_sub, Rollback_sub, Release_sub, Commit_xact, Timer_off, Timer_on SQL_STATEMENT_TIMEOUT_MS}
      \<or> (\<exists>r. ev = Spi run_sql [AText sql] r)"
    using sandbox_body_event by blast
  then show "accounts_for ''fn_complete_sql'' ''call '' complete_sql ev = None"
  proof (elim disjE)
    assume "ev \<in> set (snd (sandbox_preamble dp ?role agent_id db ?h))"
    then show ?thesis unfolding sandbox_preamble_def
      by (auto dest!: and_event run_ok_event drop_event simp: accounts_for_def skip_warning_def complete_sql_def set_agent_sql_def
          split: list.splits)
  qed (auto simp: accounts_for_def run_sql_def complete_sql_def)
qed

interpretation sql_exec: executor parse_sql_call sql_call_id "execute_sql_job dp" "submit_sql_result dp"
    "accounts_for ''fn_complete_sql'' ''call '' complete_sql" for dp
proof
  show "\<exists>out es. execute_sql_job dp job db h = (Value out, es)" for job db h
    using transaction_sub_returns by (simp add: execute_sql_job_def run_sandboxed_sql_def Let_def)
  show "List.map_filter (accounts_for ''fn_complete_sql'' ''call '' complete_sql) es = []"
    if "execute_sql_job dp job db h = (r, es)" for job db h r es
    using that run_sandboxed_sql_silent by (simp add: execute_sql_job_def)
  show "List.map_filter (accounts_for ''fn_complete_sql'' ''call '' complete_sql) es = [i]"
    if "submit_sql_result dp i out db h = (Value u, es)" for i out db h u es
    using that complete_call_once unfolding submit_sql_result_def
    by (fastforce simp: failed_warning_def skip_warning_def)
qed

text \<open>No claimed statement is lost or completed twice. When a pump turn returns, every claimed entry with
  well-formed identifiers has been accounted for exactly once, in the order of the claim, by its
  completion call or by the warning that it was skipped, and the turn reports their number.\<close>

theorem pump_sql_exactly_once:
  assumes "claim_sql_jobs dp SQL_CLAIM_LIMIT db h = (Value claimed, es0)"
    and "get_array claimed ''calls'' = Some calls"
    and "pump_sql dp db h = (Value n, es0 @ es)"
  shows "List.map_filter (accounts_for ''fn_complete_sql'' ''call '' complete_sql) es =
      map sql_call_id (List.map_filter parse_sql_call calls)
    \<and> n = length (List.map_filter parse_sql_call calls)"
  using assms unfolding pump_sql_def by (rule sql_exec.pump_accounts)

text \<open>A server with one queued statement.\<close>

definition sample_uuid :: string where
  "sample_uuid = ''00000000-0000-0000-0000-00000000000a''"

definition sample_sql_call :: json where
  "sample_sql_call = json_object [(''call_id'', JString sample_uuid), (''agent_id'', JString sample_uuid),
     (''sql'', JString ''SELECT 1'')]"

definition one_call_db :: pg_db where
  "one_call_db h q args =
     (if q = ''SELECT allgres_public.fn_claim_sql($1)''
      then Returned (Some (json_object [(''calls'', JArray [sample_sql_call])]))
      else willing_db h q args)"

lemma sample_call_parses:
  "parse_sql_call sample_sql_call =
     Some \<lparr>sql_call_id = sample_uuid, sql_agent_id = sample_uuid, sql_text = ''SELECT 1'', sql_role = None\<rparr>"
proof -
  have "valid_uuid sample_uuid" by code_simp
  then show ?thesis
    by (simp add: parse_sql_call_def sample_sql_call_def get_str_def json_get_object as_str_def)
qed

theorem pump_sql_exactly_once_witness:
  "\<exists>es0 es. pump_sql None one_call_db [] = (Value 1, es0 @ es) \<and>
     List.map_filter (accounts_for ''fn_complete_sql'' ''call '' complete_sql) es = [sample_uuid]"
proof -
  obtain es0 where claim: "claim_sql_jobs None SQL_CLAIM_LIMIT one_call_db [] =
      (Value (json_object [(''calls'', JArray [sample_sql_call])]), es0)"
    by (simp add: claim_sql_jobs_def claim_jobs_def transaction_eq pg_bind_def drop_privileges_def spi_def
        one_call_db_def willing_db_def assume_worker_role_def ok_flatten_def Let_def)
  have calls: "get_array (json_object [(''calls'', JArray [sample_sql_call])]) ''calls'' = Some [sample_sql_call]"
    by (simp add: get_array_def json_get_object as_array_def)
  have "\<exists>es. submit_sql_result None i out one_call_db h' = (Value (), es)" for i out h'
    by (simp add: submit_sql_result_def complete_call_def transaction_eq pg_bind_def drop_privileges_def spi_def
        one_call_db_def willing_db_def assume_worker_role_def complete_sql_def Let_def)
  from sql_exec.pump_returns [where claim = "claim_sql_jobs None SQL_CLAIM_LIMIT", OF this claim calls] obtain n es
    where pump: "pump_sql None one_call_db [] = (Value n, es0 @ es)" unfolding pump_sql_def by blast
  with pump_sql_exactly_once [OF claim calls pump]
  have "pump_sql None one_call_db [] = (Value 1, es0 @ es)"
    "List.map_filter (accounts_for ''fn_complete_sql'' ''call '' complete_sql) es = [sample_uuid]"
    by (simp_all add: sample_call_parses map_filter_ops)
  then show ?thesis by blast
qed

end
