(* ===== verification/Function_Exec.thy ===== *)
theory Function_Exec
  imports Sandbox
begin

text \<open>
  \<open>src/function_exec.rs\<close>: building an agent-written PL/pgSQL function as \<open>allgres_function_admin\<close> and calling
  a built one as the agent's own role. The build wraps the body in dollar quotes under a tag that does
  not occur in it; the clock that seeds the tag is a function of the session's history.
\<close>

section \<open>Definitions\<close>

definition valid_sql_ident :: "string \<Rightarrow> string \<Rightarrow> bool" where
  "valid_sql_ident s p =
     (case strip_prefix s p of
        None \<Rightarrow> False
      | Some hex \<Rightarrow> length hex = 32 \<and> list_all is_ascii_hexdigit hex)"

definition claim_function_build_jobs :: "string option \<Rightarrow> int \<Rightarrow> json pg" where
  "claim_function_build_jobs dp limit =
     claim_jobs dp ''SELECT allgres_public.fn_claim_function_builds($1)'' ''builds'' limit"

subsection \<open>Dollar quoting\<close>

definition dollar_delim :: "string \<Rightarrow> string" where
  "dollar_delim tag = ''$'' @ tag @ ''$''"

lemma contains_length: "str_contains s n \<Longrightarrow> length n \<le> length s"
  by (auto simp: str_contains_sublist sublist_def)

function dollar_tag :: "string \<Rightarrow> string \<Rightarrow> string" where
  "dollar_tag body tag =
     (if str_contains body (dollar_delim tag) then dollar_tag body (tag @ ''x'') else tag)"
  by pat_completeness auto
termination
  by (relation "measure (\<lambda>(body, tag). length body - length tag)")
    (auto dest!: contains_length simp: dollar_delim_def)

declare dollar_tag.simps [simp del]

definition newline :: char where
  "newline = CHR 0x0A"

definition dollar_quote :: "nat \<Rightarrow> string \<Rightarrow> string \<times> string" where
  "dollar_quote nanos body =
     (let tag = dollar_tag body (''body_'' @ nat_to_radix 16 nanos)
      in (tag, dollar_delim tag @ [newline] @ body @ [newline] @ dollar_delim tag))"

subsection \<open>Building\<close>

definition function_ddl :: "string \<Rightarrow> string \<Rightarrow> string" where
  "function_ddl sql_ident quoted_body =
     ''CREATE OR REPLACE FUNCTION allgres_functions.'' @ sql_ident @
     ''(p_args jsonb) RETURNS jsonb LANGUAGE plpgsql SECURITY INVOKER AS '' @ quoted_body @ '';''"

text \<open>The transaction shared with \<open>src/procedure_exec.rs\<close>: the DDL under the builder's role.\<close>

definition build_body :: "string option \<Rightarrow> string \<Rightarrow> (string + json) pg" where
  "build_body dp ddl =
     pg_bind (pg_and (drop_privileges dp) (spi_run_ok ''SET LOCAL ROLE allgres_function_admin'' []))
       (\<lambda>ok. if \<not> ok then pg_return (Inl ''allgres_function_admin role unavailable'')
             else pg_bind (spi ddl []) (\<lambda>r.
               pg_return (case r of Returned _ \<Rightarrow> Inr JNull | Failed e \<Rightarrow> Inl e | Raised e \<Rightarrow> Inl e)))"

definition run_build :: "string option \<Rightarrow> string \<Rightarrow> (string + unit) pg" where
  "run_build dp ddl =
     pg_bind (transaction (run_in_subtransaction (build_body dp ddl)))
       (\<lambda>r. pg_return (case r of Inl e \<Rightarrow> Inl e | Inr _ \<Rightarrow> Inr ()))"

definition run_function_build ::
    "(pg_event list \<Rightarrow> nat) \<Rightarrow> string option \<Rightarrow> string \<Rightarrow> string \<Rightarrow> (string + unit) pg" where
  "run_function_build clock dp sql_ident body = (\<lambda>db h.
     if \<not> valid_sql_ident sql_ident ''fn_'' then (Value (Inl ''invalid sql_ident''), [])
     else
       let (tag, quoted_body) = dollar_quote (clock h) body
       in run_build dp (function_ddl sql_ident quoted_body) db h)"

definition build_result_args :: "string + unit \<Rightarrow> spi_arg list" where
  "build_result_args outcome =
     (case outcome of Inr _ \<Rightarrow> [ABool True, ANull] | Inl e \<Rightarrow> [ABool False, AText e])"

definition complete_function_build :: string where
  "complete_function_build = ''SELECT allgres_public.fn_complete_function_build($1::uuid, $2, $3)''"

definition submit_function_build_result :: "string option \<Rightarrow> string \<Rightarrow> string + unit \<Rightarrow> unit pg" where
  "submit_function_build_result dp function_id outcome =
     complete_call dp ''fn_complete_function_build'' [] complete_function_build function_id
       (build_result_args outcome)"

record build_job =
  build_id :: string
  build_ident :: string
  build_text :: string

definition parse_build :: "string \<Rightarrow> json \<Rightarrow> build_job option" where
  "parse_build id_key b =
     (case (get_str b id_key, get_str b ''sql_ident'', get_str b ''body'') of
        (Some i, Some sql_ident, Some body) \<Rightarrow>
          if \<not> valid_uuid i then None
          else Some \<lparr>build_id = i, build_ident = sql_ident, build_text = body\<rparr>
      | _ \<Rightarrow> None)"

definition pump_function_builds :: "(pg_event list \<Rightarrow> nat) \<Rightarrow> string option \<Rightarrow> nat pg" where
  "pump_function_builds clock dp =
     pump_claimed (claim_function_build_jobs dp SQL_CLAIM_LIMIT) ''builds''
       (pump_step (parse_build ''function_id'') build_id
         (\<lambda>job. run_function_build clock dp (build_ident job) (build_text job))
         (submit_function_build_result dp))"

subsection \<open>Calling\<close>

definition claim_function_call_jobs :: "string option \<Rightarrow> int \<Rightarrow> json pg" where
  "claim_function_call_jobs dp limit =
     claim_jobs dp ''SELECT allgres_public.fn_claim_function_calls($1)'' ''calls'' limit"

text \<open>The closure shared with \<open>src/procedure_exec.rs\<close>: role, search path, timeout, armed timer, the call.\<close>

definition call_preamble :: "string option \<Rightarrow> string \<Rightarrow> int \<Rightarrow> bool pg" where
  "call_preamble dp role timeout_ms =
     pg_and (drop_privileges dp)
    (pg_and (spi_run_ok (set_role_sql role) [])
    (pg_and (spi_run_ok set_search_path_sql [])
            (spi_run_ok (set_timeout_sql timeout_ms) [])))"

definition call_body ::
    "string option \<Rightarrow> string \<Rightarrow> int \<Rightarrow> string \<Rightarrow> string \<Rightarrow> json \<Rightarrow> (string + json) pg" where
  "call_body dp role timeout_ms unavailable q args =
     pg_bind (call_preamble dp role timeout_ms) (\<lambda>dropped.
       if \<not> dropped then pg_return (Inl unavailable)
       else
         pg_bind (pg_emit (Timer_on timeout_ms)) (\<lambda>_.
         pg_bind (spi q [AJsonb args]) (\<lambda>r.
         pg_bind (pg_emit Timer_off) (\<lambda>_.
           pg_return (case r of
             Returned (Some v) \<Rightarrow> Inr v
           | Returned None \<Rightarrow> Inr JNull
           | Failed e \<Rightarrow> Inl e
           | Raised e \<Rightarrow> Inl e)))))"

definition function_call_sql :: "string \<Rightarrow> string" where
  "function_call_sql sql_ident = ''SELECT allgres_functions.'' @ sql_ident @ ''($1::jsonb)''"

definition run_function_call ::
    "string option \<Rightarrow> string \<Rightarrow> json \<Rightarrow> string option \<Rightarrow> (string + json) pg" where
  "run_function_call dp sql_ident args pg_role =
     (if \<not> valid_sql_ident sql_ident ''fn_'' then pg_return (Inl ''invalid sql_ident'')
      else transaction (run_in_subtransaction
        (call_body dp (effective_role pg_role) SQL_STATEMENT_TIMEOUT_MS ''function role unavailable''
          (function_call_sql sql_ident) args)))"

definition call_result_args :: "string + json \<Rightarrow> spi_arg list" where
  "call_result_args outcome =
     (case outcome of
        Inr v \<Rightarrow> [ABool True, AJsonb v, ANull]
      | Inl e \<Rightarrow> [ABool False, ANull, AText e])"

definition complete_function_call :: string where
  "complete_function_call = ''SELECT allgres_public.fn_complete_function_call($1::uuid, $2, $3, $4)''"

definition submit_function_call_result :: "string option \<Rightarrow> string \<Rightarrow> string + json \<Rightarrow> unit pg" where
  "submit_function_call_result dp call_id outcome =
     complete_call dp ''fn_complete_function_call'' ''call '' complete_function_call call_id
       (call_result_args outcome)"

record call_job =
  call_job_id :: string
  call_ident :: string
  call_args :: json
  call_role :: "string option"

definition parse_call :: "json \<Rightarrow> call_job option" where
  "parse_call call =
     (case (get_str call ''call_id'', get_str call ''sql_ident'') of
        (Some call_id, Some sql_ident) \<Rightarrow>
          if \<not> valid_uuid call_id then None
          else Some \<lparr>call_job_id = call_id, call_ident = sql_ident,
                     call_args = (case json_get call ''args'' of None \<Rightarrow> json_object [] | Some a \<Rightarrow> a),
                     call_role = get_str call ''pg_role''\<rparr>
      | _ \<Rightarrow> None)"

definition pump_function_calls :: "string option \<Rightarrow> nat pg" where
  "pump_function_calls dp =
     pump_claimed (claim_function_call_jobs dp SQL_CLAIM_LIMIT) ''calls''
       (pump_step parse_call call_job_id
         (\<lambda>job. run_function_call dp (call_ident job) (call_args job) (call_role job))
         (submit_function_call_result dp))"


section \<open>Lemmas\<close>

lemma dollar_tag_not_in: "\<not> str_contains body (dollar_delim (dollar_tag body tag))"
proof (induction body tag rule: dollar_tag.induct)
  case (1 body tag)
  then show ?case by (cases "str_contains body (dollar_delim tag)") (simp_all add: dollar_tag.simps [of body tag])
qed

lemma dollar_tag_extends: "\<exists>n. dollar_tag body tag = tag @ replicate n (CHR ''x'')"
proof (induction body tag rule: dollar_tag.induct)
  case (1 body tag)
  show ?case
  proof (cases "str_contains body (dollar_delim tag)")
    case True
    with 1 obtain n where "dollar_tag body (tag @ ''x'') = (tag @ ''x'') @ replicate n (CHR ''x'')" by blast
    with True show ?thesis
      by (intro exI [of _ "Suc n"]) (simp add: dollar_tag.simps [of body tag] replicate_app_Cons_same)
  next
    case False
    then show ?thesis by (intro exI [of _ 0]) (simp add: dollar_tag.simps [of body tag])
  qed
qed

subsection \<open>Reading a dollar-quoted constant\<close>

text \<open>PostgreSQL's rule: an opening delimiter \<open>$tag$\<close> whose tag is an identifier without a dollar sign, then
  everything up to the first occurrence of the same delimiter, with no escapes.\<close>

definition tag_char :: "char \<Rightarrow> bool" where
  "tag_char c \<longleftrightarrow> is_ascii_alphanumeric c \<or> c = CHR ''_''"

definition dollar_read :: "string \<Rightarrow> (string \<times> string) option" where
  "dollar_read s =
     (case s of
        [] \<Rightarrow> None
      | c # t \<Rightarrow>
          if c \<noteq> CHR ''$'' then None
          else
            let tag = takeWhile tag_char t; rest = drop (length tag) t in
            if rest = [] \<or> hd rest \<noteq> CHR ''$'' \<or> (tag \<noteq> [] \<and> is_ascii_digit (hd tag)) then None
            else (case str_find (dollar_delim tag) (tl rest) of
                    None \<Rightarrow> None
                  | Some p \<Rightarrow> Some (take p (tl rest), drop (p + length (dollar_delim tag)) (tl rest))))"

lemma hex_digits_tag: "list_all tag_char (nat_to_radix 16 n)"
proof -
  have "set (nat_to_radix 16 n) \<subseteq> hex_digit ` {..<16}" by (rule nat_to_radix_digits) simp_all
  moreover have "tag_char (hex_digit d)" if "d < 16" for d
    using byte_hex_digit [OF that] that by (auto simp: tag_char_def string_ops)
  ultimately show ?thesis by (fastforce simp: list_all_iff)
qed

lemma tag_char_simps [simp]: "\<not> tag_char (CHR ''$'')" "\<not> tag_char newline"
  by (simp_all add: tag_char_def string_ops newline_def)

text \<open>A delimiter holds no newline, so it cannot straddle the line break before the closing one.\<close>

lemma find_delim_after_body:
  assumes nl: "newline \<notin> set d" and d: "d \<noteq> []" and fresh: "\<not> sublist d body"
  shows "str_find d ([newline] @ body @ [newline] @ d @ rest) = Some (length body + 2)"
proof (rule str_find_eqI)
  let ?s = "[newline] @ body @ [newline] @ d @ rest"
  show "prefix d (drop (length body + 2) ?s)" by simp
  show "length body + 2 \<le> length ?s" by simp
  show "\<not> prefix d (drop r ?s)" if r: "r < length body + 2" for r
  proof
    assume "prefix d (drop r ?s)"
    then obtain z where z: "drop r ?s = d @ z" by (auto simp: prefix_def)
    have le: "r \<le> length ?s" using r by simp
    have at: "?s ! (r + i) = d ! i" if "i < length d" for i
    proof -
      have "?s ! (r + i) = drop r ?s ! i" by (rule nth_drop [OF le, symmetric])
      also have "\<dots> = d ! i" unfolding z using that by (simp add: nth_append)
      finally show ?thesis .
    qed
    have no_nl: "?s ! (r + i) \<noteq> newline" if "i < length d" for i
      using at [OF that] that nl by (metis nth_mem)
    have "r \<noteq> 0" using no_nl [of 0] d by (cases r) auto
    then obtain r' where r': "r = Suc r'" by (cases r) auto
    have "\<not> length body + 1 - r < length d"
      using no_nl [of "length body + 1 - r"] r by (auto simp: nth_append)
    then have fit: "r' + length d \<le> length body" using r r' by auto
    have "drop r' (body @ [newline] @ d @ rest) = d @ z" using z r' by simp
    then have "take (length d) (drop r' (body @ [newline] @ d @ rest)) = d" by simp
    then have "take (length d) (drop r' body) = d" using fit by simp
    then have "body = take r' body @ d @ drop (length d) (drop r' body)" by (metis append_take_drop_id)
    with fresh show False by (metis sublist_appendI)
  qed
qed

lemma dollar_read_delim:
  assumes "list_all tag_char tag" "tag \<noteq> []" "\<not> is_ascii_digit (hd tag)"
  shows "dollar_read (dollar_delim tag @ inner) =
    map_option (\<lambda>p. (take p inner, drop (p + length (dollar_delim tag)) inner))
      (str_find (dollar_delim tag) inner)"
proof -
  have "takeWhile tag_char (tag @ CHR ''$'' # inner) = tag"
    using assms(1) by (subst takeWhile_append2) (auto simp: list_all_iff)
  with assms(2,3) show ?thesis
    by (simp add: dollar_read_def dollar_delim_def [of tag, THEN arg_cong, of "\<lambda>d. d @ inner"] Let_def
        split: option.split)
qed

lemma dollar_read_quote:
  "dollar_read (snd (dollar_quote nanos body) @ rest) = Some ([newline] @ body @ [newline], rest)"
proof -
  define tag where "tag = dollar_tag body (''body_'' @ nat_to_radix 16 nanos)"
  obtain n where tag: "tag = ''body_'' @ nat_to_radix 16 nanos @ replicate n (CHR ''x'')"
    using dollar_tag_extends [of body "''body_'' @ nat_to_radix 16 nanos"] by (auto simp: tag_def)
  have chars: "list_all tag_char tag" unfolding tag
    using hex_digits_tag by (auto simp: tag_char_def string_ops list_all_iff)
  then have nl: "newline \<notin> set (dollar_delim tag)"
    by (auto simp: dollar_delim_def list_all_iff newline_def tag_char_def string_ops)
  have first: "tag \<noteq> []" "\<not> is_ascii_digit (hd tag)" by (simp_all add: tag string_ops)
  have "\<not> sublist (dollar_delim tag) body"
    using dollar_tag_not_in [of body] by (simp add: tag_def str_contains_sublist)
  then have "str_find (dollar_delim tag) ([newline] @ body @ [newline] @ dollar_delim tag @ rest) = Some (length body + 2)"
    using nl by (intro find_delim_after_body) (auto simp: dollar_delim_def)
  moreover have "snd (dollar_quote nanos body) @ rest =
      dollar_delim tag @ ([newline] @ body @ [newline] @ dollar_delim tag @ rest)"
    by (simp add: dollar_quote_def Let_def tag_def)
  moreover have "length (dollar_delim tag @ rest) = length (dollar_delim tag) + length rest" by simp
  ultimately show ?thesis
    unfolding \<open>snd (dollar_quote nanos body) @ rest = _\<close> dollar_read_delim [OF chars first] by simp
qed

section \<open>Properties\<close>

text \<open>C12: a function body cannot break out of its quotes. Whatever text an agent submits as the body and
  whatever the clock says, reading the quoted constant back by PostgreSQL's rule gives exactly that body
  between two line breaks, and leaves exactly what the statement puts after the quotes.\<close>

theorem dollar_quote_roundtrip:
  "dollar_read (snd (dollar_quote nanos body) @ rest) = Some ([newline] @ body @ [newline], rest)"
  by (rule dollar_read_quote)

subsection \<open>Restricted calls\<close>

lemma call_preamble_True:
  assumes "call_preamble dp role ms db h = (Value True, es)"
  shows "\<exists>a b c. es = drop_events dp @
    [Spi (set_role_sql role) [] (Returned a), Spi set_search_path_sql [] (Returned b),
     Spi (set_timeout_sql ms) [] (Returned c)]"
  using assms unfolding call_preamble_def
  by (auto simp: and_True_iff spi_run_ok_True_iff dest!: drop_True)

lemma call_preamble_event:
  assumes "ev \<in> set (snd (call_preamble dp role ms db h))"
  shows "(\<exists>q r. ev = Spi q [] r) \<or> (\<exists>w args. ev = Warned w args \<and>
        w \<in> {''Allgres: assume_worker_role() reports the worker role is not ready'',
           ''Allgres: assume_worker_role() returned no result'', ''Allgres: assume_worker_role() failed: {}''})"
  using assms unfolding call_preamble_def by (fast dest!: and_event run_ok_event drop_event)

lemma call_body_cases:
  assumes "call_body dp role ms unavailable q args db h = (out, es)"
  obtains (refused) "call_preamble dp role ms db h = (Value False, es)" "out = Value (Inl unavailable)"
    | (unwound) e where "call_preamble dp role ms db h = (Raise e, es)" "out = Raise e"
    | (raised) pes e where "call_preamble dp role ms db h = (Value True, pes)" "out = Raise e"
        "es = pes @ [Timer_on ms, Spi q [AJsonb args] (Raised e)]"
    | (ran) pes r where "call_preamble dp role ms db h = (Value True, pes)" "\<forall>e. r \<noteq> Raised e"
        "es = pes @ [Timer_on ms, Spi q [AJsonb args] r, Timer_off]"
        "out = Value (case r of Returned (Some v) \<Rightarrow> Inr v | Returned None \<Rightarrow> Inr JNull | Failed e \<Rightarrow> Inl e | Raised e \<Rightarrow> Inl e)"
proof -
  obtain ok pes where pre: "call_preamble dp role ms db h = (ok, pes)" by force
  show ?thesis
  proof (cases "ok = Value True")
    case False
    with pre assms refused unwound show ?thesis
      by (cases ok) (auto simp: call_body_def pg_bind_def)
  next
    case True
    let ?r = "db (h @ pes @ [Timer_on ms]) q [AJsonb args]"
    show ?thesis
    proof (cases "\<exists>e. ?r = Raised e")
      case True
      with \<open>ok = Value True\<close> pre assms raised show ?thesis
        by (auto simp: call_body_def pg_bind_def spi_def Let_def)
    next
      case False
      with \<open>ok = Value True\<close> pre assms ran [of pes ?r] show ?thesis
        by (cases ?r) (auto simp: call_body_def pg_bind_def spi_def Let_def)
    qed
  qed
qed

lemma call_body_event:
  assumes "ev \<in> set (snd (call_body dp role ms unavailable q args db h))"
  shows "ev \<in> set (snd (call_preamble dp role ms db h)) \<or> ev \<in> {Timer_on ms, Timer_off}
    \<or> (\<exists>r. ev = Spi q [AJsonb args] r)"
proof -
  obtain out es where body: "call_body dp role ms unavailable q args db h = (out, es)" by force
  with assms have ev: "ev \<in> set es" by simp
  from body show ?thesis by (cases rule: call_body_cases) (use ev in auto)
qed

lemma transaction_sub_event:
  "ev \<in> set (snd (transaction (run_in_subtransaction f) db h)) \<Longrightarrow>
     ev \<in> set (snd (f db (h @ [Begin_xact, Begin_sub])))
     \<or> ev \<in> {Begin_xact, Begin_sub, Rollback_sub, Release_sub, Commit_xact}"
  by (auto simp: transaction_eq run_in_subtransaction_def split: prod.splits pg_result.splits sum.splits)

text \<open>Everything before an agent's call, for functions and procedures alike.\<close>

lemma agent_call_restricted:
  assumes "transaction (run_in_subtransaction (call_body dp role ms unavailable q args)) db h = (r, es)"
    and "Spi q [AJsonb args] x \<in> set es"
  shows "\<exists>a b c tail. es = [Begin_xact, Begin_sub] @ drop_events dp @
    [Spi (set_role_sql role) [] (Returned a), Spi set_search_path_sql [] (Returned b),
     Spi (set_timeout_sql ms) [] (Returned c), Timer_on ms, Spi q [AJsonb args] x] @ tail"
proof -
  let ?h = "h @ [Begin_xact, Begin_sub]"
  obtain out bes where body: "call_body dp role ms unavailable q args db ?h = (out, bes)" by force
  with assms(1) obtain tail where es: "es = [Begin_xact, Begin_sub] @ bes @ tail"
    and tail: "set tail \<subseteq> {Rollback_sub, Release_sub, Commit_xact}"
    by (auto simp: transaction_eq run_in_subtransaction_def split: pg_result.splits sum.splits)
  have x: "Spi q [AJsonb args] x \<in> set bes" using assms(2) es tail by auto
  have pre: "Spi q [AJsonb args] x \<notin> set pes" if "call_preamble dp role ms db ?h = (ok, pes)" for ok pes
    using call_preamble_event [of "Spi q [AJsonb args] x" dp role ms db ?h] that by auto
  from body obtain pes rest where "call_preamble dp role ms db ?h = (Value True, pes)"
    "bes = pes @ [Timer_on ms, Spi q [AJsonb args] x] @ rest"
  proof (cases rule: call_body_cases)
    case (raised pes e)
    with x pre that show thesis by auto
  next
    case (ran pes r)
    with x pre that show thesis by auto
  qed (use x pre in auto)
  with call_preamble_True [of dp role ms db ?h pes] es show ?thesis by auto
qed

subsection \<open>The executors\<close>

lemma accounts_role_warning:
  "w \<in> {''Allgres: assume_worker_role() reports the worker role is not ready'',
     ''Allgres: assume_worker_role() returned no result'', ''Allgres: assume_worker_role() failed: {}''} \<Longrightarrow>
   accounts_for fn noun q (Warned w args) = None"
  using skip_warning_not_role_warning [of fn noun] by (auto simp: accounts_for_def split: list.splits)

lemma call_silent:
  assumes "transaction (run_in_subtransaction (call_body dp role ms unavailable q args)) db h = (r, es)"
  shows "List.map_filter (accounts_for fn noun q') es = []"
  unfolding map_filter_Nil_iff
proof
  fix ev assume "ev \<in> set es"
  with assms transaction_sub_event [of ev "call_body dp role ms unavailable q args" db h]
  show "accounts_for fn noun q' ev = None"
    by (auto dest!: call_body_event call_preamble_event simp: accounts_role_warning)
      (auto simp: accounts_for_def)
qed

lemma build_silent:
  assumes "run_build dp ddl db h = (r, es)"
  shows "List.map_filter (accounts_for fn noun q) es = []"
proof -
  have "accounts_for fn noun q ev = None" if "ev \<in> set (snd (build_body dp ddl db h'))" for ev h'
  proof -
    have "ev \<in> set (snd (pg_and (drop_privileges dp) (spi_run_ok ''SET LOCAL ROLE allgres_function_admin'' []) db h'))
        \<or> (\<exists>r. ev = Spi ddl [] r)"
      using that
      by (auto simp: build_body_def pg_bind_def spi_def Let_def split: prod.splits pg_result.splits if_splits)
    then show ?thesis by (auto dest!: and_event run_ok_event drop_event simp: accounts_role_warning)
  qed
  moreover obtain r' es' where t: "transaction (run_in_subtransaction (build_body dp ddl)) db h = (Value r', es')"
    using transaction_sub_returns by blast
  moreover have "es = es'" using assms t by (simp add: run_build_def pg_bind_def)
  ultimately show ?thesis
    using transaction_sub_event [of _ "build_body dp ddl" db h]
    unfolding map_filter_Nil_iff by (metis accounts_for_other(1-5) empty_iff insert_iff snd_conv)
qed

lemma run_build_returns: "\<exists>r es. run_build dp ddl db h = (Value r, es)"
  using transaction_sub_returns [of "build_body dp ddl" db h] by (auto simp: run_build_def pg_bind_def)

lemma warnings_differ: "failed_warning fn noun \<noteq> skip_warning fn noun"
proof
  assume eq: "failed_warning fn noun = skip_warning fn noun"
  have "last (failed_warning fn noun) = CHR ''}''" "last (skip_warning fn noun) = CHR ''d''"
    by (simp_all add: failed_warning_def skip_warning_def)
  with eq show False by simp
qed

interpretation function_builds: executor "parse_build ''function_id''" build_id
    "\<lambda>job. run_function_build clock dp (build_ident job) (build_text job)"
    "submit_function_build_result dp"
    "accounts_for ''fn_complete_function_build'' [] complete_function_build" for clock dp
proof
  show "\<exists>out es. run_function_build clock dp (build_ident job) (build_text job) db h = (Value out, es)" for job db h
    using run_build_returns by (auto simp: run_function_build_def Let_def split_beta)
  show "List.map_filter (accounts_for ''fn_complete_function_build'' [] complete_function_build) es = []"
    if "run_function_build clock dp (build_ident job) (build_text job) db h = (r, es)" for job db h r es
    using that build_silent
    by (auto simp: run_function_build_def Let_def split_beta List.map_filter_simps split: if_splits)
  show "List.map_filter (accounts_for ''fn_complete_function_build'' [] complete_function_build) es = [i]"
    if "submit_function_build_result dp i out db h = (Value u, es)" for i out db h u es
    using complete_call_once [OF that [unfolded submit_function_build_result_def] warnings_differ] .
qed

interpretation function_calls: executor parse_call call_job_id
    "\<lambda>job. run_function_call dp (call_ident job) (call_args job) (call_role job)"
    "submit_function_call_result dp"
    "accounts_for ''fn_complete_function_call'' ''call '' complete_function_call" for dp
proof
  show "\<exists>out es. run_function_call dp (call_ident job) (call_args job) (call_role job) db h = (Value out, es)" for job db h
    using transaction_sub_returns by (auto simp: run_function_call_def)
  show "List.map_filter (accounts_for ''fn_complete_function_call'' ''call '' complete_function_call) es = []"
    if "run_function_call dp (call_ident job) (call_args job) (call_role job) db h = (r, es)" for job db h r es
    using that call_silent by (auto simp: run_function_call_def List.map_filter_simps split: if_splits)
  show "List.map_filter (accounts_for ''fn_complete_function_call'' ''call '' complete_function_call) es = [i]"
    if "submit_function_call_result dp i out db h = (Value u, es)" for i out db h u es
    using complete_call_once [OF that [unfolded submit_function_call_result_def] warnings_differ] .
qed

lemma valid_sql_ident_safe:
  assumes "valid_sql_ident s p" "list_all tag_char p"
  shows "list_all tag_char s"
proof -
  obtain hex where "s = p @ hex" "list_all is_ascii_hexdigit hex"
    using assms(1) by (auto simp: valid_sql_ident_def strip_prefix_Some_iff split: option.splits)
  moreover have "tag_char c" if "is_ascii_hexdigit c" for c
    using that by (auto simp: tag_char_def string_ops)
  ultimately show ?thesis using assms(2) by (auto simp: list_all_iff)
qed

text \<open>C14: a built function is only called as the agent. If the call statement is issued at all, its function
  name is \<open>fn_\<close> and 32 hexadecimal digits, the role is letters, digits and underscores, and everything before it in the transaction is exactly the
  subtransaction, the privilege drop, the successful switch to the agent's role or \<open>sandbox\<close>, the empty
  search path, the statement timeout and the armed timer.\<close>

theorem function_call_restricted:
  assumes "run_function_call dp sql_ident args pg_role db h = (r, es)"
    and "Spi (function_call_sql sql_ident) [AJsonb args] x \<in> set es"
  shows "(\<exists>hex. sql_ident = ''fn_'' @ hex \<and> length hex = 32 \<and> list_all is_ascii_hexdigit hex)
    \<and> list_all tag_char (effective_role pg_role) \<and>
    (\<exists>a b c tail. es = [Begin_xact, Begin_sub] @ drop_events dp @
      [Spi (set_role_sql (effective_role pg_role)) [] (Returned a), Spi set_search_path_sql [] (Returned b),
       Spi (set_timeout_sql SQL_STATEMENT_TIMEOUT_MS) [] (Returned c), Timer_on SQL_STATEMENT_TIMEOUT_MS,
       Spi (function_call_sql sql_ident) [AJsonb args] x] @ tail)"
proof -
  have valid: "valid_sql_ident sql_ident ''fn_''"
    using assms by (auto simp: run_function_call_def split: if_splits)
  then have "\<exists>hex. sql_ident = ''fn_'' @ hex \<and> length hex = 32 \<and> list_all is_ascii_hexdigit hex"
    by (auto simp: valid_sql_ident_def strip_prefix_Some_iff split: option.splits)
  moreover have "list_all tag_char (effective_role pg_role)"
    using role_text_safe [of pg_role] by (simp add: list_all_iff tag_char_def)
  ultimately show ?thesis
    using assms valid agent_call_restricted [where ?q = "function_call_sql sql_ident"]
    by (simp add: run_function_call_def)
qed

theorem function_call_restricted_witness:
  "(\<exists>hex. ''fn_'' @ replicate 32 (CHR ''0'') = ''fn_'' @ hex \<and> list_all is_ascii_hexdigit hex) \<and>
   Spi (function_call_sql (''fn_'' @ replicate 32 (CHR ''0''))) [AJsonb JNull]
     (Returned (Some (json_object [(''ok'', JBool True)])))
     \<in> set (snd (run_function_call None (''fn_'' @ replicate 32 (CHR ''0'')) JNull None willing_db []))"
proof -
  let ?i = "''fn_'' @ replicate 32 (CHR ''0'')"
  let ?ev = "Spi (function_call_sql ?i) [AJsonb JNull] (Returned (Some (json_object [(''ok'', JBool True)])))"
  have valid: "valid_sql_ident ?i ''fn_''" by code_simp
  obtain r es where run: "run_function_call None ?i JNull None willing_db [] = (r, es)" by force
  have "willing_db h' (function_call_sql ?i) [AJsonb JNull] = Returned (Some (json_object [(''ok'', JBool True)]))" for h'
    by (simp add: willing_db_def function_call_sql_def assume_worker_role_def)
  then have "?ev \<in> set es"
    using run valid
    by (auto simp: run_function_call_def transaction_eq run_in_subtransaction_def call_body_def call_preamble_def
        pg_and_def pg_bind_def spi_run_ok_def spi_def is_ok_def drop_privileges_def willing_db_def
        assume_worker_role_def set_role_sql_def set_search_path_sql_def set_timeout_sql_def Let_def)
  with function_call_restricted [OF run this] run show ?thesis by auto
qed

end
