(* ===== verification/Procedure_Exec.thy ===== *)
theory Procedure_Exec
  imports Function_Exec
begin

text \<open>
  \<open>src/procedure_exec.rs\<close>: the same two executors for PL/pgSQL procedures, which are called with \<open>CALL\<close> and
  an \<open>INOUT\<close> result, under the longer \<open>PROCEDURE_CALL_TIMEOUT_MS\<close>.
\<close>

section \<open>Definitions\<close>

definition claim_procedure_build_jobs :: "string option \<Rightarrow> int \<Rightarrow> json pg" where
  "claim_procedure_build_jobs dp limit =
     claim_jobs dp ''SELECT allgres_public.fn_claim_procedure_builds($1)'' ''builds'' limit"

definition procedure_ddl :: "string \<Rightarrow> string \<Rightarrow> string" where
  "procedure_ddl sql_ident quoted_body =
     ''CREATE OR REPLACE PROCEDURE allgres_functions.'' @ sql_ident @
     ''(p_args jsonb, INOUT p_result jsonb) LANGUAGE plpgsql SECURITY INVOKER AS '' @ quoted_body @ '';''"

definition run_procedure_build ::
    "(pg_event list \<Rightarrow> nat) \<Rightarrow> string option \<Rightarrow> string \<Rightarrow> string \<Rightarrow> (string + unit) pg" where
  "run_procedure_build clock dp sql_ident body = (\<lambda>db h.
     if \<not> valid_sql_ident sql_ident ''proc_'' then (Value (Inl ''invalid sql_ident''), [])
     else
       let (tag, quoted_body) = dollar_quote (clock h) body
       in run_build dp (procedure_ddl sql_ident quoted_body) db h)"

definition complete_procedure_build :: string where
  "complete_procedure_build = ''SELECT allgres_public.fn_complete_procedure_build($1::uuid, $2, $3)''"

definition submit_procedure_build_result :: "string option \<Rightarrow> string \<Rightarrow> string + unit \<Rightarrow> unit pg" where
  "submit_procedure_build_result dp procedure_id outcome =
     complete_call dp ''fn_complete_procedure_build'' [] complete_procedure_build procedure_id
       (build_result_args outcome)"

definition pump_procedure_builds :: "(pg_event list \<Rightarrow> nat) \<Rightarrow> string option \<Rightarrow> nat pg" where
  "pump_procedure_builds clock dp =
     pump_claimed (claim_procedure_build_jobs dp SQL_CLAIM_LIMIT) ''builds''
       (pump_step (parse_build ''procedure_id'') build_id
         (\<lambda>job. run_procedure_build clock dp (build_ident job) (build_text job))
         (submit_procedure_build_result dp))"

definition claim_procedure_call_jobs :: "string option \<Rightarrow> int \<Rightarrow> json pg" where
  "claim_procedure_call_jobs dp limit =
     claim_jobs dp ''SELECT allgres_public.fn_claim_procedure_calls($1)'' ''calls'' limit"

definition procedure_call_sql :: "string \<Rightarrow> string" where
  "procedure_call_sql sql_ident =
     ''CALL allgres_functions.'' @ sql_ident @ ''($1::jsonb, '' @ [CHR 0x27] @ ''{}'' @ [CHR 0x27] @ ''::jsonb)''"

definition run_procedure_call ::
    "string option \<Rightarrow> string \<Rightarrow> json \<Rightarrow> string option \<Rightarrow> (string + json) pg" where
  "run_procedure_call dp sql_ident args pg_role =
     (if \<not> valid_sql_ident sql_ident ''proc_'' then pg_return (Inl ''invalid sql_ident'')
      else transaction (run_in_subtransaction
        (call_body dp (effective_role pg_role) PROCEDURE_CALL_TIMEOUT_MS ''procedure role unavailable''
          (procedure_call_sql sql_ident) args)))"

definition complete_procedure_call :: string where
  "complete_procedure_call = ''SELECT allgres_public.fn_complete_procedure_call($1::uuid, $2, $3, $4)''"

definition submit_procedure_call_result :: "string option \<Rightarrow> string \<Rightarrow> string + json \<Rightarrow> unit pg" where
  "submit_procedure_call_result dp call_id outcome =
     complete_call dp ''fn_complete_procedure_call'' ''call '' complete_procedure_call call_id
       (call_result_args outcome)"

definition pump_procedure_calls :: "string option \<Rightarrow> nat pg" where
  "pump_procedure_calls dp =
     pump_claimed (claim_procedure_call_jobs dp SQL_CLAIM_LIMIT) ''calls''
       (pump_step parse_call call_job_id
         (\<lambda>job. run_procedure_call dp (call_ident job) (call_args job) (call_role job))
         (submit_procedure_call_result dp))"


section \<open>Lemmas\<close>

interpretation procedure_builds: executor "parse_build ''procedure_id''" build_id
    "\<lambda>job. run_procedure_build clock dp (build_ident job) (build_text job)"
    "submit_procedure_build_result dp"
    "accounts_for ''fn_complete_procedure_build'' [] complete_procedure_build" for clock dp
proof
  show "\<exists>out es. run_procedure_build clock dp (build_ident job) (build_text job) db h = (Value out, es)" for job db h
    using run_build_returns by (auto simp: run_procedure_build_def Let_def split_beta)
  show "List.map_filter (accounts_for ''fn_complete_procedure_build'' [] complete_procedure_build) es = []"
    if "run_procedure_build clock dp (build_ident job) (build_text job) db h = (r, es)" for job db h r es
    using that build_silent
    by (auto simp: run_procedure_build_def Let_def split_beta List.map_filter_simps split: if_splits)
  show "List.map_filter (accounts_for ''fn_complete_procedure_build'' [] complete_procedure_build) es = [i]"
    if "submit_procedure_build_result dp i out db h = (Value u, es)" for i out db h u es
    using complete_call_once [OF that [unfolded submit_procedure_build_result_def] warnings_differ] .
qed

interpretation procedure_calls: executor parse_call call_job_id
    "\<lambda>job. run_procedure_call dp (call_ident job) (call_args job) (call_role job)"
    "submit_procedure_call_result dp"
    "accounts_for ''fn_complete_procedure_call'' ''call '' complete_procedure_call" for dp
proof
  show "\<exists>out es. run_procedure_call dp (call_ident job) (call_args job) (call_role job) db h = (Value out, es)" for job db h
    using transaction_sub_returns by (auto simp: run_procedure_call_def)
  show "List.map_filter (accounts_for ''fn_complete_procedure_call'' ''call '' complete_procedure_call) es = []"
    if "run_procedure_call dp (call_ident job) (call_args job) (call_role job) db h = (r, es)" for job db h r es
    using that call_silent by (auto simp: run_procedure_call_def List.map_filter_simps split: if_splits)
  show "List.map_filter (accounts_for ''fn_complete_procedure_call'' ''call '' complete_procedure_call) es = [i]"
    if "submit_procedure_call_result dp i out db h = (Value u, es)" for i out db h u es
    using complete_call_once [OF that [unfolded submit_procedure_call_result_def] warnings_differ] .
qed

text \<open>What a build sends to the server: the role switch first, then one statement whose only part under the
  author's control is the quoted body.\<close>

lemma build_body_statements:
  assumes "build_body dp ddl db h = (out, bes)" and "Spi q args x \<in> set bes"
    and "q \<noteq> assume_worker_role" "q \<noteq> ''SET LOCAL ROLE allgres_function_admin''"
  shows "q = ddl \<and> args = [] \<and>
    (\<exists>a. bes = drop_events dp @ [Spi ''SET LOCAL ROLE allgres_function_admin'' [] (Returned a), Spi ddl [] x])"
proof -
  let ?pre = "pg_and (drop_privileges dp) (spi_run_ok ''SET LOCAL ROLE allgres_function_admin'' [])"
  obtain ok pes where pre: "?pre db h = (ok, pes)" by force
  have "Spi q args x \<notin> set (snd (?pre db h))"
    using assms(3,4) by (fast dest!: and_event run_ok_event drop_event)
  then have "ok = Value True" "q = ddl" "args = []" "bes = pes @ [Spi ddl [] x]"
    using assms(1,2) pre
    by (auto simp: build_body_def pg_bind_def spi_def Let_def
        split: pg_result.splits if_splits prod.splits spi_response.splits)
  with pre show ?thesis by (auto simp: and_True_iff spi_run_ok_True_iff dest!: drop_True)
qed

lemma build_statements:
  assumes "run_build dp ddl db h = (r, es)" and "Spi q args x \<in> set es"
    and "q \<noteq> assume_worker_role" "q \<noteq> ''SET LOCAL ROLE allgres_function_admin''"
  shows "q = ddl \<and> args = [] \<and> (\<exists>a tail. es = [Begin_xact, Begin_sub] @ drop_events dp @
    [Spi ''SET LOCAL ROLE allgres_function_admin'' [] (Returned a), Spi ddl [] x] @ tail
    \<and> set tail \<subseteq> {Rollback_sub, Release_sub, Commit_xact})"
proof -
  obtain out bes where body: "build_body dp ddl db (h @ [Begin_xact, Begin_sub]) = (out, bes)" by force
  with assms(1) obtain tail where es: "es = [Begin_xact, Begin_sub] @ bes @ tail"
    and tail: "set tail \<subseteq> {Rollback_sub, Release_sub, Commit_xact}"
    by (auto simp: run_build_def pg_bind_def transaction_eq run_in_subtransaction_def
        split: pg_result.splits sum.splits prod.splits)
  then have "Spi q args x \<in> set bes" using assms(2) by auto
  from build_body_statements [OF body this assms(3,4)] es tail show ?thesis by auto
qed

lemma procedure_call_restricted:
  assumes "run_procedure_call dp sql_ident args pg_role db h = (r, es)"
    and "Spi (procedure_call_sql sql_ident) [AJsonb args] x \<in> set es"
  shows "list_all tag_char sql_ident \<and>
    (\<exists>a b c tail. es = [Begin_xact, Begin_sub] @ drop_events dp @
      [Spi (set_role_sql (effective_role pg_role)) [] (Returned a), Spi set_search_path_sql [] (Returned b),
       Spi (set_timeout_sql PROCEDURE_CALL_TIMEOUT_MS) [] (Returned c), Timer_on PROCEDURE_CALL_TIMEOUT_MS,
       Spi (procedure_call_sql sql_ident) [AJsonb args] x] @ tail)"
proof -
  have valid: "valid_sql_ident sql_ident ''proc_''"
    using assms by (auto simp: run_procedure_call_def split: if_splits)
  then have "list_all tag_char sql_ident"
    by (rule valid_sql_ident_safe) (simp add: tag_char_def string_ops)
  then show ?thesis
    using assms valid agent_call_restricted [where ?q = "procedure_call_sql sql_ident"]
    by (simp add: run_procedure_call_def)
qed

section \<open>Properties\<close>

text \<open>C13: building a procedure runs its author's text as a body and as nothing else. Apart from the privilege
  drop and the role switch, a build sends at most one statement: a \<open>CREATE PROCEDURE\<close> with \<open>SECURITY INVOKER\<close>, under
  a name of letters, digits and underscores, in which PostgreSQL's quoting rule reads exactly the body and
  then the closing semicolon. It runs as \<open>allgres_function_admin\<close>, directly after the switch to that role has
  succeeded, and only the end of the transaction follows.\<close>

theorem procedure_build_confined:
  assumes "run_procedure_build clock dp sql_ident body db h = (r, es)" and "Spi q args x \<in> set es"
    and "q \<noteq> assume_worker_role" "q \<noteq> ''SET LOCAL ROLE allgres_function_admin''"
  shows "list_all tag_char sql_ident \<and> args = [] \<and>
    (\<exists>quoted. q = ''CREATE OR REPLACE PROCEDURE allgres_functions.'' @ sql_ident @
        ''(p_args jsonb, INOUT p_result jsonb) LANGUAGE plpgsql SECURITY INVOKER AS '' @ quoted @ '';''
      \<and> dollar_read (quoted @ '';'') = Some ([newline] @ body @ [newline], '';'')) \<and>
    (\<exists>a tail. es = [Begin_xact, Begin_sub] @ drop_events dp @
        [Spi ''SET LOCAL ROLE allgres_function_admin'' [] (Returned a), Spi q [] x] @ tail
      \<and> set tail \<subseteq> {Rollback_sub, Release_sub, Commit_xact})"
proof -
  let ?quoted = "snd (dollar_quote (clock h) body)"
  have valid: "valid_sql_ident sql_ident ''proc_''"
    and run: "run_build dp (procedure_ddl sql_ident ?quoted) db h = (r, es)"
    using assms(1,2) by (auto simp: run_procedure_build_def split_beta Let_def split: if_splits)
  have "list_all tag_char sql_ident"
    using valid by (rule valid_sql_ident_safe) (simp add: tag_char_def string_ops)
  moreover have "\<exists>quoted. procedure_ddl sql_ident ?quoted = procedure_ddl sql_ident quoted \<and>
      dollar_read (quoted @ '';'') = Some ([newline] @ body @ [newline], '';'')"
    using dollar_read_quote by blast
  moreover note build_statements [OF run assms(2-4)]
  ultimately show ?thesis unfolding procedure_ddl_def by blast
qed

text \<open>A body that tries to close the first tag the clock would give.\<close>

definition escaping_body :: string where
  "escaping_body = ''$body_0$; DROP TABLE t; --''"

definition sample_proc :: string where
  "sample_proc = ''proc_'' @ replicate 32 (CHR ''0'')"

theorem procedure_build_confined_witness:
  "\<exists>quoted. Spi (procedure_ddl sample_proc quoted) [] (Returned (Some (json_object [(''ok'', JBool True)])))
       \<in> set (snd (run_procedure_build (\<lambda>_. 0) None sample_proc escaping_body willing_db []))
     \<and> dollar_read (quoted @ '';'') = Some ([newline] @ escaping_body @ [newline], '';'')"
proof -
  let ?ddl = "procedure_ddl sample_proc (snd (dollar_quote 0 escaping_body))"
  let ?ev = "Spi ?ddl [] (Returned (Some (json_object [(''ok'', JBool True)])))"
  have valid: "valid_sql_ident sample_proc ''proc_''" by code_simp
  have other: "?ddl \<noteq> assume_worker_role" "?ddl \<noteq> ''SET LOCAL ROLE allgres_function_admin''"
    by (simp_all add: procedure_ddl_def assume_worker_role_def)
  obtain r es where run: "run_procedure_build (\<lambda>_. 0) None sample_proc escaping_body willing_db [] = (r, es)" by force
  have "?ev \<in> set es"
    using run valid other
    by (auto simp: run_procedure_build_def run_build_def transaction_eq run_in_subtransaction_def build_body_def
        pg_and_def pg_bind_def spi_run_ok_def spi_def is_ok_def drop_privileges_def willing_db_def
        assume_worker_role_def Let_def split_beta)
  from procedure_build_confined [OF run this other] this run show ?thesis
    unfolding procedure_ddl_def by (metis snd_conv)
qed

text \<open>No claimed procedure call is lost or completed twice. When a pump turn returns, every claimed entry
  that can be read has been accounted for exactly once, in the order of the claim, by its completion call or
  by the warning that it was skipped, whatever the procedures themselves did, and the turn reports their number.\<close>

theorem pump_procedure_calls_exactly_once:
  assumes "claim_procedure_call_jobs dp SQL_CLAIM_LIMIT db h = (Value claimed, es0)"
    and "get_array claimed ''calls'' = Some calls"
    and "pump_procedure_calls dp db h = (Value n, es0 @ es)"
  shows "List.map_filter (accounts_for ''fn_complete_procedure_call'' ''call '' complete_procedure_call) es =
      map call_job_id (List.map_filter parse_call calls)
    \<and> n = length (List.map_filter parse_call calls)"
  using assms unfolding pump_procedure_calls_def by (rule procedure_calls.pump_accounts)

text \<open>A server with two queued procedure calls, one of them under an identifier that is no UUID.\<close>

definition sample_procedure_call :: "string \<Rightarrow> json" where
  "sample_procedure_call i = json_object [(''call_id'', JString i), (''sql_ident'', JString sample_proc)]"

definition procedure_db :: pg_db where
  "procedure_db h q args =
     (if q = ''SELECT allgres_public.fn_claim_procedure_calls($1)''
      then Returned (Some (json_object [(''calls'',
        JArray [sample_procedure_call ''x'', sample_procedure_call sample_uuid])]))
      else willing_db h q args)"

theorem pump_procedure_calls_exactly_once_witness:
  "\<exists>es0 es. pump_procedure_calls None procedure_db [] = (Value 1, es0 @ es) \<and>
     List.map_filter (accounts_for ''fn_complete_procedure_call'' ''call '' complete_procedure_call) es = [sample_uuid]"
proof -
  let ?calls = "[sample_procedure_call ''x'', sample_procedure_call sample_uuid]"
  obtain es0 where claim: "claim_procedure_call_jobs None SQL_CLAIM_LIMIT procedure_db [] =
      (Value (json_object [(''calls'', JArray ?calls)]), es0)"
    by (simp add: claim_procedure_call_jobs_def claim_jobs_def transaction_eq pg_bind_def drop_privileges_def spi_def
        procedure_db_def willing_db_def assume_worker_role_def ok_flatten_def Let_def)
  have calls: "get_array (json_object [(''calls'', JArray ?calls)]) ''calls'' = Some ?calls"
    by (simp add: get_array_def json_get_object as_array_def)
  have "valid_uuid sample_uuid" "\<not> valid_uuid ''x''" by code_simp+
  then have parsed: "map call_job_id (List.map_filter parse_call ?calls) = [sample_uuid]"
    by (simp add: parse_call_def sample_procedure_call_def get_str_def json_get_object as_str_def map_filter_ops)
  have "\<exists>es. submit_procedure_call_result None i out procedure_db h' = (Value (), es)" for i out h'
    by (simp add: submit_procedure_call_result_def complete_call_def transaction_eq pg_bind_def drop_privileges_def
        spi_def procedure_db_def willing_db_def assume_worker_role_def complete_procedure_call_def Let_def)
  from procedure_calls.pump_returns [where claim = "claim_procedure_call_jobs None SQL_CLAIM_LIMIT", OF this claim calls]
  obtain n es
    where pump: "pump_procedure_calls None procedure_db [] = (Value n, es0 @ es)"
    unfolding pump_procedure_calls_def by blast
  from pump_procedure_calls_exactly_once [OF claim calls pump] parsed have "n = 1"
    "List.map_filter (accounts_for ''fn_complete_procedure_call'' ''call '' complete_procedure_call) es = [sample_uuid]"
    by (metis length_Cons length_map list.size(3) One_nat_def, simp)
  with pump show ?thesis by blast
qed

end
