(* ===== verification/Outbound.thy ===== *)
theory Outbound
  imports Rust_Str Json_Value Lib_Core "HOL-Library.Word"
begin

text \<open>
  \<open>src/outbound.rs\<close>: outbound HTTP on the pool threads. The address blocklist, the resolver that applies it,
  the registry of cancellation flags, the sliced waits of the cancellable transport, and how a claimed
  call becomes a request. The HTTP client (\<open>ureq\<close>) is a parameter: name resolution, and what sending a
  request to resolved addresses yields.
\<close>

section \<open>Definitions\<close>

datatype outbound_queue = Outbound | Oauth | AgentEmbedding | ProviderProbe

record outbound_job =
  job_call_id :: string
  job_queue :: outbound_queue
  job_call :: json

record outbound_result =
  res_call_id :: string
  res_queue :: outbound_queue
  res_status :: int
  res_body :: string

subsection \<open>The blocklist\<close>

datatype ip_addr = V4 "32 word" | V6 "128 word"

definition octet :: "32 word \<Rightarrow> nat \<Rightarrow> nat" where
  "octet w i = unat (ucast (drop_bit (24 - 8 * i) w) :: 8 word)"

definition is_blocked_ipv4 :: "32 word \<Rightarrow> bool" where
  "is_blocked_ipv4 v4 =
     (let o0 = octet v4 0; o1 = octet v4 1; o2 = octet v4 2 in
      o0 = 0
      \<or> o0 = 10
      \<or> o0 = 127
      \<or> (o0 = 169 \<and> o1 = 254)
      \<or> (o0 = 172 \<and> 16 \<le> o1 \<and> o1 \<le> 31)
      \<or> (o0 = 192 \<and> o1 = 168)
      \<or> (o0 = 192 \<and> o1 = 0 \<and> (o2 = 0 \<or> o2 = 2))
      \<or> (o0 = 198 \<and> (o1 = 18 \<or> o1 = 19))
      \<or> (o0 = 100 \<and> 64 \<le> o1 \<and> o1 \<le> 127)
      \<or> 224 \<le> o0)"

definition segment :: "128 word \<Rightarrow> nat \<Rightarrow> 16 word" where
  "segment w i = ucast (drop_bit (112 - 16 * i) w)"

text \<open>\<open>to_ipv4_mapped\<close>: \<open>::ffff:a.b.c.d\<close>.\<close>

definition to_ipv4_mapped :: "128 word \<Rightarrow> 32 word option" where
  "to_ipv4_mapped w =
     (if list_all (\<lambda>i. segment w i = 0) [0..<5] \<and> segment w 5 = 0xffff then Some (ucast w) else None)"

definition is_blocked_ip :: "ip_addr \<Rightarrow> bool" where
  "is_blocked_ip ip =
     (case ip of
        V4 v4 \<Rightarrow> is_blocked_ipv4 v4
      | V6 v6 \<Rightarrow>
          (case to_ipv4_mapped v6 of
             Some v4 \<Rightarrow> is_blocked_ipv4 v4
           | None \<Rightarrow>
               if v6 = 1 \<or> v6 = 0 then True
               else
                 let first = segment v6 0
                 in and first 0xfe00 = 0xfc00 \<or> and first 0xffc0 = 0xfe80))"

subsection \<open>The resolver\<close>

datatype ureq_error = Timed_out | Cancelled_by_operator | Host_not_found | Other_error string

definition guarded_resolve :: "bool \<Rightarrow> ureq_error + ip_addr list \<Rightarrow> ureq_error + ip_addr list" where
  "guarded_resolve allow_private resolved =
     (case resolved of
        Inl e \<Rightarrow> Inl e
      | Inr addrs \<Rightarrow>
          if \<not> allow_private \<and> list_ex is_blocked_ip addrs then Inl Host_not_found else Inr addrs)"

subsection \<open>Cancellation flags\<close>

text \<open>The flags are shared cells: the registry maps a call to the cell its thread reads.\<close>

record cancel_state =
  cells :: "nat \<Rightarrow> bool"
  registry :: "string \<rightharpoonup> nat"
  next_cell :: nat

definition no_flags :: cancel_state where
  "no_flags = \<lparr>cells = (\<lambda>_. False), registry = Map.empty, next_cell = 0\<rparr>"

definition register :: "string \<Rightarrow> cancel_state \<Rightarrow> nat \<times> cancel_state" where
  "register call_id s =
     (next_cell s,
      s\<lparr>cells := (cells s)(next_cell s := False),
        registry := (registry s)(call_id \<mapsto> next_cell s),
        next_cell := next_cell s + 1\<rparr>)"

definition drop_guard :: "string \<Rightarrow> cancel_state \<Rightarrow> cancel_state" where
  "drop_guard call_id s = s\<lparr>registry := (registry s)(call_id := None)\<rparr>"

text \<open>The store at the end of \<open>propagate_outbound_cancellations\<close>: the flag of every lost call that is still
  registered.\<close>

definition flag_lost :: "string list \<Rightarrow> cancel_state \<Rightarrow> cancel_state" where
  "flag_lost lost s =
     fold (\<lambda>i s. case registry s i of
                    None \<Rightarrow> s
                  | Some c \<Rightarrow> s\<lparr>cells := (cells s)(c := True)\<rparr>) lost s"

subsection \<open>Sliced waits\<close>

definition CANCEL_POLL_INTERVAL :: nat where "CANCEL_POLL_INTERVAL = 150"

definition sliced :: "nat \<Rightarrow> nat" where
  "sliced after = min after CANCEL_POLL_INTERVAL"

text \<open>What the \<open>k\<close>-th turn of a wait sees: the flag, the clock, and the inner transport's answer to a wait of
  the given length.\<close>

record 'a wait_env =
  flag_at :: "nat \<Rightarrow> bool"
  clock_at :: "nat \<Rightarrow> nat"
  inner :: "nat \<Rightarrow> nat \<Rightarrow> ureq_error + 'a"

definition check_cancelled :: "bool \<Rightarrow> ureq_error + unit" where
  "check_cancelled flag = (if flag then Inl Cancelled_by_operator else Inr ())"

text \<open>The loop of \<open>transmit_output\<close> and \<open>await_input\<close>, which differ in the answers they retry; the result
  comes with the waits asked of the inner transport. A loop that never ends has no result.\<close>

partial_function (option) sliced_wait ::
    "(ureq_error + 'a \<Rightarrow> bool) \<Rightarrow> 'a wait_env \<Rightarrow> nat \<Rightarrow> nat \<Rightarrow> nat \<Rightarrow> ((ureq_error + 'a) \<times> nat list) option" where
  "sliced_wait retry env after deadline k =
     (case check_cancelled (flag_at env k) of
        Inl e \<Rightarrow> Some (Inl e, [])
      | Inr _ \<Rightarrow>
        let remaining = deadline - clock_at env k in
        if remaining = 0 then Some (inner env k after, [after])
        else
          let slice = sliced remaining; answer = inner env k slice in
          if retry answer then
            Option.bind (sliced_wait retry env after deadline (Suc k)) (\<lambda>(r, waits). Some (r, slice # waits))
          else Some (answer, [slice]))"

definition retry_transmit :: "ureq_error + unit \<Rightarrow> bool" where
  "retry_transmit answer = (answer = Inl Timed_out)"

definition retry_await :: "ureq_error + bool \<Rightarrow> bool" where
  "retry_await answer = (answer = Inr False \<or> answer = Inl Timed_out)"

text \<open>\<open>Instant::now() + *timeout.after\<close> panics beyond the last instant, whose seconds are an \<open>i64\<close>. A timeout that is
  not configured dereferences to \<open>u64::MAX\<close> seconds.\<close>

definition INSTANT_MAX :: nat where "INSTANT_MAX = (2 ^ 63 - 1) * 1000 + 999"

definition NOT_HAPPENING :: nat where "NOT_HAPPENING = (2 ^ 64 - 1) * 1000"

definition instant_add :: "nat \<Rightarrow> nat \<Rightarrow> nat option" where
  "instant_add start after = (if start + after \<le> INSTANT_MAX then Some (start + after) else None)"

datatype 'a wait_result = Waited "ureq_error + 'a" "nat list" | Deadline_overflow

definition wait_sliced :: "(ureq_error + 'a \<Rightarrow> bool) \<Rightarrow> 'a wait_env \<Rightarrow> nat \<Rightarrow> nat \<Rightarrow> 'a wait_result option" where
  "wait_sliced retry env start after =
     (case instant_add start after of
        None \<Rightarrow> Some Deadline_overflow
      | Some deadline \<Rightarrow> map_option (\<lambda>(r, waits). Waited r waits) (sliced_wait retry env after deadline 0))"

definition transmit_output :: "unit wait_env \<Rightarrow> nat \<Rightarrow> nat \<Rightarrow> unit wait_result option" where
  "transmit_output env start after = wait_sliced retry_transmit env start after"

definition await_input :: "bool wait_env \<Rightarrow> nat \<Rightarrow> nat \<Rightarrow> bool wait_result option" where
  "await_input env start after = wait_sliced retry_await env start after"

definition maybe_await_input :: "bool \<Rightarrow> bool wait_env \<Rightarrow> nat \<Rightarrow> nat \<Rightarrow> bool wait_result option" where
  "maybe_await_input can_use_input env start after =
     (if can_use_input then Some (Waited (Inr True) []) else await_input env start after)"

text \<open>The connector of a call, and the transports it makes: ureq's own, with the cell of the call's flag. What ureq's
  connector answers, and what its transports do, are parameters.\<close>

record ('details, 't) cancellable_connector =
  connector_inner :: "'details \<Rightarrow> ureq_error + 't option"
  connector_cancel :: nat

record 't cancellable_transport =
  transport_inner :: 't
  transport_cancel :: nat

definition connect ::
    "('details, 't) cancellable_connector \<Rightarrow> 'details \<Rightarrow> ureq_error + 't cancellable_transport option" where
  "connect con details =
     (case connector_inner con details of
        Inl e \<Rightarrow> Inl e
      | Inr (Some t) \<Rightarrow> Inr (Some \<lparr>transport_inner = t, transport_cancel = connector_cancel con\<rparr>)
      | Inr None \<Rightarrow> Inr None)"

text \<open>What a wait on a transport sees: its own cell in the flags as they are on each turn.\<close>

definition transport_env ::
    "(nat \<Rightarrow> nat \<Rightarrow> bool) \<Rightarrow> (nat \<Rightarrow> nat) \<Rightarrow> ('t \<Rightarrow> nat \<Rightarrow> nat \<Rightarrow> ureq_error + 'a) \<Rightarrow> 't cancellable_transport \<Rightarrow> 'a wait_env" where
  "transport_env cells_at clk wait t =
     \<lparr>flag_at = (\<lambda>k. cells_at k (transport_cancel t)), clock_at = clk, inner = wait (transport_inner t)\<rparr>"

subsection \<open>Requests\<close>

datatype http_body = No_body | Json_body json | Form_body "(string \<times> string) list"

record outbound_request =
  out_method :: string
  out_url :: string
  out_headers :: "(string \<times> string) list"
  out_body :: http_body
  out_timeout :: nat
  out_max_redirects :: nat
  out_status_as_error :: bool

definition string_headers :: "json option \<Rightarrow> (string \<times> string) list" where
  "string_headers headers =
     (case Option.bind headers as_object of
        None \<Rightarrow> []
      | Some h \<Rightarrow> List.map_filter (\<lambda>(k, v). map_option (Pair k) (as_str v)) h)"

definition scheme_allowed :: "string \<Rightarrow> bool" where
  "scheme_allowed url =
     (let lowered = to_ascii_lowercase url in prefix ''http://'' lowered \<or> prefix ''https://'' lowered)"

definition agent_request :: "string \<Rightarrow> string \<Rightarrow> (string \<times> string) list \<Rightarrow> http_body \<Rightarrow> outbound_request" where
  "agent_request m url hs b =
     \<lparr>out_method = m, out_url = url, out_headers = hs, out_body = b, out_timeout = HTTP_TIMEOUT,
      out_max_redirects = 0, out_status_as_error = False\<rparr>"

definition build_request :: "json \<Rightarrow> string \<Rightarrow> outbound_request" where
  "build_request call url =
     (let kind = (case get_str call ''kind'' of None \<Rightarrow> ''llm'' | Some k \<Rightarrow> k);
          headers = json_get call ''headers'';
          body = (case json_get call ''body'' of None \<Rightarrow> json_object [] | Some b \<Rightarrow> b) in
      if kind = ''function'' then
        let m = to_ascii_uppercase (case get_str call ''method'' of None \<Rightarrow> ''GET'' | Some m \<Rightarrow> m) in
        if m = ''POST'' \<or> m = ''PUT'' \<or> m = ''PATCH''
        then agent_request m url (string_headers headers) (Json_body body)
        else agent_request (if m = ''DELETE'' then ''DELETE'' else ''GET'') url (string_headers headers) No_body
      else if kind = ''oauth'' then
        agent_request ''POST'' url
          (filter (\<lambda>(k, _). \<not> eq_ignore_ascii_case k ''content-type'') (string_headers headers))
          (Form_body (case as_object body of
             None \<Rightarrow> []
           | Some obj \<Rightarrow> List.map_filter (\<lambda>(k, v). map_option (Pair k) (as_str v)) obj))
      else agent_request ''POST'' url (string_headers headers) (Json_body body))"

text \<open>The client: resolving a URL's host, and what sending to the resolved addresses gives: a status with the
  text read, if it could be read, or an error message. The connector is ureq's own (\<^const>\<open>None\<close>) or the
  cancellable one with the cell of its flag. \<open>Dial\<close> records what was connected to.\<close>

record http_client =
  dns :: "string \<Rightarrow> ureq_error + ip_addr list"
  send :: "nat option \<Rightarrow> outbound_request \<Rightarrow> ip_addr list \<Rightarrow> string + (nat \<times> string option)"
  error_text :: "ureq_error \<Rightarrow> string"

datatype dial = Dial outbound_request "ip_addr list"

definition run_request ::
    "http_client \<Rightarrow> nat option \<Rightarrow> bool \<Rightarrow> outbound_request \<Rightarrow> (int \<times> string) \<times> dial list" where
  "run_request c cancel allow_private req =
     (case guarded_resolve allow_private (dns c (out_url req)) of
        Inl e \<Rightarrow> ((0, error_text c e), [])
      | Inr addrs \<Rightarrow>
          ((case send c cancel req addrs of
              Inl e \<Rightarrow> (0, e)
            | Inr (status, body) \<Rightarrow>
                (int status, truncate_utf8 (case body of None \<Rightarrow> [] | Some t \<Rightarrow> t) MAX_RESPONSE_BYTES)),
           [Dial req addrs]))"

definition guarded_post_json ::
    "http_client \<Rightarrow> string \<Rightarrow> json option \<Rightarrow> json \<Rightarrow> bool \<Rightarrow> (int \<times> string) \<times> dial list" where
  "guarded_post_json c url headers body allow_private =
     (if \<not> scheme_allowed url then ((0, ''outbound URL scheme not allowed''), [])
      else run_request c None allow_private (agent_request ''POST'' url (string_headers headers) (Json_body body)))"

text \<open>What \<open>perform_http\<close> does while its guard is registered, with the cell of the guard's flag.\<close>

definition http_outcome :: "http_client \<Rightarrow> nat \<Rightarrow> json \<Rightarrow> (int \<times> string) \<times> dial list" where
  "http_outcome c cancel_flag call =
     (case get_str call ''url'' of
        None \<Rightarrow> ((0, ''missing outbound URL''), [])
      | Some url \<Rightarrow>
          if \<not> scheme_allowed url then ((0, ''outbound URL scheme not allowed''), [])
          else
            let allow_private = (case get_bool call ''allow_private'' of None \<Rightarrow> False | Some b \<Rightarrow> b)
            in run_request c (Some cancel_flag) allow_private (build_request call url))"

text \<open>The guard is registered first and dropped on every way out.\<close>

definition perform_http ::
    "http_client \<Rightarrow> string \<Rightarrow> json \<Rightarrow> cancel_state \<Rightarrow> ((int \<times> string) \<times> dial list) \<times> cancel_state" where
  "perform_http c call_id call s =
     (let (cancel_flag, s1) = register call_id s
      in (http_outcome c cancel_flag call, drop_guard call_id s1))"

text \<open>One turn of a pool thread: a job received, performed, its result sent.\<close>

definition pool_turn ::
    "http_client \<Rightarrow> outbound_job \<Rightarrow> cancel_state \<Rightarrow> outbound_result \<times> dial list \<times> cancel_state" where
  "pool_turn c job s =
     (let (((status, body), dials), s1) = perform_http c (job_call_id job) (job_call job) s
      in (\<lparr>res_call_id = job_call_id job, res_queue = job_queue job, res_status = status, res_body = body\<rparr>,
          dials, s1))"

definition native_llm_http_send :: "http_client \<Rightarrow> string \<Rightarrow> json \<Rightarrow> json \<Rightarrow> bool \<Rightarrow> json" where
  "native_llm_http_send c url headers body allow_private =
     (let ((status, resp_body), _) = guarded_post_json c url (Some headers) body allow_private
      in json_object [(''status'', JInt status), (''body'', JString resp_body)])"

section \<open>Lemmas\<close>

subsection \<open>Address ranges\<close>

definition ip4 :: "nat \<Rightarrow> nat \<Rightarrow> nat \<Rightarrow> nat \<Rightarrow> 32 word" where
  "ip4 a b c d = word_of_nat (((a * 256 + b) * 256 + c) * 256 + d)"

text \<open>\<open>w\<close> lies in the network \<open>net\<close> with a prefix of \<open>len\<close> bits.\<close>

definition in_net :: "'a::len word \<Rightarrow> 'a word \<Rightarrow> nat \<Rightarrow> bool" where
  "in_net w net len \<longleftrightarrow> drop_bit (LENGTH('a) - len) w = drop_bit (LENGTH('a) - len) net"

lemma in_net_div: "in_net w net len \<longleftrightarrow>
    unat w div 2 ^ (LENGTH('a) - len) = unat net div 2 ^ (LENGTH('a) - len)" for w net :: "'a::len word"
  by (simp add: in_net_def word_unat_eq_iff unat_drop_bit_eq) (simp add: drop_bit_eq_div)

lemma octet_div: "octet w i = unat w div 2 ^ (24 - 8 * i) mod 256"
  by (simp add: octet_def unsigned_ucast_eq unat_drop_bit_eq take_bit_eq_mod) (simp add: drop_bit_eq_div)

definition blocked_nets4 :: "(32 word \<times> nat) list" where
  "blocked_nets4 =
     [(ip4 0 0 0 0, 8), (ip4 10 0 0 0, 8), (ip4 127 0 0 0, 8), (ip4 169 254 0 0, 16), (ip4 172 16 0 0, 12),
      (ip4 192 168 0 0, 16), (ip4 192 0 0 0, 24), (ip4 192 0 2 0, 24), (ip4 198 18 0 0, 15),
      (ip4 100 64 0 0, 10), (ip4 224 0 0 0, 3)]"

lemma split_256:
  fixes a r k :: nat
  assumes "k * j = 256" "0 < k"
  shows "(256 * a + r) div k = j * a + r div k"
proof -
  have "(256 * a + r) div k = (k * (j * a) + r) div k" using assms(1) by (metis mult.assoc)
  also have "(k * (j * a) + r) div k = j * a + r div k" using assms(2) by (intro div_mult_self4) simp
  finally show ?thesis .
qed

lemma div_range: "0 < k \<Longrightarrow> r div k = q \<longleftrightarrow> k * q \<le> r \<and> r < k * q + k" for r k q :: nat
proof
  assume "0 < k" "r div k = q"
  moreover have "k * (r div k) + r mod k = r" by simp
  ultimately show "k * q \<le> r \<and> r < k * q + k" by (metis add_less_cancel_left le_add1 mod_less_divisor)
next
  assume "k * q \<le> r \<and> r < k * q + k"
  then show "r div k = q" by (intro div_nat_eqI) auto
qed

lemma range_arith_split:
  fixes a r :: nat
  assumes "r < 256"
  shows "(256 * a + r) div 16 = 2753 \<longleftrightarrow> a = 172 \<and> 16 \<le> r \<and> r \<le> 31"
    and "(256 * a + r) div 2 = 25353 \<longleftrightarrow> a = 198 \<and> (r = 18 \<or> r = 19)"
    and "(256 * a + r) div 64 = 401 \<longleftrightarrow> a = 100 \<and> 64 \<le> r \<and> r \<le> 127"
    and "(256 * a + r) div 8192 = 7 \<longleftrightarrow> 224 \<le> a \<and> a < 256"
proof -
  have e1: "16 * a + s = 2753 \<longleftrightarrow> a = 172 \<and> s = 1" if "s < 16" for s using that by presburger
  have e2: "128 * a + s = 25353 \<longleftrightarrow> a = 198 \<and> s = 9" if "s < 128" for s using that by presburger
  have e3: "4 * a + s = 401 \<longleftrightarrow> a = 100 \<and> s = 1" if "s < 4" for s using that by presburger
  have lt: "r div 16 < 16" "r div 2 < 128" "r div 64 < 4" using assms by simp_all
  have "r div 16 = 1 \<longleftrightarrow> 16 \<le> r \<and> r \<le> 31" by (auto simp: div_range)
  then show "(256 * a + r) div 16 = 2753 \<longleftrightarrow> a = 172 \<and> 16 \<le> r \<and> r \<le> 31"
    using split_256 [of 16 16 a r] e1 [OF lt(1)] by simp
  have "r div 2 = 9 \<longleftrightarrow> r = 18 \<or> r = 19" by (auto simp: div_range)
  then show "(256 * a + r) div 2 = 25353 \<longleftrightarrow> a = 198 \<and> (r = 18 \<or> r = 19)"
    using split_256 [of 2 128 a r] e2 [OF lt(2)] by simp
  have "r div 64 = 1 \<longleftrightarrow> 64 \<le> r \<and> r \<le> 127" by (auto simp: div_range)
  then show "(256 * a + r) div 64 = 401 \<longleftrightarrow> a = 100 \<and> 64 \<le> r \<and> r \<le> 127"
    using split_256 [of 64 4 a r] e3 [OF lt(3)] by simp
  have "(256 * a + r) div 8192 = (256 * a + r) div 256 div 32" by (simp add: div_mult2_eq [symmetric])
  moreover have "(256 * a + r) div 256 = a" using assms by simp
  moreover have "a div 32 = 7 \<longleftrightarrow> 224 \<le> a \<and> a < 256" by (auto simp: div_range)
  ultimately show "(256 * a + r) div 8192 = 7 \<longleftrightarrow> 224 \<le> a \<and> a < 256" by simp
qed

lemma div_mod_iff: "c < k \<Longrightarrow> q = k * m + c \<longleftrightarrow> q div k = m \<and> q mod k = c" for q k m c :: nat
  by (auto simp: mult_div_mod_eq)

text \<open>The first sixteen bits as two octets.\<close>

lemma range_arith:
  fixes p :: nat
  shows "p div 16 = 2753 \<longleftrightarrow> p div 256 = 172 \<and> 16 \<le> p mod 256 \<and> p mod 256 \<le> 31"
    and "p div 2 = 25353 \<longleftrightarrow> p div 256 = 198 \<and> (p mod 256 = 18 \<or> p mod 256 = 19)"
    and "p div 64 = 401 \<longleftrightarrow> p div 256 = 100 \<and> 64 \<le> p mod 256 \<and> p mod 256 \<le> 127"
    and "p div 8192 = 7 \<longleftrightarrow> 224 \<le> p div 256 \<and> p div 256 < 256"
  using range_arith_split [of "p mod 256" "p div 256"] by simp_all

lemma unat_div_256: "unat (w :: 32 word) div 65536 div 256 < 256"
proof -
  have "unat w < 2 ^ 32" using unsigned_less [of w] by simp
  then show ?thesis by (simp add: div_mult2_eq [symmetric] less_mult_imp_div_less)
qed

text \<open>Octets and prefixes in terms of the address's first 16 and 24 bits.\<close>

lemma octets_div:
  "octet w 0 = unat w div 65536 div 256" "octet w 1 = unat w div 65536 mod 256"
  "octet w 2 = unat w div 256 mod 256"
  using unat_div_256 [of w] by (simp_all add: octet_div div_mult2_eq [symmetric])

lemma div_65536: "unat w div 65536 = unat w div 256 div 256" for w :: "32 word"
  by (simp add: div_mult2_eq [symmetric])

lemma in_net_16:
  fixes w net :: "32 word"
  assumes "len \<le> 16" "unat net = n * 65536"
  shows "in_net w net len \<longleftrightarrow> unat w div 65536 div 2 ^ (16 - len) = n div 2 ^ (16 - len)"
proof -
  have "32 - len = 16 + (16 - len)" using assms(1) by simp
  then have "(2::nat) ^ (32 - len) = 65536 * 2 ^ (16 - len)" by (simp only: power_add) simp
  then show ?thesis using assms(2) by (simp add: in_net_div div_mult2_eq)
qed

lemma blocked_ipv4_cidr:
  "is_blocked_ipv4 w \<longleftrightarrow> list_ex (\<lambda>(net, len). in_net w net len) blocked_nets4"
proof -
  define p where "p = unat w div 65536"
  define q where "q = unat w div 256"
  have pq: "p = q div 256" by (simp add: p_def q_def div_65536)
  have lt: "p div 256 < 256" using unat_div_256 [of w] by (simp add: p_def)
  have net: "unat (ip4 a b c d) = ((a * 256 + b) * 256 + c) * 256 + d"
    if "((a * 256 + b) * 256 + c) * 256 + d < 4294967296" for a b c d
    unfolding ip4_def unat_of_nat using that by simp
  have short: "in_net w (ip4 a b 0 0) len \<longleftrightarrow> p div 2 ^ (16 - len) = (a * 256 + b) div 2 ^ (16 - len)"
    if "len \<le> 16" "a < 256" "b < 256" for a b len
    using that by (subst in_net_16 [where n = "a * 256 + b"]) (simp_all add: net p_def)
  have long: "in_net w (ip4 192 0 c 0) 24 \<longleftrightarrow> p = 49152 \<and> q mod 256 = c" if "c < 256" for c
  proof -
    have "in_net w (ip4 192 0 c 0) 24 \<longleftrightarrow> q = 256 * 49152 + c"
      using that by (simp add: in_net_div net q_def [symmetric])
    also have "\<dots> \<longleftrightarrow> q div 256 = 49152 \<and> q mod 256 = c"
      using that by (rule div_mod_iff)
    finally show ?thesis by (simp add: pq)
  qed
  have pair: "p = 256 * a + b \<longleftrightarrow> p div 256 = a \<and> p mod 256 = b" if "b < 256" for a b
    using that by (rule div_mod_iff)
  have nets: "in_net w (ip4 0 0 0 0) 8 \<longleftrightarrow> p div 256 = 0" "in_net w (ip4 10 0 0 0) 8 \<longleftrightarrow> p div 256 = 10"
    "in_net w (ip4 127 0 0 0) 8 \<longleftrightarrow> p div 256 = 127"
    "in_net w (ip4 169 254 0 0) 16 \<longleftrightarrow> p div 256 = 169 \<and> p mod 256 = 254"
    "in_net w (ip4 172 16 0 0) 12 \<longleftrightarrow> p div 256 = 172 \<and> 16 \<le> p mod 256 \<and> p mod 256 \<le> 31"
    "in_net w (ip4 192 168 0 0) 16 \<longleftrightarrow> p div 256 = 192 \<and> p mod 256 = 168"
    "in_net w (ip4 198 18 0 0) 15 \<longleftrightarrow> p div 256 = 198 \<and> (p mod 256 = 18 \<or> p mod 256 = 19)"
    "in_net w (ip4 100 64 0 0) 10 \<longleftrightarrow> p div 256 = 100 \<and> 64 \<le> p mod 256 \<and> p mod 256 \<le> 127"
    "in_net w (ip4 224 0 0 0) 3 \<longleftrightarrow> 224 \<le> p div 256"
    using pair [of 254 169] pair [of 168 192] lt by (simp_all add: short range_arith)
  have long': "in_net w (ip4 192 0 c 0) 24 \<longleftrightarrow> p div 256 = 192 \<and> p mod 256 = 0 \<and> q mod 256 = c" if "c < 256" for c
    using long [OF that] pair [of 0 192] by simp
  show ?thesis
    unfolding is_blocked_ipv4_def blocked_nets4_def octets_div p_def [symmetric] q_def [symmetric] Let_def
      using long' [of 0] long' [of 2] by (simp add: nets) blast
qed

subsubsection \<open>IPv6\<close>

definition ip6 :: "nat list \<Rightarrow> 128 word" where
  "ip6 segs = word_of_nat (foldl (\<lambda>n s. n * 65536 + s) 0 segs)"

lemma segment_div: "unat (segment w i) = unat w div 2 ^ (112 - 16 * i) mod 65536"
  by (simp add: segment_def unsigned_ucast_eq unat_drop_bit_eq take_bit_eq_mod) (simp add: drop_bit_eq_div)

lemma and_field: "and n (push_bit k (mask l)) = push_bit k (take_bit l (drop_bit k n))" for n :: nat
  by (rule bit_eqI) (auto simp: bit_simps)

lemma leading_bits:
  fixes s :: "16 word"
  shows "and s 0xfe00 = 0xfc00 \<longleftrightarrow> unat s div 512 = 126"
    and "and s 0xffc0 = 0xfe80 \<longleftrightarrow> unat s div 64 = 1018"
proof -
  have lt: "unat s < 65536" using unsigned_less [of s] by simp
  have m: "(65024::nat) = push_bit 9 (mask 7)" "(65472::nat) = push_bit 6 (mask 10)" by (simp_all add: mask_eq_exp_minus_1 push_bit_eq_mult)
  have "and (unat s) 65024 = unat s div 512 mod 128 * 512"
    unfolding m and_field by (simp add: push_bit_eq_mult take_bit_eq_mod drop_bit_eq_div)
  moreover have "unat s div 512 mod 128 = unat s div 512" using lt by (simp add: less_mult_imp_div_less)
  ultimately show "and s 0xfe00 = 0xfc00 \<longleftrightarrow> unat s div 512 = 126"
    by (simp add: word_unat_eq_iff unsigned_and_eq)
  have "and (unat s) 65472 = unat s div 64 mod 1024 * 64"
    unfolding m and_field by (simp add: push_bit_eq_mult take_bit_eq_mod drop_bit_eq_div)
  moreover have "unat s div 64 mod 1024 = unat s div 64" using lt by (simp add: less_mult_imp_div_less)
  ultimately show "and s 0xffc0 = 0xfe80 \<longleftrightarrow> unat s div 64 = 1018"
    by (simp add: word_unat_eq_iff unsigned_and_eq)
qed

lemma high_digits_zero:
  fixes n b :: nat
  assumes "n div b ^ Suc k = 0" "\<And>j. 1 \<le> j \<Longrightarrow> j \<le> k \<Longrightarrow> n div b ^ j mod b = 0"
  shows "n div b = 0"
  using assms
proof (induction k)
  case (Suc k)
  have "n div b ^ Suc k div b = 0" using Suc.prems(1) by (simp only: power_Suc2 [of b "Suc k"] div_mult2_eq)
  moreover have "n div b ^ Suc k mod b = 0" using Suc.prems(2) [of "Suc k"] by simp
  ultimately have "n div b ^ Suc k = 0" by (metis add_0 div_mult_mod_eq mult_zero_left)
  with Suc show ?case by simp
qed simp

text \<open>The first six segments as one number.\<close>

lemma mapped_prefix:
  "list_all (\<lambda>i. segment w i = 0) [0..<5] \<and> segment w 5 = 0xffff \<longleftrightarrow> unat w div 2 ^ 32 = 0xffff"
proof -
  define n where "n = unat w div 2 ^ 32"
  have "unat w < 2 ^ 128" using unsigned_less [of w, where ?'a = nat] by simp
  then have top: "n div 65536 ^ 6 = 0" by (simp add: n_def div_mult2_eq [symmetric])
  have seg: "unat (segment w i) = n div 65536 ^ (5 - i) mod 65536" if "i \<le> 5" for i
  proof -
    have "112 - 16 * i = 32 + 16 * (5 - i)" using that by simp
    then have "(2::nat) ^ (112 - 16 * i) = 2 ^ 32 * (2 ^ 16) ^ (5 - i)" by (simp only: power_add power_mult)
    also have "(2::nat) ^ 16 = 65536" by simp
    finally show ?thesis by (simp only: segment_div n_def div_mult2_eq)
  qed
  have zero: "segment w i = 0 \<longleftrightarrow> n div 65536 ^ (5 - i) mod 65536 = 0" if "i < 5" for i
    using seg [of i] that by (simp add: word_unat_eq_iff)
  have five: "segment w 5 = 0xffff \<longleftrightarrow> n mod 65536 = 0xffff"
    using seg [of 5] by (simp add: word_unat_eq_iff)
  have "list_all (\<lambda>i. segment w i = 0) [0..<5] \<longleftrightarrow> (\<forall>j. 1 \<le> j \<and> j \<le> 5 \<longrightarrow> n div 65536 ^ j mod 65536 = 0)"
  proof
    assume l: "list_all (\<lambda>i. segment w i = 0) [0..<5]"
    show "\<forall>j. 1 \<le> j \<and> j \<le> 5 \<longrightarrow> n div 65536 ^ j mod 65536 = 0"
    proof (intro allI impI)
      fix j :: nat assume j: "1 \<le> j \<and> j \<le> 5"
      then have "segment w (5 - j) = 0" using l by (simp add: list_all_iff)
      with zero [of "5 - j"] j show "n div 65536 ^ j mod 65536 = 0" by simp
    qed
  qed (auto simp: list_all_iff zero)
  moreover have "(\<forall>j. 1 \<le> j \<and> j \<le> 5 \<longrightarrow> n div 65536 ^ j mod 65536 = 0) \<and> n mod 65536 = 0xffff \<longleftrightarrow> n = 0xffff"
  proof
    assume d: "(\<forall>j. 1 \<le> j \<and> j \<le> 5 \<longrightarrow> n div 65536 ^ j mod 65536 = 0) \<and> n mod 65536 = 0xffff"
    have "n div 65536 = 0" by (rule high_digits_zero [where k = 5]) (use top d in simp_all)
    with d show "n = 0xffff" by (metis add_0 div_mult_mod_eq mult_zero_left)
  next
    assume n: "n = 0xffff"
    have "n < 65536 ^ j" if "1 \<le> j" for j
      using n self_le_power [of "65536::nat" j] that by linarith
    with n show "(\<forall>j. 1 \<le> j \<and> j \<le> 5 \<longrightarrow> n div 65536 ^ j mod 65536 = 0) \<and> n mod 65536 = 0xffff" by simp
  qed
  ultimately show ?thesis using five by (simp only: n_def)
qed

definition blocked_nets6 :: "(128 word \<times> nat) list" where
  "blocked_nets6 = [(0, 128), (1, 128), (ip6 [0xfc00, 0, 0, 0, 0, 0, 0, 0], 7), (ip6 [0xfe80, 0, 0, 0, 0, 0, 0, 0], 10)]"

definition mapped_net :: "128 word" where
  "mapped_net = ip6 [0, 0, 0, 0, 0, 0xffff, 0, 0]"

lemma in_mapped_net: "in_net w mapped_net 96 \<longleftrightarrow> to_ipv4_mapped w = Some (ucast w)"
  by (simp add: in_net_div mapped_net_def ip6_def to_ipv4_mapped_def mapped_prefix del: upt_Suc)

lemma not_mapped: "\<not> in_net w mapped_net 96 \<Longrightarrow> to_ipv4_mapped w = None"
  by (simp add: in_mapped_net) (simp add: to_ipv4_mapped_def del: upt_Suc split: if_splits)

lemma in_net_single: "in_net w net 128 \<longleftrightarrow> w = net" for w net :: "128 word"
  by (simp add: in_net_def)

lemma first_segment_div:
  fixes w :: "128 word"
  assumes "k \<le> 16"
  shows "unat (segment w 0) div 2 ^ k = unat w div 2 ^ (112 + k)"
proof -
  have "unat w < 2 ^ 128" using unsigned_less [of w, where ?'a = nat] by simp
  then have "unat w div 2 ^ 112 < 65536" by (simp add: less_mult_imp_div_less)
  then have "unat (segment w 0) = unat w div 2 ^ 112" by (simp add: segment_div)
  then show ?thesis by (simp only: power_add div_mult2_eq)
qed

lemma unique_local_net: "and (segment w 0) 0xfe00 = 0xfc00 \<longleftrightarrow> in_net w (ip6 [0xfc00, 0, 0, 0, 0, 0, 0, 0]) 7"
  using first_segment_div [of 9 w] by (simp add: leading_bits in_net_div ip6_def)

lemma link_local_net: "and (segment w 0) 0xffc0 = 0xfe80 \<longleftrightarrow> in_net w (ip6 [0xfe80, 0, 0, 0, 0, 0, 0, 0]) 10"
  using first_segment_div [of 6 w] by (simp add: leading_bits in_net_div ip6_def)

section \<open>Properties\<close>

text \<open>C11: the blocklist is exactly its documented networks. For IPv4: 0/8, 10/8, 127/8, 169.254/16, 172.16/12,
  192.168/16, 192.0.0/24, 192.0.2/24, 198.18/15, 100.64/10 and 224/3; an IPv6 address in ::ffff:0:0/96 is judged by
  the IPv4 address it maps, and any other by ::/128, ::1/128, fc00::/7 and fe80::/10.\<close>

theorem blocked_ip_cidr:
  "is_blocked_ip ip \<longleftrightarrow>
     (case ip of
        V4 w \<Rightarrow> list_ex (\<lambda>(net, len). in_net w net len) blocked_nets4
      | V6 w \<Rightarrow>
          if in_net w mapped_net 96 then list_ex (\<lambda>(net, len). in_net (ucast w) net len) blocked_nets4
          else list_ex (\<lambda>(net, len). in_net w net len) blocked_nets6)"
proof (cases ip)
  case (V4 w)
  then show ?thesis by (simp add: is_blocked_ip_def blocked_ipv4_cidr)
next
  case (V6 w)
  show ?thesis
  proof (cases "in_net w mapped_net 96")
    case True
    then show ?thesis using V6 by (simp add: is_blocked_ip_def in_mapped_net blocked_ipv4_cidr)
  next
    case False
    then show ?thesis using V6 not_mapped [OF False]
      by (auto simp: is_blocked_ip_def blocked_nets6_def in_net_single unique_local_net link_local_net Let_def)
  qed
qed

subsection \<open>Requests\<close>

lemma run_request_dials:
  assumes "Dial req addrs \<in> set (snd (run_request c cancel allow_private r))"
  shows "req = r \<and> dns c (out_url r) = Inr addrs \<and> (allow_private \<or> list_all (\<lambda>a. \<not> is_blocked_ip a) addrs)"
  using assms
  by (auto simp: run_request_def guarded_resolve_def list_all_iff list_ex_iff split: sum.splits if_splits)

lemma build_request_agent:
  "out_url (build_request call url) = url" "out_max_redirects (build_request call url) = 0"
  "out_timeout (build_request call url) = HTTP_TIMEOUT"
  by (simp_all add: build_request_def agent_request_def Let_def)

text \<open>C6: an outbound call is never a way into the private network. Whatever a claimed row holds and whatever
  the resolver answers, if anything is dialed then the URL is the row's own and its scheme is HTTP or
  HTTPS, redirects are off, and unless the row itself carries \<open>allow_private\<close> not one of the resolved
  addresses is blocked.\<close>

theorem perform_http_guarded:
  assumes "perform_http c call_id call s = ((out, dials), s')" and "Dial req addrs \<in> set dials"
  shows "get_str call ''url'' = Some (out_url req) \<and> scheme_allowed (out_url req)
    \<and> out_max_redirects req = 0 \<and> dns c (out_url req) = Inr addrs
    \<and> (get_bool call ''allow_private'' = Some True \<or> list_all (\<lambda>a. \<not> is_blocked_ip a) addrs)"
proof -
  from assms obtain flag where dial: "Dial req addrs \<in> set (snd (http_outcome c flag call))"
    by (auto simp: perform_http_def split: prod.splits) (metis snd_conv)
  then obtain url where url: "get_str call ''url'' = Some url" "scheme_allowed url"
    by (auto simp: http_outcome_def split: option.splits if_splits)
  let ?allow = "case get_bool call ''allow_private'' of None \<Rightarrow> False | Some b \<Rightarrow> b"
  from dial url have "Dial req addrs \<in> set (snd (run_request c (Some flag) ?allow (build_request call url)))"
    by (simp add: http_outcome_def Let_def)
  from run_request_dials [OF this] url show ?thesis
    by (auto simp: build_request_agent split: option.splits)
qed

definition sample_client :: http_client where
  "sample_client = \<lparr>dns = (\<lambda>_. Inr [V4 (ip4 93 184 216 34)]), send = (\<lambda>_ _ _. Inr (200, Some ''ok'')),
     error_text = (\<lambda>_. [])\<rparr>"

theorem perform_http_guarded_witness:
  "\<exists>out addrs s'. perform_http sample_client ''c'' (json_object [(''url'', JString ''https://example.com/'')]) no_flags =
     ((out, [Dial (build_request (json_object [(''url'', JString ''https://example.com/'')]) ''https://example.com/'') addrs]), s')
   \<and> list_all (\<lambda>a. \<not> is_blocked_ip a) addrs"
proof -
  let ?c = "json_object [(''url'', JString ''https://example.com/'')]" and ?a = "[V4 (ip4 93 184 216 34)]"
  have "octet (ip4 93 184 216 34) 0 = 93" "octet (ip4 93 184 216 34) 1 = 184"
    by (simp_all add: octet_div ip4_def)
  then have ok: "\<not> is_blocked_ip (V4 (ip4 93 184 216 34))" by (simp add: is_blocked_ip_def is_blocked_ipv4_def)
  have "scheme_allowed ''https://example.com/''" by code_simp
  then obtain out s' where run: "perform_http sample_client ''c'' ?c no_flags =
      ((out, [Dial (build_request ?c ''https://example.com/'') ?a]), s')"
    using ok by (simp add: perform_http_def register_def http_outcome_def run_request_def guarded_resolve_def
        sample_client_def get_str_def get_bool_def json_get_object as_str_def Let_def build_request_agent)
  have "get_bool ?c ''allow_private'' = None" by (simp add: get_bool_def json_get_object)
  with perform_http_guarded [OF run] run show ?thesis by auto
qed

subsection \<open>Sliced waits\<close>

lemma sliced_wait_turn:
  assumes "sliced_wait retry env after deadline (Suc k) = Some (r, waits)"
    and "\<not> flag_at env k" "0 < deadline - clock_at env k" "retry (inner env k (sliced (deadline - clock_at env k)))"
  shows "sliced_wait retry env after deadline k = Some (r, sliced (deadline - clock_at env k) # waits)"
  using assms by (subst sliced_wait.simps) (simp add: Let_def check_cancelled_def)

lemma sliced_wait_stops:
  assumes "flag_at env (k + n) \<or> deadline \<le> clock_at env (k + n)"
  shows "\<exists>r waits. sliced_wait retry env after deadline k = Some (r, waits) \<and> length waits \<le> Suc n
    \<and> list_all (\<lambda>s. s \<le> CANCEL_POLL_INTERVAL) (butlast waits)"
  using assms
proof (induction n arbitrary: k)
  case 0
  then show ?case by (subst sliced_wait.simps) (auto simp: check_cancelled_def)
next
  case (Suc n)
  show ?case
  proof (cases "flag_at env k \<or> deadline \<le> clock_at env k \<or> \<not> retry (inner env k (sliced (deadline - clock_at env k)))")
    case True
    then show ?thesis by (subst sliced_wait.simps) (auto simp: Let_def check_cancelled_def)
  next
    case False
    from Suc.IH [of "Suc k"] Suc.prems obtain r waits where
      rest: "sliced_wait retry env after deadline (Suc k) = Some (r, waits)" "length waits \<le> Suc n"
      "list_all (\<lambda>s. s \<le> CANCEL_POLL_INTERVAL) (butlast waits)" by auto
    from sliced_wait_turn [OF rest(1)] False rest(2,3) show ?thesis
      by (auto simp: sliced_def)
  qed
qed

lemma wait_sliced_returns:
  assumes "flag_at env n \<or> start + after \<le> clock_at env n" and "start + after \<le> INSTANT_MAX"
  shows "\<exists>r waits. wait_sliced retry env start after = Some (Waited r waits) \<and> length waits \<le> Suc n
    \<and> list_all (\<lambda>s. s \<le> CANCEL_POLL_INTERVAL) (butlast waits)
    \<and> (flag_at env 0 \<longrightarrow> r = Inl Cancelled_by_operator \<and> waits = [])"
proof -
  from sliced_wait_stops [of env 0 n "start + after" retry after] assms obtain r waits where
    run: "sliced_wait retry env after (start + after) 0 = Some (r, waits)" "length waits \<le> Suc n"
    "list_all (\<lambda>s. s \<le> CANCEL_POLL_INTERVAL) (butlast waits)" by auto
  moreover have "r = Inl Cancelled_by_operator \<and> waits = []" if "flag_at env 0"
    using run(1) that by (simp add: sliced_wait.simps [of retry env after "start + after" 0] check_cancelled_def)
  ultimately show ?thesis using assms(2) by (simp add: wait_sliced_def instant_add_def)
qed

text \<open>C32: a wait on the network ends, in both directions. Unless its deadline overflows the clock, it
  returns by the first turn at which the flag is raised or the deadline has passed, after at most that many
  waits on the inner transport, every one but the last no longer than the poll interval; a flag that is up
  when the wait begins is the answer at once, without a wait.\<close>

theorem await_input_returns:
  assumes "flag_at env n \<or> start + after \<le> clock_at env n" and "start + after \<le> INSTANT_MAX"
  shows "\<exists>r waits. await_input env start after = Some (Waited r waits) \<and> length waits \<le> Suc n
    \<and> list_all (\<lambda>s. s \<le> CANCEL_POLL_INTERVAL) (butlast waits)
    \<and> (flag_at env 0 \<longrightarrow> r = Inl Cancelled_by_operator \<and> waits = [])"
  using assms unfolding await_input_def by (rule wait_sliced_returns)

theorem await_input_returns_witness:
  "\<exists>r waits. await_input \<lparr>flag_at = (\<lambda>k. 2 \<le> k), clock_at = (\<lambda>k. 150 * k), inner = (\<lambda>_ _. Inl Timed_out)\<rparr> 0 45000
     = Some (Waited r waits) \<and> length waits \<le> 3"
  using await_input_returns [of "\<lparr>flag_at = (\<lambda>k. 2 \<le> k), clock_at = (\<lambda>k. 150 * k), inner = (\<lambda>_ _. Inl Timed_out)\<rparr>" 2 0 45000]
  by (auto simp: INSTANT_MAX_def)

lemma transmit_output_returns:
  assumes "flag_at env n \<or> start + after \<le> clock_at env n" and "start + after \<le> INSTANT_MAX"
  shows "\<exists>r waits. transmit_output env start after = Some (Waited r waits) \<and> length waits \<le> Suc n
    \<and> list_all (\<lambda>s. s \<le> CANCEL_POLL_INTERVAL) (butlast waits)
    \<and> (flag_at env 0 \<longrightarrow> r = Inl Cancelled_by_operator \<and> waits = [])"
  using assms unfolding transmit_output_def by (rule wait_sliced_returns)

lemma flag_stops_reads:
  assumes "flag_at r 0" "start + after \<le> INSTANT_MAX"
  shows "await_input r start after = Some (Waited (Inl Cancelled_by_operator) [])"
  using wait_sliced_returns [of r 0 start after retry_await] assms by (auto simp: await_input_def)

lemma flag_stops_writes:
  assumes "flag_at w 0" "start + after \<le> INSTANT_MAX"
  shows "transmit_output w start after = Some (Waited (Inl Cancelled_by_operator) [])"
  using transmit_output_returns [of w 0 start after] assms by auto

lemma connect_cancel: "connect con d = Inr (Some t) \<Longrightarrow> transport_cancel t = connector_cancel con"
  by (auto simp: connect_def split: sum.splits option.splits)

lemma raised_stops_transport:
  assumes "connect con d = Inr (Some t)" "cells_at 0 (connector_cancel con)" "start + after \<le> INSTANT_MAX"
  shows "await_input (transport_env cells_at clk reading t) start after = Some (Waited (Inl Cancelled_by_operator) [])"
    "transmit_output (transport_env cells_at clk writing t) start after = Some (Waited (Inl Cancelled_by_operator) [])"
  using assms connect_cancel [OF assms(1)]
  by (simp_all add: flag_stops_reads flag_stops_writes transport_env_def)

text \<open>A wait without a timeout panics before it looks at the flag.\<close>

lemma unlimited_wait_panics:
  "transmit_output env start NOT_HAPPENING = Some Deadline_overflow
   \<and> await_input env' start NOT_HAPPENING = Some Deadline_overflow"
  by (simp add: transmit_output_def await_input_def wait_sliced_def instant_add_def NOT_HAPPENING_def INSTANT_MAX_def)

text \<open>An answer of no progress is asked again at once: the number of waits is bounded by the turns of the
  clock only, not by the poll interval.\<close>

lemma no_progress_is_retried_at_once:
  assumes "sliced_wait retry_await env after deadline k = Some (r, waits)"
    and "\<And>j s. j < n \<Longrightarrow> \<not> flag_at env (k + j) \<and> clock_at env (k + j) < deadline \<and> inner env (k + j) s = Inr False"
  shows "n \<le> length waits"
  using assms
proof (induction n arbitrary: k waits)
  case (Suc n)
  have now: "\<not> flag_at env k" "clock_at env k < deadline" "\<And>s. inner env k s = Inr False"
    using Suc.prems(2) [of 0] by auto
  with Suc.prems(1) obtain waits' where
    rest: "sliced_wait retry_await env after deadline (Suc k) = Some (r, waits')" "length waits = Suc (length waits')"
    by (subst (asm) sliced_wait.simps) (auto simp: Let_def retry_await_def check_cancelled_def bind_eq_Some_conv)
  moreover have "n \<le> length waits'"
    using Suc.prems(2) [of "Suc j" for j] by (intro Suc.IH [OF rest(1)]) auto
  ultimately show ?case by simp
qed simp

subsection \<open>Cancellation\<close>

text \<open>The states of the registry: threads register and drop their calls, the worker flags lost ones.\<close>

inductive cancel_reachable :: "cancel_state \<Rightarrow> bool" where
  cancel_start: "cancel_reachable no_flags"
| cancel_register: "cancel_reachable s \<Longrightarrow> cancel_reachable (snd (register i s))"
| cancel_drop: "cancel_reachable s \<Longrightarrow> cancel_reachable (drop_guard i s)"
| cancel_flag: "cancel_reachable s \<Longrightarrow> cancel_reachable (flag_lost lost s)"

definition registry_ok :: "cancel_state \<Rightarrow> bool" where
  "registry_ok s \<longleftrightarrow> (\<forall>i c. registry s i = Some c \<longrightarrow> c < next_cell s)
     \<and> (\<forall>i j c. registry s i = Some c \<longrightarrow> registry s j = Some c \<longrightarrow> i = j)"

lemma flag_lost_eq:
  "registry (flag_lost lost s) = registry s \<and> next_cell (flag_lost lost s) = next_cell s
   \<and> cells (flag_lost lost s) = (\<lambda>c. cells s c \<or> (\<exists>i \<in> set lost. registry s i = Some c))"
proof (induction lost arbitrary: s)
  case (Cons i lost)
  show ?case
  proof (cases "registry s i")
    case None
    with Cons.IH [of s] show ?thesis by (auto simp: flag_lost_def fun_eq_iff)
  next
    case (Some c)
    with Cons.IH [of "s\<lparr>cells := (cells s)(c := True)\<rparr>"] show ?thesis
      by (auto simp: flag_lost_def fun_eq_iff)
  qed
qed (simp add: flag_lost_def)

lemma registry_ok_reachable: "cancel_reachable s \<Longrightarrow> registry_ok s"
proof (induction rule: cancel_reachable.induct)
  case (cancel_register s i)
  then show ?case by (fastforce simp: registry_ok_def register_def less_Suc_eq)
next
  case (cancel_drop s i)
  then show ?case by (auto simp: registry_ok_def drop_guard_def)
next
  case (cancel_flag s lost)
  then show ?case by (simp add: registry_ok_def flag_lost_eq)
qed (simp add: registry_ok_def no_flags_def)

text \<open>What the flags are for, without cells: which calls are running, and which of them are cancelled.\<close>

definition abs_flags :: "cancel_state \<Rightarrow> string \<rightharpoonup> bool" where
  "abs_flags s i = map_option (cells s) (registry s i)"

definition spec_flag_lost :: "string list \<Rightarrow> (string \<rightharpoonup> bool) \<Rightarrow> string \<rightharpoonup> bool" where
  "spec_flag_lost lost m i = (if i \<in> set lost then map_option (\<lambda>_. True) (m i) else m i)"

text \<open>C19: the registry of shared flags implements a map from running calls to their cancellation. In every
  state the pool threads and the worker can produce, registering a call adds it uncancelled, dropping
  its guard removes it, and flagging a list of lost calls cancels those on the list that are running and
  no other, although every thread reads its own cell and the worker goes through the table.\<close>

theorem cancel_flags_refine_map:
  assumes "cancel_reachable s"
  shows "abs_flags (snd (register i s)) = (abs_flags s)(i \<mapsto> False)
    \<and> abs_flags (drop_guard i s) = (abs_flags s)(i := None)
    \<and> abs_flags (flag_lost lost s) = spec_flag_lost lost (abs_flags s)"
proof -
  note ok = registry_ok_reachable [OF assms, unfolded registry_ok_def]
  have "registry s j \<noteq> Some (next_cell s)" for j using ok by blast
  then have "abs_flags (snd (register i s)) = (abs_flags s)(i \<mapsto> False)"
    by (auto simp: abs_flags_def register_def fun_eq_iff intro!: option.map_cong0 split: if_splits)
  moreover have "abs_flags (drop_guard i s) = (abs_flags s)(i := None)"
    by (simp add: abs_flags_def drop_guard_def fun_eq_iff)
  moreover have "abs_flags (flag_lost lost s) j = spec_flag_lost lost (abs_flags s) j" for j
  proof (cases "registry s j")
    case (Some c)
    with ok have "(\<exists>k \<in> set lost. registry s k = Some c) \<longleftrightarrow> j \<in> set lost" by blast
    then show ?thesis by (simp add: abs_flags_def spec_flag_lost_def flag_lost_eq Some)
  qed (simp add: abs_flags_def spec_flag_lost_def flag_lost_eq)
  ultimately show ?thesis by (simp add: fun_eq_iff)
qed

theorem cancel_flags_refine_map_witness:
  "abs_flags (flag_lost [''b''] (snd (register ''b'' (snd (register ''a'' no_flags))))) = [''a'' \<mapsto> False, ''b'' \<mapsto> True]"
proof -
  have a: "abs_flags (snd (register ''a'' no_flags)) = [''a'' \<mapsto> False]"
    using cancel_flags_refine_map [OF cancel_start, of "''a''"] by (simp add: abs_flags_def no_flags_def fun_eq_iff)
  have b: "abs_flags (snd (register ''b'' (snd (register ''a'' no_flags)))) = [''a'' \<mapsto> False, ''b'' \<mapsto> False]"
    using cancel_flags_refine_map [OF cancel_register [OF cancel_start], of "''b''" "''a''"] a by simp
  show ?thesis
    using cancel_flags_refine_map [OF cancel_register [OF cancel_register [OF cancel_start]],
        of _ "''b''" "''a''" "[''b'']"] b
    by (auto simp: spec_flag_lost_def fun_eq_iff)
qed

end
