(* ===== verification/Config.thy ===== *)
theory Config
  imports Rust_Str Lib_Core "HOL-Library.Word"
begin

text \<open>
  \<open>src/config.rs\<close>: the settings read from the environment and the runtime worker's socket. The process
  environment is a function, PostgreSQL's \<open>DataDir\<close> and the temporary directory are arguments. The file system is
  a map from paths to nodes with their permission bits; which calls fail, and with what message, is an
  argument too, so every \<open>?\<close> of the source is a branch.
\<close>

unbundle bit_operations_syntax

section \<open>Definitions\<close>

subsection \<open>Settings\<close>

type_synonym environment = "string \<Rightarrow> string option"

definition DEFAULT_DB :: string where "DEFAULT_DB = ''postgres''"

definition DEFAULT_HTTP_ADDR :: string where "DEFAULT_HTTP_ADDR = ''127.0.0.1:8088''"

definition env_opt :: "environment \<Rightarrow> string \<Rightarrow> string option" where
  "env_opt env key = (case env key of Some v \<Rightarrow> if v \<noteq> [] then Some v else None | None \<Rightarrow> None)"

definition configured_database :: "environment \<Rightarrow> string" where
  "configured_database env = (case env_opt env ''ALLGRES_DATABASE'' of Some d \<Rightarrow> d | None \<Rightarrow> DEFAULT_DB)"

definition configured_http_addr :: "environment \<Rightarrow> string" where
  "configured_http_addr env = (case env_opt env ''ALLGRES_HTTP_ADDR'' of Some a \<Rightarrow> a | None \<Rightarrow> DEFAULT_HTTP_ADDR)"

text \<open>The pointer, if it is not null, is a string that has to be UTF-8 and not empty.\<close>

definition data_directory :: "string option \<Rightarrow> string option" where
  "data_directory DataDir =
     (case DataDir of
        None \<Rightarrow> None
      | Some s \<Rightarrow> if \<not> utf8_valid s then None else if s \<noteq> [] then Some s else None)"

text \<open>\<open>Path::join\<close> with a relative component.\<close>

definition path_join :: "string \<Rightarrow> string \<Rightarrow> string" where
  "path_join base c = (if base = [] \<or> last base = CHR ''/'' then base @ c else base @ ''/'' @ c)"

definition socket_dir :: "environment \<Rightarrow> string option \<Rightarrow> string \<Rightarrow> string" where
  "socket_dir env DataDir temp_dir =
     (case env_opt env ''ALLGRES_SOCKET_DIR'' of
        Some dir \<Rightarrow> dir
      | None \<Rightarrow>
          (case data_directory DataDir of
             Some base \<Rightarrow> path_join base ''allgres''
           | None \<Rightarrow> path_join temp_dir ''allgres''))"

definition rpc_socket_path :: "environment \<Rightarrow> string option \<Rightarrow> string \<Rightarrow> string" where
  "rpc_socket_path env DataDir temp_dir = path_join (socket_dir env DataDir temp_dir) ''runtime.sock''"

subsection \<open>The file system\<close>

text \<open>Permission bits are words; the source's octal literals 0700, 0077, 0777 and 0600 are 0x1C0, 0x3F, 0x1FF and 0x180.\<close>

datatype node_type = Directory | Regular | Socket

record fs_node =
  node_kind :: node_type
  node_mode :: "32 word"

type_synonym file_system = "string \<rightharpoonup> fs_node"

text \<open>The calls that can fail for reasons of their own, and the failures of a run.\<close>

datatype fs_call = Make_dir string | Stat string | Chmod string | Unlink string | Bind string

record fs_env =
  fs_umask :: "32 word"
  fs_fault :: "fs_call \<Rightarrow> string option"

text \<open>The ancestors of a path, outermost first, and the path itself: what \<open>recursive(true)\<close> goes through.\<close>

definition dir_chain :: "string \<Rightarrow> string list" where
  "dir_chain path =
     map (\<lambda>i. take i path) (filter (\<lambda>i. path ! i = CHR ''/'' \<and> path ! (i - 1) \<noteq> CHR ''/'') [1..<length path]) @ [path]"

primrec make_dirs :: "fs_env \<Rightarrow> 32 word \<Rightarrow> string list \<Rightarrow> file_system \<Rightarrow> (string + unit) \<times> file_system" where
  "make_dirs e m [] fs = (Inr (), fs)"
| "make_dirs e m (d # ds) fs =
     (case fs d of
        Some n \<Rightarrow>
          if node_kind n = Directory then make_dirs e m ds fs
          else (Inl ''File exists'', fs)
      | None \<Rightarrow>
          (case fs_fault e (Make_dir d) of
             Some msg \<Rightarrow> (Inl msg, fs)
           | None \<Rightarrow> make_dirs e m ds (fs(d \<mapsto> \<lparr>node_kind = Directory, node_mode = m AND NOT (fs_umask e)\<rparr>))))"

text \<open>\<open>fs::set_permissions\<close>.\<close>

definition set_permissions :: "fs_env \<Rightarrow> string \<Rightarrow> 32 word \<Rightarrow> file_system \<Rightarrow> (string + unit) \<times> file_system" where
  "set_permissions e path m fs =
     (case fs_fault e (Chmod path) of
        Some msg \<Rightarrow> (Inl msg, fs)
      | None \<Rightarrow>
          (case fs path of
             None \<Rightarrow> (Inl ''No such file or directory'', fs)
           | Some n \<Rightarrow> (Inr (), fs(path \<mapsto> n\<lparr>node_mode := m\<rparr>))))"

text \<open>\<open>fs::metadata\<close>; \<open>Path::exists\<close> is its success.\<close>

definition metadata :: "fs_env \<Rightarrow> string \<Rightarrow> file_system \<Rightarrow> string + fs_node" where
  "metadata e path fs =
     (case fs_fault e (Stat path) of
        Some msg \<Rightarrow> Inl msg
      | None \<Rightarrow> (case fs path of None \<Rightarrow> Inl ''No such file or directory'' | Some n \<Rightarrow> Inr n))"

definition path_exists :: "fs_env \<Rightarrow> string \<Rightarrow> file_system \<Rightarrow> bool" where
  "path_exists e path fs = (case metadata e path fs of Inr _ \<Rightarrow> True | Inl _ \<Rightarrow> False)"

definition ensure_socket_dir :: "fs_env \<Rightarrow> string \<Rightarrow> file_system \<Rightarrow> (string + unit) \<times> file_system" where
  "ensure_socket_dir e dir fs =
     (case (if \<not> path_exists e dir fs then make_dirs e 0x1C0 (dir_chain dir) fs else (Inr (), fs)) of
        (Inl err, fs1) \<Rightarrow> (Inl err, fs1)
      | (Inr _, fs1) \<Rightarrow>
          (case metadata e dir fs1 of
             Inl err \<Rightarrow> (Inl err, fs1)
           | Inr meta \<Rightarrow>
               if node_kind meta \<noteq> Directory then (Inl (dir @ '' exists and is not a directory''), fs1)
               else if node_mode meta AND 0x3F \<noteq> 0 then set_permissions e dir 0x1C0 fs1
               else (Inr (), fs1)))"

text \<open>\<open>fs::remove_file\<close>: not for directories.\<close>

definition remove_file :: "fs_env \<Rightarrow> string \<Rightarrow> file_system \<Rightarrow> (string + unit) \<times> file_system" where
  "remove_file e path fs =
     (case fs_fault e (Unlink path) of
        Some msg \<Rightarrow> (Inl msg, fs)
      | None \<Rightarrow>
          (case fs path of
             None \<Rightarrow> (Inl ''No such file or directory'', fs)
           | Some n \<Rightarrow> if node_kind n = Directory then (Inl ''Is a directory'', fs) else (Inr (), fs(path := None))))"

text \<open>\<open>UnixListener::bind\<close>: a socket node with whatever the umask leaves of all permissions.\<close>

definition bind_socket :: "fs_env \<Rightarrow> string \<Rightarrow> file_system \<Rightarrow> (string + unit) \<times> file_system" where
  "bind_socket e path fs =
     (case fs_fault e (Bind path) of
        Some msg \<Rightarrow> (Inl msg, fs)
      | None \<Rightarrow>
          (case fs path of
             Some _ \<Rightarrow> (Inl ''Address already in use'', fs)
           | None \<Rightarrow> (Inr (), fs(path \<mapsto> \<lparr>node_kind = Socket, node_mode = 0x1FF AND NOT (fs_umask e)\<rparr>))))"

text \<open>\<open>bind_rpc_socket\<close>, with the states of the file system it goes through, the last one first.\<close>

definition bind_rpc_socket :: "fs_env \<Rightarrow> string \<Rightarrow> file_system \<Rightarrow> (string + unit) \<times> file_system list" where
  "bind_rpc_socket e dir fs =
     (case ensure_socket_dir e dir fs of
        (Inl err, fs1) \<Rightarrow> (Inl err, [fs1])
      | (Inr _, fs1) \<Rightarrow>
          let path = path_join dir ''runtime.sock'';
              fs2 = snd (remove_file e path fs1)
          in (case bind_socket e path fs2 of
                (Inl err, fs3) \<Rightarrow> (Inl err, [fs3, fs2, fs1])
              | (Inr _, fs3) \<Rightarrow>
                  (case set_permissions e path 0x180 fs3 of
                     (Inl err, fs4) \<Rightarrow> (Inl err, [fs4, fs3, fs2, fs1])
                   | (Inr _, fs4) \<Rightarrow> (Inr (), [fs4, fs3, fs2, fs1]))))"

section \<open>Lemmas\<close>

lemma path_join_neq: "c \<noteq> [] \<Longrightarrow> path_join base c \<noteq> base"
  by (simp add: path_join_def)

text \<open>A directory no one but its owner can enter, list or write.\<close>

definition private_dir :: "string \<Rightarrow> file_system \<Rightarrow> bool" where
  "private_dir d fs \<longleftrightarrow> (\<exists>n. fs d = Some n \<and> node_kind n = Directory \<and> node_mode n AND 0x3F = 0)"

lemma private_dir_other: "p \<noteq> d \<Longrightarrow> private_dir d (fs(p := x)) = private_dir d fs"
  by (simp add: private_dir_def)

lemma ensure_socket_dir_private:
  assumes "ensure_socket_dir e dir fs = (Inr u, fs')"
  shows "private_dir dir fs'"
proof -
  from assms obtain fs1 meta where meta: "metadata e dir fs1 = Inr meta" "node_kind meta = Directory"
    and rest: "(if node_mode meta AND 0x3F \<noteq> 0 then set_permissions e dir 0x1C0 fs1 else (Inr (), fs1)) = (Inr u, fs')"
    by (auto simp: ensure_socket_dir_def split: prod.splits sum.splits if_splits)
  from meta have "fs1 dir = Some meta" by (auto simp: metadata_def split: option.splits)
  moreover have "(0x1C0 :: 32 word) AND 0x3F = 0" by simp
  ultimately show ?thesis using meta(2) rest
    by (auto simp: private_dir_def set_permissions_def split: if_splits option.splits)
qed

lemma remove_file_other: "p \<noteq> d \<Longrightarrow> private_dir d fs \<Longrightarrow> private_dir d (snd (remove_file e p fs))"
  by (auto simp: remove_file_def private_dir_other split: option.splits)

lemma bind_socket_other: "bind_socket e p fs = (r, fs') \<Longrightarrow> p \<noteq> d \<Longrightarrow> private_dir d fs \<Longrightarrow> private_dir d fs'"
  by (auto simp: bind_socket_def private_dir_other split: option.splits)

lemma set_permissions_other:
  "set_permissions e p m fs = (r, fs') \<Longrightarrow> p \<noteq> d \<Longrightarrow> private_dir d fs \<Longrightarrow> private_dir d fs'"
  by (auto simp: set_permissions_def private_dir_other split: option.splits)

section \<open>Properties\<close>

text \<open>C31: the dashboard's socket is never reachable by another user. When \<open>bind_rpc_socket\<close> returns a listener, the
  socket's own permissions are those of its owner alone, and in every state of the file system from the
  check of the directory on, the moment between binding and tightening the socket included, the
  directory it lies in is closed to group and others.\<close>

theorem rpc_socket_private:
  assumes "bind_rpc_socket e dir fs = (Inr (), states)"
  shows "list_all (private_dir dir) states
    \<and> hd states (path_join dir ''runtime.sock'') = Some \<lparr>node_kind = Socket, node_mode = 0x180\<rparr>"
proof -
  let ?p = "path_join dir ''runtime.sock''"
  have neq: "?p \<noteq> dir" by (rule path_join_neq) simp
  from assms obtain fs1 fs3 fs4 where ens: "ensure_socket_dir e dir fs = (Inr (), fs1)"
    and bind: "bind_socket e ?p (snd (remove_file e ?p fs1)) = (Inr (), fs3)"
    and perm: "set_permissions e ?p 0x180 fs3 = (Inr (), fs4)"
    and st: "states = [fs4, fs3, snd (remove_file e ?p fs1), fs1]"
    by (auto simp: bind_rpc_socket_def Let_def split: prod.splits sum.splits)
  have p1: "private_dir dir fs1" using ensure_socket_dir_private [OF ens] .
  have p2: "private_dir dir (snd (remove_file e ?p fs1))" using remove_file_other [OF neq p1] .
  have p3: "private_dir dir fs3" using bind_socket_other [OF bind neq p2] .
  have p4: "private_dir dir fs4" using set_permissions_other [OF perm neq p3] .
  from bind perm have "fs4 ?p = Some \<lparr>node_kind = Socket, node_mode = 0x180\<rparr>"
    by (auto simp: bind_socket_def set_permissions_def split: option.splits)
  with p1 p2 p3 p4 st show ?thesis by simp
qed

definition sample_fs :: file_system where
  "sample_fs = [''/run/pg'' \<mapsto> \<lparr>node_kind = Directory, node_mode = 0x1ED\<rparr>, ''/run/pg/runtime.sock'' \<mapsto> \<lparr>node_kind = Socket, node_mode = 0x1FF\<rparr>]"

text \<open>A directory left open and a stale socket in it.\<close>

theorem rpc_socket_private_witness:
  "\<exists>states. bind_rpc_socket \<lparr>fs_umask = 0, fs_fault = Map.empty\<rparr> ''/run/pg'' sample_fs = (Inr (), states)
     \<and> list_all (private_dir ''/run/pg'') states \<and> length states = 4"
proof -
  let ?e = "\<lparr>fs_umask = 0, fs_fault = Map.empty\<rparr> :: fs_env"
  have "ensure_socket_dir ?e ''/run/pg'' sample_fs =
      (Inr (), sample_fs(''/run/pg'' \<mapsto> \<lparr>node_kind = Directory, node_mode = 0x1C0\<rparr>))"
    by (simp add: ensure_socket_dir_def path_exists_def metadata_def set_permissions_def sample_fs_def)
  then obtain states where run: "bind_rpc_socket ?e ''/run/pg'' sample_fs = (Inr (), states)" "length states = 4"
    by (simp add: bind_rpc_socket_def path_join_def remove_file_def bind_socket_def set_permissions_def sample_fs_def Let_def)
  from rpc_socket_private [OF run(1)] run show ?thesis by blast
qed

end
