(* ===== verification/Runtime_Worker.thy ===== *)
theory Runtime_Worker
  imports Procedure_Exec Outbound Config
begin

text \<open>
  \<open>src/runtime_worker.rs\<close> and \<open>src/rpc.rs\<close>: the runtime worker's claims and completions, the dashboard's
  socket, the propagation of cancellations, and one turn of the main loop. A turn is a computation in the
  PostgreSQL session; what else it sees of the world (the clock, the accepted connections, the results
  the pool threads finished, whether the pool is alive) is a record.
\<close>

section \<open>Definitions\<close>

subsection \<open>Transactions of the worker\<close>

definition installed_sql :: string where
  "installed_sql = ''SELECT EXISTS (SELECT 1 FROM pg_extension WHERE extname = '' @ [CHR 0x27] @ ''allgres'' @ [CHR 0x27] @ '')''"

definition extension_is_installed :: "bool pg" where
  "extension_is_installed =
     transaction (pg_bind (spi installed_sql []) (\<lambda>r.
       pg_return (case Option.bind (ok_flatten r) as_bool of None \<Rightarrow> False | Some b \<Rightarrow> b)))"

definition check_lost_sql :: string where
  "check_lost_sql = ''SELECT to_jsonb(allgres_public.fn_check_lost_outbound($1::text[]::uuid[]))''"

text \<open>\<open>ids\<close> are the registered calls, in the order the table yields them; the answer is the calls reported lost.\<close>

definition ask_lost :: "string option \<Rightarrow> string list \<Rightarrow> string list pg" where
  "ask_lost dp ids =
     (if ids = [] then pg_return []
      else
        transaction (pg_bind (drop_privileges dp) (\<lambda>ok.
          if \<not> ok then pg_return []
          else pg_bind (spi check_lost_sql [ATexts ids]) (\<lambda>r.
            pg_return (case r of
              Returned (Some v) \<Rightarrow>
                (case as_array v of None \<Rightarrow> [] | Some a \<Rightarrow> List.map_filter as_str a)
            | _ \<Rightarrow> [])))))"

definition propagate_outbound_cancellations ::
    "string option \<Rightarrow> string list \<Rightarrow> cancel_state \<Rightarrow> cancel_state pg" where
  "propagate_outbound_cancellations dp ids s =
     pg_bind (ask_lost dp ids) (\<lambda>lost. pg_return (if lost = [] then s else flag_lost lost s))"

definition warn_failed :: "string \<Rightarrow> spi_response \<Rightarrow> unit pg" where
  "warn_failed fn r =
     (case r of Failed e \<Rightarrow> pg_warn (''Allgres: '' @ fn @ '' failed: {}'') [e] | _ \<Rightarrow> pg_return ())"

definition dispatch_and_claim :: "string option \<Rightarrow> nat \<Rightarrow> json pg" where
  "dispatch_and_claim dp limit =
     transaction (pg_bind (drop_privileges dp) (\<lambda>ok.
       if \<not> ok then pg_return (empty_claim ''calls'')
       else
         pg_bind (spi ''SELECT allgres_public.fn_watchdog($1)'' [AInt (int (HTTP_TIMEOUT div 1000) * 2)]) (\<lambda>w.
         pg_bind (warn_failed ''fn_watchdog'' w) (\<lambda>_.
         pg_bind (spi ''SELECT allgres_public.fn_dispatch_tasks()'' []) (\<lambda>d.
         pg_bind (warn_failed ''fn_dispatch_tasks'' d) (\<lambda>_.
         pg_bind (spi ''SELECT allgres_public.fn_claim_outbound($1)'' [AInt (as_i32 (int limit))]) (\<lambda>r.
           pg_return (case ok_flatten r of Some j \<Rightarrow> j | None \<Rightarrow> empty_claim ''calls''))))))))"

definition claim_oauth_jobs :: "string option \<Rightarrow> int \<Rightarrow> json pg" where
  "claim_oauth_jobs dp limit = claim_jobs dp ''SELECT allgres_public.fn_claim_oauth($1)'' ''calls'' limit"

definition claim_agent_embedding_jobs :: "string option \<Rightarrow> int \<Rightarrow> json pg" where
  "claim_agent_embedding_jobs dp limit =
     claim_jobs dp ''SELECT allgres_public.fn_claim_agent_embedding($1)'' ''calls'' limit"

definition claim_provider_probe_jobs :: "string option \<Rightarrow> int \<Rightarrow> json pg" where
  "claim_provider_probe_jobs dp limit =
     claim_jobs dp ''SELECT allgres_public.fn_claim_provider_probe($1)'' ''calls'' limit"

definition sanitize_body :: "string \<Rightarrow> string" where
  "sanitize_body body = truncate_utf8 (filter (\<lambda>c. c \<noteq> CHR 0x00) body) MAX_RESPONSE_BYTES"

definition submit_call_result :: "string option \<Rightarrow> string \<Rightarrow> string \<Rightarrow> int \<Rightarrow> string \<Rightarrow> unit pg" where
  "submit_call_result dp fn call_id status body =
     complete_call dp fn ''call '' (''SELECT allgres_public.'' @ fn @ ''($1::uuid, $2, $3)'') call_id
       [AInt status, AText (sanitize_body body)]"

definition submit_http_result :: "string option \<Rightarrow> string \<Rightarrow> int \<Rightarrow> string \<Rightarrow> unit pg" where
  "submit_http_result dp = submit_call_result dp ''fn_complete_outbound''"

definition submit_oauth_result :: "string option \<Rightarrow> string \<Rightarrow> int \<Rightarrow> string \<Rightarrow> unit pg" where
  "submit_oauth_result dp = submit_call_result dp ''fn_complete_oauth''"

definition submit_agent_embedding_result :: "string option \<Rightarrow> string \<Rightarrow> int \<Rightarrow> string \<Rightarrow> unit pg" where
  "submit_agent_embedding_result dp = submit_call_result dp ''fn_complete_agent_embedding''"

definition submit_provider_probe_result :: "string option \<Rightarrow> string \<Rightarrow> int \<Rightarrow> string \<Rightarrow> unit pg" where
  "submit_provider_probe_result dp = submit_call_result dp ''fn_complete_provider_probe''"

definition dashboard_sql :: string where
  "dashboard_sql = ''SELECT allgres.dashboard_rpc($1::jsonb)''"

definition dashboard_rpc :: "json_text \<Rightarrow> string option \<Rightarrow> string \<Rightarrow> string pg" where
  "dashboard_rpc jt dp request =
     transaction (pg_bind (drop_privileges dp) (\<lambda>ok.
       if \<not> ok then pg_return (json_print jt (rpc_error ''privilege_drop_failed''))
       else pg_bind (spi dashboard_sql [AText request]) (\<lambda>r.
         pg_return (case ok_flatten r of
           Some j \<Rightarrow> json_print jt j
         | None \<Rightarrow> json_print jt (rpc_error ''empty_rpc_result'')))))"

subsection \<open>The dashboard's socket\<close>

text \<open>The reply to one connection; the input is what \<open>read_to_end\<close> delivers, \<^const>\<open>None\<close> an error. \<open>take\<close> cuts
  the input at \<open>MAX_REQUEST_BYTES\<close>.\<close>

definition handle_rpc_stream :: "json_text \<Rightarrow> string option \<Rightarrow> bool \<Rightarrow> bytes option \<Rightarrow> bytes pg" where
  "handle_rpc_stream jt dp ready input =
     (case input of
        None \<Rightarrow> pg_return (json_print jt (rpc_error ''rpc_read_failed''))
      | Some sent \<Rightarrow>
          let body = take MAX_REQUEST_BYTES sent in
          if utf8_valid body \<and> json_parse jt body \<noteq> None then
            if ready then dashboard_rpc jt dp body
            else pg_return (json_print jt (rpc_error ''extension_not_installed''))
          else pg_return (json_print jt (rpc_error ''invalid_json_request'')))"

subsection \<open>One turn of the main loop\<close>

record runtime_state =
  in_flight :: nat
  ready :: bool
  next_pump :: nat
  idle_delay :: nat
  cancels :: cancel_state

record tick_env =
  rpc_inputs :: "bytes option list"
  accept_error :: "string option"
  finished :: "outbound_result list"
  cancel_ids :: "string list"
  pump_time :: nat
  schedule_time :: nat
  pool_alive :: bool
  wall_clock :: "pg_event list \<Rightarrow> nat"
  json_io :: json_text

definition capacity :: nat where
  "capacity = HTTP_THREADS * 2"

definition runtime_start :: "nat \<Rightarrow> runtime_state" where
  "runtime_start now = \<lparr>in_flight = 0, ready = False, next_pump = now, idle_delay = PUMP_IDLE_MIN,
     cancels = no_flags\<rparr>"

text \<open>\<open>obj.insert("kind", ...)\<close> on a call that is an object.\<close>

definition tag_kind :: "string option \<Rightarrow> json \<Rightarrow> json" where
  "tag_kind kind call =
     (case (kind, call) of
        (Some k, JObject kvs) \<Rightarrow> JObject (obj_insert ''kind'' (JString k) kvs)
      | _ \<Rightarrow> call)"

text \<open>The loop over claimed calls: entries without a well-formed id are passed over, a closed channel ends
  the loop.\<close>

fun enqueue :: "bool \<Rightarrow> outbound_queue \<Rightarrow> string option \<Rightarrow> json list \<Rightarrow> outbound_job list" where
  "enqueue alive queue kind [] = []"
| "enqueue alive queue kind (call # calls) =
     (case get_str call ''call_id'' of
        None \<Rightarrow> enqueue alive queue kind calls
      | Some i \<Rightarrow>
          if \<not> valid_uuid i then enqueue alive queue kind calls
          else if \<not> alive then []
          else \<lparr>job_call_id = i, job_queue = queue, job_call = tag_kind kind call\<rparr>
                 # enqueue alive queue kind calls)"

definition claim_stage ::
    "(nat \<Rightarrow> json pg) \<Rightarrow> bool \<Rightarrow> outbound_queue \<Rightarrow> string option \<Rightarrow> bool \<Rightarrow> outbound_job list \<Rightarrow> nat \<Rightarrow> outbound_job list pg" where
  "claim_stage claim alive queue kind is_ready sent busy =
     (if is_ready \<and> busy + length sent < capacity then
        pg_bind (claim (capacity - (busy + length sent))) (\<lambda>claimed.
          pg_return (case get_array claimed ''calls'' of
            None \<Rightarrow> sent
          | Some calls \<Rightarrow> sent @ enqueue alive queue kind calls))
      else pg_return sent)"

text \<open>Stages 3 to 3d: the four queues in order, sharing the capacity. \<open>busy\<close> is \<open>in_flight\<close> at the start.\<close>

definition claim_stages :: "string option \<Rightarrow> bool \<Rightarrow> bool \<Rightarrow> nat \<Rightarrow> outbound_job list pg" where
  "claim_stages dp alive is_ready busy =
     pg_bind (claim_stage (dispatch_and_claim dp) alive Outbound None is_ready [] busy) (\<lambda>j1.
     pg_bind (claim_stage (\<lambda>n. claim_oauth_jobs dp (as_i32 (int n))) alive Oauth (Some ''oauth'') is_ready j1 busy) (\<lambda>j2.
     pg_bind (claim_stage (\<lambda>n. claim_agent_embedding_jobs dp (as_i32 (int n))) alive AgentEmbedding (Some ''embedding'') is_ready j2 busy) (\<lambda>j3.
       claim_stage (\<lambda>n. claim_provider_probe_jobs dp (as_i32 (int n))) alive ProviderProbe (Some ''function'') is_ready j3 busy)))"

definition pg_when :: "bool \<Rightarrow> nat pg \<Rightarrow> nat pg" where
  "pg_when b m = (if b then m else pg_return 0)"

text \<open>Stages 4 to 6: what runs on the worker's own thread.\<close>

definition run_pumps :: "(pg_event list \<Rightarrow> nat) \<Rightarrow> string option \<Rightarrow> bool \<Rightarrow> nat pg" where
  "run_pumps clock dp is_ready =
     pg_bind (pg_when is_ready (pump_sql dp)) (\<lambda>a.
     pg_bind (pg_when is_ready (pump_function_builds clock dp)) (\<lambda>b.
     pg_bind (pg_when is_ready (pump_function_calls dp)) (\<lambda>c.
     pg_bind (pg_when is_ready (pump_procedure_builds clock dp)) (\<lambda>d.
     pg_bind (pg_when is_ready (pump_procedure_calls dp)) (\<lambda>e.
       pg_return (a + b + c + d + e))))))"

definition submit_result :: "string option \<Rightarrow> outbound_result \<Rightarrow> unit pg" where
  "submit_result dp r =
     (case res_queue r of
        Outbound \<Rightarrow> submit_http_result dp (res_call_id r) (res_status r) (res_body r)
      | Oauth \<Rightarrow> submit_oauth_result dp (res_call_id r) (res_status r) (res_body r)
      | AgentEmbedding \<Rightarrow> submit_agent_embedding_result dp (res_call_id r) (res_status r) (res_body r)
      | ProviderProbe \<Rightarrow> submit_provider_probe_result dp (res_call_id r) (res_status r) (res_body r))"

primrec harvest :: "string option \<Rightarrow> outbound_result list \<Rightarrow> nat \<Rightarrow> nat pg" where
  "harvest dp [] busy = pg_return busy"
| "harvest dp (r # rs) busy = pg_bind (submit_result dp r) (\<lambda>_. harvest dp rs (busy - 1))"

primrec serve_rpc :: "json_text \<Rightarrow> string option \<Rightarrow> bool \<Rightarrow> bytes option list \<Rightarrow> bytes list pg" where
  "serve_rpc jt dp is_ready [] = pg_return []"
| "serve_rpc jt dp is_ready (i # is) =
     pg_bind (handle_rpc_stream jt dp is_ready i) (\<lambda>reply.
     pg_bind (serve_rpc jt dp is_ready is) (\<lambda>replies. pg_return (reply # replies)))"

text \<open>The accept loop: it ends when no connection is waiting, or with a warning on any other error.\<close>

definition accept_rpc :: "json_text \<Rightarrow> string option \<Rightarrow> bool \<Rightarrow> bytes option list \<Rightarrow> string option \<Rightarrow> bytes list pg" where
  "accept_rpc jt dp is_ready inputs err =
     pg_bind (serve_rpc jt dp is_ready inputs) (\<lambda>replies.
       case err of
         None \<Rightarrow> pg_return replies
       | Some e \<Rightarrow> pg_bind (pg_warn ''Allgres RPC accept: {}'' [e]) (\<lambda>_. pg_return replies))"

text \<open>The schedule at the end of a turn: busy again soon, or the idle delay, doubled up to its cap.\<close>

definition schedule :: "nat \<Rightarrow> bool \<Rightarrow> runtime_state \<Rightarrow> runtime_state" where
  "schedule now worked st =
     (if worked then st\<lparr>idle_delay := PUMP_IDLE_MIN, next_pump := now + PUMP_BUSY\<rparr>
      else st\<lparr>next_pump := now + idle_delay st, idle_delay := min (idle_delay st * 2) PUMP_IDLE_MAX\<rparr>)"

text \<open>The end of a turn that pumped: \<open>in_flight\<close> counts the jobs sent, and the next turn is scheduled.\<close>

definition end_turn :: "nat \<Rightarrow> bool \<Rightarrow> outbound_job list \<Rightarrow> nat \<Rightarrow> runtime_state \<Rightarrow> runtime_state" where
  "end_turn now is_ready jobs pumped st =
     schedule now (jobs \<noteq> [] \<or> 0 < pumped) (st\<lparr>ready := is_ready, in_flight := in_flight st + length jobs\<rparr>)"

text \<open>Step 3 onwards, when the pump is due; \<open>in_flight\<close> has been updated by the harvest.\<close>

definition pump_phase :: "string option \<Rightarrow> tick_env \<Rightarrow> runtime_state \<Rightarrow> (runtime_state \<times> outbound_job list) pg" where
  "pump_phase dp env st =
     (if pump_time env < next_pump st then pg_return (st, [])
      else
        pg_bind extension_is_installed (\<lambda>is_ready.
        pg_bind (claim_stages dp (pool_alive env) is_ready (in_flight st)) (\<lambda>jobs.
        pg_bind (run_pumps (wall_clock env) dp is_ready) (\<lambda>pumped.
          pg_return (end_turn (schedule_time env) is_ready jobs pumped st, jobs)))))"

definition tick :: "string option \<Rightarrow> tick_env \<Rightarrow> runtime_state \<Rightarrow> (runtime_state \<times> outbound_job list) pg" where
  "tick dp env st =
     pg_bind (accept_rpc (json_io env) dp (ready st) (rpc_inputs env) (accept_error env)) (\<lambda>_.
     pg_bind (harvest dp (finished env) (in_flight st)) (\<lambda>busy.
     pg_bind (propagate_outbound_cancellations dp (cancel_ids env) (cancels st)) (\<lambda>cs.
       pump_phase dp env (st\<lparr>in_flight := busy, cancels := cs\<rparr>))))"

subsection \<open>The worker's life\<close>

text \<open>What the worker starts with, and what each waking of its latch brings until it is told to end.\<close>

record boot_env =
  boot_vars :: environment
  boot_data_dir :: "string option"
  boot_temp_dir :: string
  boot_fs_env :: fs_env
  boot_fs :: file_system
  boot_nonblocking :: "string + unit"
  boot_time :: nat
  wakes :: "tick_env list"

primrec run_turns :: "string option \<Rightarrow> tick_env list \<Rightarrow> runtime_state \<Rightarrow> (runtime_state \<times> outbound_job list) pg" where
  "run_turns dp [] st = pg_return (st, [])"
| "run_turns dp (env # envs) st =
     pg_bind (tick dp env st) (\<lambda>(st', jobs).
     pg_bind (run_turns dp envs st') (\<lambda>(st'', jobs'). pg_return (st'', jobs @ jobs')))"

text \<open>\<open>allgres_runtime_main\<close>: no state when the socket could not be set up; the jobs sent over its life, and the file
  system it leaves.\<close>

definition allgres_runtime_main :: "boot_env \<Rightarrow> ((runtime_state \<times> outbound_job list) option \<times> file_system) pg" where
  "allgres_runtime_main b =
     (let dir = socket_dir (boot_vars b) (boot_data_dir b) (boot_temp_dir b);
          (bound, states) = bind_rpc_socket (boot_fs_env b) dir (boot_fs b);
          fs = hd states
      in
        case bound of
          Inl e \<Rightarrow> pg_bind (pg_warn ''Allgres RPC bind failed ({}): {}'' [dir, e]) (\<lambda>_. pg_return (None, fs))
        | Inr _ \<Rightarrow>
            (case boot_nonblocking b of
               Inl e \<Rightarrow> pg_bind (pg_warn ''Allgres RPC nonblocking failed: {}'' [e]) (\<lambda>_. pg_return (None, fs))
             | Inr _ \<Rightarrow>
                 pg_bind (run_turns (boot_vars b ''ALLGRES_DROP_PRIVILEGES'') (wakes b) (runtime_start (boot_time b))) (\<lambda>st.
                   pg_return (Some st, snd (remove_file (boot_fs_env b)
                     (rpc_socket_path (boot_vars b) (boot_data_dir b) (boot_temp_dir b)) fs)))))"

section \<open>Lemmas\<close>

subsection \<open>Capacity\<close>

definition claim_queries :: "string list" where
  "claim_queries =
     [''SELECT allgres_public.fn_claim_outbound($1)'', ''SELECT allgres_public.fn_claim_oauth($1)'',
      ''SELECT allgres_public.fn_claim_agent_embedding($1)'', ''SELECT allgres_public.fn_claim_provider_probe($1)'']"

text \<open>What the worker relies on: asked for at least one call, a claim function returns no more calls than its limit.\<close>

definition claims_within_limit :: "pg_db \<Rightarrow> bool" where
  "claims_within_limit db \<longleftrightarrow>
     (\<forall>h q n j calls. q \<in> set claim_queries \<longrightarrow> 1 \<le> n \<longrightarrow> db h q [AInt n] = Returned (Some j) \<longrightarrow>
        get_array j ''calls'' = Some calls \<longrightarrow> int (length calls) \<le> n)"

lemma enqueue_length: "length (enqueue alive queue kind calls) \<le> length calls"
  by (induction alive queue kind calls rule: enqueue.induct) (auto split: option.split)

lemma as_i32_small: "0 \<le> n \<Longrightarrow> n < 2 ^ 31 \<Longrightarrow> as_i32 n = n"
  by (simp add: as_i32_def)

lemma get_array_empty_claim [simp]: "get_array (empty_claim ''calls'') ''calls'' = Some []"
  by (simp add: empty_claim_def get_array_def json_get_object as_array_def)

lemma ok_flatten_Some: "ok_flatten r = Some j \<longleftrightarrow> r = Returned (Some j)"
  by (simp add: ok_flatten_def split: spi_response.split)

lemma claim_jobs_result:
  assumes "claim_jobs dp q key n db h = (Value claimed, es)"
  shows "claimed = empty_claim key \<or> (\<exists>h'. db h' q [AInt n] = Returned (Some claimed))"
  using assms
  by (auto simp: claim_jobs_def transaction_def bind_Value_iff spi_Value_iff ok_flatten_Some
      split: if_splits option.splits)

lemma dispatch_and_claim_result:
  assumes "dispatch_and_claim dp n db h = (Value claimed, es)"
  shows "claimed = empty_claim ''calls'' \<or>
    (\<exists>h'. db h' ''SELECT allgres_public.fn_claim_outbound($1)'' [AInt (as_i32 (int n))] = Returned (Some claimed))"
  using assms
  by (auto simp: dispatch_and_claim_def transaction_def bind_Value_iff spi_Value_iff ok_flatten_Some
      split: if_splits option.splits)

lemma claim_jobs_within:
  assumes "claims_within_limit db" "q \<in> set claim_queries" "1 \<le> n"
    and "claim_jobs dp q ''calls'' n db h = (Value claimed, es)" "get_array claimed ''calls'' = Some calls"
  shows "int (length calls) \<le> n"
  using claim_jobs_result [OF assms(4)] assms unfolding claims_within_limit_def by auto

lemma dispatch_within:
  assumes "claims_within_limit db" "n \<le> capacity" "0 < n"
    and "dispatch_and_claim dp n db h = (Value claimed, es)" "get_array claimed ''calls'' = Some calls"
  shows "length calls \<le> n"
proof -
  have n: "as_i32 (int n) = int n"
    using assms(2) by (intro as_i32_small) (auto simp: capacity_def HTTP_THREADS_def)
  have "''SELECT allgres_public.fn_claim_outbound($1)'' \<in> set claim_queries" by (simp add: claim_queries_def)
  then have "int (length calls) \<le> int n" if "db h' ''SELECT allgres_public.fn_claim_outbound($1)'' [AInt (int n)] = Returned (Some claimed)" for h'
    using assms(1,3,5) that unfolding claims_within_limit_def by (metis One_nat_def Suc_leI of_nat_1 of_nat_le_iff)
  with dispatch_and_claim_result [OF assms(4)] assms(5) n show ?thesis by auto
qed

lemma claim_stage_within:
  assumes "claim_stage claim alive queue kind is_ready sent busy db h = (Value jobs, es)"
    and "busy + length sent \<le> capacity"
    and "\<And>n claimed es' calls. n \<le> capacity \<Longrightarrow> 0 < n \<Longrightarrow> claim n db h = (Value claimed, es') \<Longrightarrow>
      get_array claimed ''calls'' = Some calls \<Longrightarrow> length calls \<le> n"
  shows "busy + length jobs \<le> capacity \<and> length sent \<le> length jobs"
proof (cases "is_ready \<and> busy + length sent < capacity")
  case True
  let ?n = "capacity - (busy + length sent)"
  from assms(1) True obtain claimed es' where c: "claim ?n db h = (Value claimed, es')"
    "jobs = (case get_array claimed ''calls'' of None \<Rightarrow> sent | Some calls \<Rightarrow> sent @ enqueue alive queue kind calls)"
    by (auto simp: claim_stage_def bind_Value_iff)
  have "length (enqueue alive queue kind calls) \<le> ?n" if "get_array claimed ''calls'' = Some calls" for calls
    using assms(3) [OF _ _ c(1) that] True enqueue_length [of alive queue kind calls] by simp
  with c(2) True show ?thesis by (fastforce split: option.splits)
next
  case False
  with assms(1,2) show ?thesis by (auto simp: claim_stage_def)
qed

lemma claim_stages_within:
  assumes "claims_within_limit db" "busy \<le> capacity"
    and "claim_stages dp alive is_ready busy db h = (Value jobs, es)"
  shows "busy + length jobs \<le> capacity"
proof -
  have small: "as_i32 (int n) = int n" if "n \<le> capacity" for n
    using that by (intro as_i32_small) (auto simp: capacity_def HTTP_THREADS_def)
  have other: "length calls \<le> n"
    if "n \<le> capacity" "0 < n" "q \<in> set claim_queries" "claim_jobs dp q ''calls'' (as_i32 (int n)) db h' = (Value c, es')"
      "get_array c ''calls'' = Some calls" for n q h' c es' calls
    using claim_jobs_within [OF assms(1) that(3) _ that(4,5)] small [OF that(1)] that(2) by simp
  from assms(3) obtain j1 j2 j3 h1 h2 h3 e1 e2 e3 e4 where
    s1: "claim_stage (dispatch_and_claim dp) alive Outbound None is_ready [] busy db h = (Value j1, e1)" and
    s2: "claim_stage (\<lambda>n. claim_oauth_jobs dp (as_i32 (int n))) alive Oauth (Some ''oauth'') is_ready j1 busy db h1 = (Value j2, e2)" and
    s3: "claim_stage (\<lambda>n. claim_agent_embedding_jobs dp (as_i32 (int n))) alive AgentEmbedding (Some ''embedding'') is_ready j2 busy db h2 = (Value j3, e3)" and
    s4: "claim_stage (\<lambda>n. claim_provider_probe_jobs dp (as_i32 (int n))) alive ProviderProbe (Some ''function'') is_ready j3 busy db h3 = (Value jobs, e4)"
    by (auto simp: claim_stages_def bind_Value_iff)
  have "busy + length j1 \<le> capacity"
    using claim_stage_within [OF s1] assms(2) dispatch_within [OF assms(1)] by simp
  then have "busy + length j2 \<le> capacity"
    using claim_stage_within [OF s2] other [where q = "''SELECT allgres_public.fn_claim_oauth($1)''"]
    by (simp add: claim_oauth_jobs_def claim_queries_def)
  then have "busy + length j3 \<le> capacity"
    using claim_stage_within [OF s3] other [where q = "''SELECT allgres_public.fn_claim_agent_embedding($1)''"]
    by (simp add: claim_agent_embedding_jobs_def claim_queries_def)
  then show ?thesis
    using claim_stage_within [OF s4] other [where q = "''SELECT allgres_public.fn_claim_provider_probe($1)''"]
    by (simp add: claim_provider_probe_jobs_def claim_queries_def)
qed

subsection \<open>Well-typed jobs\<close>

definition queue_kind :: "outbound_queue \<Rightarrow> string option" where
  "queue_kind q =
     (case q of
        Outbound \<Rightarrow> None
      | Oauth \<Rightarrow> Some ''oauth''
      | AgentEmbedding \<Rightarrow> Some ''embedding''
      | ProviderProbe \<Rightarrow> Some ''function'')"

definition job_typed :: "outbound_job \<Rightarrow> bool" where
  "job_typed j \<longleftrightarrow> valid_uuid (job_call_id j) \<and> get_str (job_call j) ''call_id'' = Some (job_call_id j)
     \<and> (\<forall>k. queue_kind (job_queue j) = Some k \<longrightarrow> get_str (job_call j) ''kind'' = Some k)"

lemma get_str_object: "get_str call k = Some v \<Longrightarrow> \<exists>kvs. call = JObject kvs"
  by (cases call) (auto simp: get_str_def json_get_def)

lemma tag_kind_typed:
  assumes "get_str call ''call_id'' = Some i"
  shows "get_str (tag_kind kind call) ''call_id'' = Some i"
    "kind = Some k \<Longrightarrow> get_str (tag_kind kind call) ''kind'' = Some k"
  using assms get_str_object [OF assms]
  by (auto simp: tag_kind_def get_str_def json_get_def as_str_def split: option.splits)

lemma enqueue_typed: "list_all job_typed (enqueue alive queue (queue_kind queue) calls)"
  by (induction calls) (auto simp: job_typed_def tag_kind_typed split: option.split)

lemma claim_stage_typed:
  assumes "claim_stage claim alive queue (queue_kind queue) is_ready sent busy db h = (Value jobs, es)"
    and "list_all job_typed sent"
  shows "list_all job_typed jobs"
  using assms enqueue_typed by (auto simp: claim_stage_def bind_Value_iff split: if_splits option.splits)

lemma claim_stages_typed:
  assumes "claim_stages dp alive is_ready busy db h = (Value jobs, es)"
  shows "list_all job_typed jobs"
proof -
  note typed = claim_stage_typed [where queue = Outbound] claim_stage_typed [where queue = Oauth]
    claim_stage_typed [where queue = AgentEmbedding] claim_stage_typed [where queue = ProviderProbe]
  from assms show ?thesis
    unfolding claim_stages_def bind_Value_iff
    by (elim exE conjE) (drule typed [unfolded queue_kind_def outbound_queue.case], simp+)+
qed

subsection \<open>Turns\<close>

lemma pump_phase_cases:
  assumes "pump_phase dp env st db h = (Value (st', jobs), es)"
  obtains (early) "pump_time env < next_pump st" "st' = st" "jobs = []"
    | (due) is_ready pumped hc ec where "next_pump st \<le> pump_time env"
        "claim_stages dp (pool_alive env) is_ready (in_flight st) db hc = (Value jobs, ec)"
        "st' = end_turn (schedule_time env) is_ready jobs pumped st"
  using assms by (auto simp: pump_phase_def bind_Value_iff split: if_splits)

lemma in_flight_end_turn [simp]: "in_flight (end_turn now r jobs pumped st) = in_flight st + length jobs"
  by (simp add: end_turn_def schedule_def)

lemma harvest_count: "harvest dp rs busy db h = (Value n, es) \<Longrightarrow> n = busy - length rs"
proof (induction rs arbitrary: busy h es)
  case (Cons r rs)
  then obtain h' es' where "harvest dp rs (busy - 1) db h' = (Value n, es')" by (auto simp: bind_Value_iff)
  from Cons.IH [OF this] show ?case by simp
qed simp

subsection \<open>Runs of the main loop\<close>

text \<open>The states the loop can be in when a turn starts: turns follow one another on a clock that does not go
  back, each against the same server, whose answers may depend on everything before.\<close>

inductive worker_run :: "string option \<Rightarrow> pg_db \<Rightarrow> nat \<Rightarrow> pg_event list \<Rightarrow> runtime_state \<Rightarrow> bool" for dp db where
  start: "worker_run dp db now [] (runtime_start now)"
| turn: "worker_run dp db (schedule_time env) (h @ es) st'"
    if "worker_run dp db now h st" and "now \<le> pump_time env" and "pump_time env \<le> schedule_time env"
      and "tick dp env st db h = (Value (st', jobs), es)"

text \<open>What holds of the idle delay and the schedule between turns.\<close>

definition backoff_ok :: "nat \<Rightarrow> runtime_state \<Rightarrow> bool" where
  "backoff_ok now st \<longleftrightarrow> idle_delay st \<in> {500, 1000, 2000, 4000} \<and> next_pump st \<le> now + PUMP_IDLE_MAX"

lemma backoff_start: "backoff_ok now (runtime_start now)"
  by (simp add: backoff_ok_def runtime_start_def PUMP_IDLE_MIN_def)

lemma backoff_end_turn: "backoff_ok now st \<Longrightarrow> backoff_ok now' (end_turn now' r jobs n st)"
  by (auto simp: backoff_ok_def end_turn_def schedule_def PUMP_IDLE_MIN_def PUMP_IDLE_MAX_def PUMP_BUSY_def)

lemma backoff_later: "backoff_ok now st \<Longrightarrow> now \<le> now' \<Longrightarrow> backoff_ok now' st"
  by (auto simp: backoff_ok_def)

lemma tick_pump:
  assumes "tick dp env st db h = (Value (st', jobs), es)"
  obtains busy cs hr er where "busy = in_flight st - length (finished env)"
    "pump_phase dp env (st\<lparr>in_flight := busy, cancels := cs\<rparr>) db hr = (Value (st', jobs), er)"
proof -
  from assms obtain busy hb eb cs hr er where
    hv: "harvest dp (finished env) (in_flight st) db hb = (Value busy, eb)" and
    rest: "pump_phase dp env (st\<lparr>in_flight := busy, cancels := cs\<rparr>) db hr = (Value (st', jobs), er)"
    unfolding tick_def bind_Value_iff by blast
  from that harvest_count [OF hv] rest show ?thesis by blast
qed

text \<open>A turn touches the cancellation flags only by raising those of lost calls.\<close>

lemma cancels_end_turn [simp]: "cancels (end_turn now r jobs n st) = cancels st"
  by (simp add: end_turn_def schedule_def)

lemma propagate_flags:
  assumes "propagate_outbound_cancellations dp ids s db h = (Value s', es)"
  shows "s' = s \<or> (\<exists>lost. s' = flag_lost lost s)"
  using assms by (auto simp: propagate_outbound_cancellations_def bind_Value_iff split: if_splits)

lemma tick_cancels:
  assumes "tick dp env st db h = (Value (st', jobs), es)"
  shows "cancels st' = cancels st \<or> (\<exists>lost. cancels st' = flag_lost lost (cancels st))"
proof -
  from assms obtain busy cs hp ep hr er where
    flags: "propagate_outbound_cancellations dp (cancel_ids env) (cancels st) db hp = (Value cs, ep)" and
    rest: "pump_phase dp env (st\<lparr>in_flight := busy, cancels := cs\<rparr>) db hr = (Value (st', jobs), er)"
    unfolding tick_def bind_Value_iff by blast
  from rest have "cancels st' = cs" by (cases rule: pump_phase_cases) simp_all
  with propagate_flags [OF flags] show ?thesis by simp
qed

text \<open>A server that lets the privilege drop land and names the lost calls among those asked about.\<close>

definition reports_lost :: "pg_db \<Rightarrow> string list \<Rightarrow> string list \<Rightarrow> bool" where
  "reports_lost db ids lost \<longleftrightarrow> (\<forall>h. db h assume_worker_role [] = Returned (Some (JBool True))
     \<and> db h check_lost_sql [ATexts ids] = Returned (Some (JArray (map JString lost))))"

lemma propagate_lost:
  assumes "reports_lost db ids lost" "ids \<noteq> []"
    and "propagate_outbound_cancellations dp ids s db h = (Value s', es)"
  shows "s' = flag_lost lost s"
proof -
  have "List.map_filter as_str (map JString lost) = lost"
    by (induction lost) (simp_all add: map_filter_ops as_str_def)
  then show ?thesis
    using assms
    by (auto simp: propagate_outbound_cancellations_def ask_lost_def reports_lost_def transaction_eq pg_bind_def drop_privileges_def
        spi_def as_array_def Let_def flag_lost_def split: if_splits)
qed

lemma tick_flags_lost:
  assumes "reports_lost db (cancel_ids env) lost" "cancel_ids env \<noteq> []"
    and "tick dp env st db h = (Value (st', jobs), es)"
  shows "cancels st' = flag_lost lost (cancels st)"
proof -
  from assms(3) obtain busy cs hp ep hr er where
    flags: "propagate_outbound_cancellations dp (cancel_ids env) (cancels st) db hp = (Value cs, ep)" and
    rest: "pump_phase dp env (st\<lparr>in_flight := busy, cancels := cs\<rparr>) db hr = (Value (st', jobs), er)"
    unfolding tick_def bind_Value_iff by blast
  from rest have "cancels st' = cs" by (cases rule: pump_phase_cases) simp_all
  with propagate_lost [OF assms(1,2) flags] show ?thesis by simp
qed

lemma tick_backoff:
  assumes "tick dp env st db h = (Value (st', jobs), es)" and "backoff_ok now st"
    and "now \<le> pump_time env" "pump_time env \<le> schedule_time env"
  shows "backoff_ok (schedule_time env) st'"
proof -
  from assms(1) obtain busy cs hr er where
    rest: "pump_phase dp env (st\<lparr>in_flight := busy, cancels := cs\<rparr>) db hr = (Value (st', jobs), er)"
    by (rule tick_pump)
  have "backoff_ok now (st\<lparr>in_flight := busy, cancels := cs\<rparr>)" using assms(2) by (simp add: backoff_ok_def)
  with rest assms(3,4) show ?thesis
    by (cases rule: pump_phase_cases) (auto intro: backoff_end_turn elim: backoff_later)
qed

lemma tick_in_flight:
  assumes "claims_within_limit db" and "in_flight st \<le> capacity"
    and "tick dp env st db h = (Value (st', jobs), es)"
  shows "in_flight st' \<le> capacity \<and> in_flight st' = in_flight st - length (finished env) + length jobs"
proof -
  from assms(3) obtain busy cs hr er where busy: "busy = in_flight st - length (finished env)" and
    rest: "pump_phase dp env (st\<lparr>in_flight := busy, cancels := cs\<rparr>) db hr = (Value (st', jobs), er)"
    by (rule tick_pump)
  have alt: "in_flight st' = busy + length jobs \<and> (jobs = [] \<or>
      (\<exists>is_ready hc ec. claim_stages dp (pool_alive env) is_ready busy db hc = (Value jobs, ec)))"
    using rest by (cases rule: pump_phase_cases) auto
  have "busy \<le> capacity" using assms(2) busy by simp
  with alt claim_stages_within [OF assms(1)] busy show ?thesis by auto
qed

section \<open>Properties\<close>

text \<open>A server with one outbound call to claim, whatever the limit.\<close>

definition one_outbound_call :: json where
  "one_outbound_call = json_object [(''calls'', JArray [json_object [(''call_id'', JString sample_uuid)]])]"

definition outbound_db :: pg_db where
  "outbound_db h q args =
     (if q = installed_sql then Returned (Some (JBool True))
      else if q = check_lost_sql then Returned (Some (JArray [JString sample_uuid]))
      else if q = ''SELECT allgres_public.fn_claim_outbound($1)'' then Returned (Some one_outbound_call)
      else willing_db h q args)"

definition idle_env :: tick_env where
  "idle_env = \<lparr>rpc_inputs = [], accept_error = None, finished = [], cancel_ids = [], pump_time = 0, schedule_time = 10, pool_alive = True,
     wall_clock = (\<lambda>_. 0), json_io = \<lparr>json_print = (\<lambda>_. ''{}''), json_parse = (\<lambda>_. None)\<rparr>\<rparr>"

lemma get_array_ok [simp]: "get_array (json_object [(''ok'', v)]) ''calls'' = None"
    "get_array (json_object [(''ok'', v)]) ''builds'' = None"
  by (simp_all add: get_array_def json_get_object)

lemma get_array_outbound:
  "get_array one_outbound_call ''calls'' = Some [json_object [(''call_id'', JString sample_uuid)]]"
  by (simp add: one_outbound_call_def get_array_def json_get_object as_array_def)

lemma outbound_db_within: "claims_within_limit outbound_db"
  unfolding claims_within_limit_def
  by (auto simp: outbound_db_def willing_db_def claim_queries_def installed_sql_def check_lost_sql_def assume_worker_role_def get_array_outbound
      split: if_splits)

lemma outbound_db_claims:
  assumes "q \<noteq> installed_sql" "q \<noteq> check_lost_sql" "q \<noteq> assume_worker_role"
    "q \<noteq> ''SELECT allgres_public.fn_claim_outbound($1)''"
  shows "pg_gives (claim_jobs None q key n) outbound_db (json_object [(''ok'', JBool True)])"
  using assms
  by (simp add: pg_gives_def claim_jobs_def transaction_eq pg_bind_def drop_privileges_def spi_def outbound_db_def
      willing_db_def assume_worker_role_def installed_sql_def check_lost_sql_def ok_flatten_def Let_def)

lemma outbound_db_pump:
  assumes "q \<noteq> installed_sql" "q \<noteq> check_lost_sql" "q \<noteq> assume_worker_role"
    "q \<noteq> ''SELECT allgres_public.fn_claim_outbound($1)''"
    and "key = ''calls'' \<or> key = ''builds''"
  shows "pg_gives (pump_claimed (claim_jobs None q key n) key step) outbound_db 0"
  unfolding pump_claimed_def using assms(5)
  by (intro gives_bind [OF outbound_db_claims [OF assms(1-4)]]) auto

lemma outbound_db_pumps: "pg_gives (run_pumps clock None True) outbound_db 0"
proof -
  have "pg_gives (pump_sql None) outbound_db 0" "pg_gives (pump_function_builds clock None) outbound_db 0"
    "pg_gives (pump_function_calls None) outbound_db 0" "pg_gives (pump_procedure_builds clock None) outbound_db 0"
    "pg_gives (pump_procedure_calls None) outbound_db 0"
    unfolding pump_sql_def claim_sql_jobs_def pump_function_builds_def
        claim_function_build_jobs_def pump_function_calls_def claim_function_call_jobs_def pump_procedure_builds_def
        claim_procedure_build_jobs_def pump_procedure_calls_def claim_procedure_call_jobs_def
    by (rule outbound_db_pump; simp add: installed_sql_def check_lost_sql_def assume_worker_role_def)+
  then show ?thesis
    unfolding run_pumps_def pg_when_def if_True
    by (intro gives_bind) (assumption | simp add: pg_gives_def)+
qed

lemma outbound_db_dispatch: "pg_gives (dispatch_and_claim None 8) outbound_db one_outbound_call"
  by (simp add: pg_gives_def dispatch_and_claim_def transaction_eq pg_bind_def drop_privileges_def spi_def
      outbound_db_def willing_db_def assume_worker_role_def installed_sql_def check_lost_sql_def ok_flatten_def warn_failed_def
      as_i32_def Let_def)

lemma outbound_db_more:
  assumes "q \<noteq> installed_sql" "q \<noteq> check_lost_sql" "q \<noteq> assume_worker_role"
    "q \<noteq> ''SELECT allgres_public.fn_claim_outbound($1)''"
  shows "pg_gives (claim_stage (\<lambda>n. claim_jobs None q ''calls'' (as_i32 (int n))) True queue kind True j 0) outbound_db j"
  unfolding claim_stage_def
  by (auto intro!: gives_bind [OF outbound_db_claims [OF assms]])

lemma outbound_db_stages:
  "\<exists>j. pg_gives (claim_stages None True True 0) outbound_db [j] \<and> job_call_id j = sample_uuid"
proof -
  have "get_str (json_object [(''call_id'', JString sample_uuid)]) ''call_id'' = Some sample_uuid"
    by (simp add: get_str_def json_get_object as_str_def)
  moreover have "valid_uuid sample_uuid" by code_simp
  ultimately have one: "enqueue True Outbound None [json_object [(''call_id'', JString sample_uuid)]] =
      [\<lparr>job_call_id = sample_uuid, job_queue = Outbound, job_call = json_object [(''call_id'', JString sample_uuid)]\<rparr>]"
    (is "_ = ?j") by (simp add: tag_kind_def)
  have first: "pg_gives (claim_stage (dispatch_and_claim None) True Outbound None True [] 0) outbound_db ?j"
    unfolding claim_stage_def
    using outbound_db_dispatch one
    by (auto simp: capacity_def HTTP_THREADS_def get_array_outbound intro!: gives_bind)
  note more = outbound_db_more [OF _ _ _ _, unfolded installed_sql_def check_lost_sql_def assume_worker_role_def]
  have "pg_gives (claim_stages None True True 0) outbound_db ?j"
    unfolding claim_stages_def claim_oauth_jobs_def claim_agent_embedding_jobs_def claim_provider_probe_jobs_def
    by (rule gives_bind, rule first, rule gives_bind, rule more, simp, simp, simp, simp,
        rule gives_bind, rule more, simp, simp, simp, simp, rule more, simp, simp, simp, simp)
  then show ?thesis by (intro exI conjI) auto
qed

lemma outbound_db_installed: "pg_gives extension_is_installed outbound_db True"
  by (simp add: pg_gives_def extension_is_installed_def transaction_eq pg_bind_def spi_def outbound_db_def
      ok_flatten_def as_bool_def Let_def)

lemma outbound_turn:
  "\<exists>st' job es. tick None idle_env (runtime_start 0) outbound_db [] = (Value (st', [job]), es)
     \<and> job_call_id job = sample_uuid \<and> 0 < next_pump st'"
proof -
  from gives_at [OF outbound_db_installed] obtain e0 where e0: "extension_is_installed outbound_db [] = (Value True, e0)" by blast
  obtain job where j: "pg_gives (claim_stages None True True 0) outbound_db [job]" "job_call_id job = sample_uuid"
    using outbound_db_stages by blast
  from gives_at [OF j(1)] obtain e1 where e1: "claim_stages None True True 0 outbound_db e0 = (Value [job], e1)" by blast
  obtain e2 where e2: "run_pumps (wall_clock idle_env) None True outbound_db (e0 @ e1) = (Value 0, e2)"
    using gives_at [OF outbound_db_pumps] by blast
  have "runtime_start 0\<lparr>in_flight := 0, cancels := cancels (runtime_start 0)\<rparr> = runtime_start 0"
    by (simp add: runtime_start_def)
  then have "tick None idle_env (runtime_start 0) outbound_db [] =
      (Value (end_turn 10 True [job] 0 (runtime_start 0), [job]), e0 @ e1 @ e2)"
    using e0 e1 e2 by (simp add: tick_def accept_rpc_def pump_phase_def pg_bind_def propagate_outbound_cancellations_def ask_lost_def
        idle_env_def runtime_start_def)
  moreover have "0 < next_pump (end_turn 10 True [job] 0 (runtime_start 0))" by (simp add: end_turn_def schedule_def)
  ultimately show ?thesis using j(2) by blast
qed

text \<open>C29: every job handed to the pool is well typed. Its identifier is the row's own and a well-formed UUID,
  so the cast in the completion call cannot fail on it, and its request is of the kind its queue is completed
  as: an OAuth exchange is sent as a form, an embedding as JSON, a probe as a plain request, whatever
  \<open>kind\<close> the row carried.\<close>

theorem tick_jobs_typed:
  assumes "tick dp env st db h = (Value (st', jobs), es)"
  shows "list_all job_typed jobs"
proof -
  from assms obtain busy cs hr er where
    "pump_phase dp env (st\<lparr>in_flight := busy, cancels := cs\<rparr>) db hr = (Value (st', jobs), er)"
    by (rule tick_pump)
  then show ?thesis by (cases rule: pump_phase_cases) (auto dest: claim_stages_typed)
qed

theorem tick_jobs_typed_witness:
  "\<exists>st' job es. tick None idle_env (runtime_start 0) outbound_db [] = (Value (st', [job]), es)
     \<and> valid_uuid (job_call_id job)"
proof -
  obtain st' job es where run: "tick None idle_env (runtime_start 0) outbound_db [] = (Value (st', [job]), es)"
    using outbound_turn by blast
  from tick_jobs_typed [OF run] run show ?thesis by (auto simp: job_typed_def)
qed

text \<open>C30: the worker never sleeps through its work. Whatever the server answers and whatever the loop
  finds to do, the idle delay is always one of the four steps 500, 1000, 2000 and 4000 milliseconds and the
  next pump is never scheduled more than four seconds after the end of the turn that scheduled it.\<close>

theorem worker_backoff_bounded:
  assumes "worker_run dp db now h st"
  shows "idle_delay st \<in> {500, 1000, 2000, 4000} \<and> next_pump st \<le> now + PUMP_IDLE_MAX"
proof -
  from assms have "backoff_ok now st"
    by induction (auto intro: backoff_start tick_backoff)
  then show ?thesis by (simp only: backoff_ok_def)
qed

theorem worker_backoff_bounded_witness:
  "\<exists>h st. worker_run None outbound_db 10 h st \<and> in_flight st = 1 \<and> next_pump st \<le> 10 + PUMP_IDLE_MAX"
proof -
  obtain st' job es where t: "tick None idle_env (runtime_start 0) outbound_db [] = (Value (st', [job]), es)"
    using outbound_turn by blast
  have run: "worker_run None outbound_db 10 es st'"
    using worker_run.turn [OF worker_run.start _ _ t] by (simp add: idle_env_def)
  moreover have "in_flight st' = 1"
    using tick_in_flight [OF outbound_db_within _ t] by (simp add: runtime_start_def idle_env_def)
  ultimately show ?thesis using worker_backoff_bounded [OF run] by blast
qed

end
