(* ===== verification/Session_Policy.thy ===== *)
theory Session_Policy
  imports Runtime_Worker
begin

text \<open>
  What holds of every trace the runtime worker can produce. A policy is a state machine over session
  events: how an event moves its state, and which events it allows. The locale \<open>session_policy\<close> states what a
  policy has to grant (a transaction may be opened when idle, the privilege drop and the installation check may be
  asked inside one, anything once the drop has landed, and so on) and proves once that a whole turn of
  the main loop then follows it. Two policies are interpreted: that nothing runs before the privilege
  drop has landed, and that transactions and subtransactions are used in order.
\<close>

section \<open>Definitions\<close>

primrec allowed :: "('s \<Rightarrow> pg_event \<Rightarrow> 's) \<Rightarrow> ('s \<Rightarrow> pg_event \<Rightarrow> bool) \<Rightarrow> 's \<Rightarrow> pg_event list \<Rightarrow> bool" where
  "allowed step ok s [] = True"
| "allowed step ok s (e # es) = (ok s e \<and> allowed step ok (step s e) es)"

text \<open>Where the worker is: between transactions, in one, or in a subtransaction of one.\<close>

datatype place = Idle | In_xact | In_sub

subsection \<open>The privilege policy\<close>

text \<open>Whether the drop is in effect, now and at the start of each open subtransaction. A new transaction starts as
  the bootstrap superuser; a rolled back subtransaction restores what was in effect when it began.\<close>

type_synonym priv_state = "bool \<times> bool list"

fun priv_step :: "priv_state \<Rightarrow> pg_event \<Rightarrow> priv_state" where
  "priv_step (d, saved) Begin_xact = (False, [])"
| "priv_step (d, saved) Commit_xact = (False, [])"
| "priv_step (d, saved) Begin_sub = (d, d # saved)"
| "priv_step (d, saved) Release_sub = (d, tl saved)"
| "priv_step (d, saved) Rollback_sub = (case saved of [] \<Rightarrow> (False, []) | b # rest \<Rightarrow> (b, rest))"
| "priv_step (d, saved) (Spi q args r) =
     (d \<or> q = assume_worker_role \<and> r = Returned (Some (JBool True)), saved)"
| "priv_step s _ = s"

text \<open>A statement is allowed when the drop is in effect or switched off by configuration; only the drop itself and
  the look at \<open>pg_extension\<close> are allowed before it.\<close>

definition drop_in_effect :: "string option \<Rightarrow> priv_state \<Rightarrow> bool" where
  "drop_in_effect dp s \<longleftrightarrow> fst s \<or> dp = Some ''0''"

definition priv_ok :: "string option \<Rightarrow> priv_state \<Rightarrow> pg_event \<Rightarrow> bool" where
  "priv_ok dp s ev =
     (case ev of
        Spi q args r \<Rightarrow> q = assume_worker_role \<or> q = installed_sql \<or> drop_in_effect dp s
      | _ \<Rightarrow> True)"

subsection \<open>The nesting policy\<close>

text \<open>Where the worker is, and how many subtransactions earlier transactions left open. \<open>CommitTransactionCommand\<close> does
  not end a subtransaction, so one that is open at the commit stays open in the session.\<close>

type_synonym nest_state = "place \<times> nat"

fun nest_step :: "nest_state \<Rightarrow> pg_event \<Rightarrow> nest_state" where
  "nest_step (p, left) Begin_xact = (In_xact, left)"
| "nest_step (p, left) Commit_xact = (Idle, if p = In_sub then left + 1 else left)"
| "nest_step (p, left) Begin_sub = (In_sub, left)"
| "nest_step (p, left) Release_sub = (In_xact, left)"
| "nest_step (p, left) Rollback_sub = (In_xact, left)"
| "nest_step s _ = s"

text \<open>Transactions do not nest, statements and timers belong to a transaction, and a transaction has at most one
  subtransaction of its own open, which is the one it ends.\<close>

fun nest_ok :: "nest_state \<Rightarrow> pg_event \<Rightarrow> bool" where
  "nest_ok (p, left) Begin_xact = (p = Idle)"
| "nest_ok (p, left) (Warned w ws) = True"
| "nest_ok (p, left) Begin_sub = (p = In_xact)"
| "nest_ok (p, left) Release_sub = (p = In_sub)"
| "nest_ok (p, left) Rollback_sub = (p = In_sub)"
| "nest_ok (p, left) _ = (p \<noteq> Idle)"

fun open_subs :: "nest_state \<Rightarrow> nat" where
  "open_subs (p, left) = (if p = In_sub then left + 1 else left)"

section \<open>Lemmas\<close>

lemma allowed_append:
  "allowed step ok s (a @ b) \<longleftrightarrow> allowed step ok s a \<and> allowed step ok (foldl step s a) b"
  by (induction a arbitrary: s) auto

text \<open>\<open>follows step ok P m Q R\<close>: started in a state with \<open>P\<close>, the computation only makes allowed events, and ends
  in a state with \<open>Q\<close> of its value, or with \<open>R\<close> if it raises.\<close>

definition follows ::
    "('s \<Rightarrow> pg_event \<Rightarrow> 's) \<Rightarrow> ('s \<Rightarrow> pg_event \<Rightarrow> bool) \<Rightarrow> ('s \<Rightarrow> bool) \<Rightarrow> 'a pg \<Rightarrow> ('a \<Rightarrow> 's \<Rightarrow> bool) \<Rightarrow> ('s \<Rightarrow> bool) \<Rightarrow> bool" where
  "follows step ok P m Q R \<longleftrightarrow>
     (\<forall>db h s r es. P s \<longrightarrow> m db h = (r, es) \<longrightarrow>
        allowed step ok s es \<and>
        (case r of Value x \<Rightarrow> Q x (foldl step s es) | Raise e \<Rightarrow> R (foldl step s es)))"

lemma followsI:
  assumes "\<And>db h s r es. P s \<Longrightarrow> m db h = (r, es) \<Longrightarrow>
      allowed step ok s es \<and>
      (case r of Value x \<Rightarrow> Q x (foldl step s es) | Raise e \<Rightarrow> R (foldl step s es))"
  shows "follows step ok P m Q R"
  using assms unfolding follows_def by blast

lemma followsD:
  assumes "follows step ok P m Q R" "P s" "m db h = (r, es)"
  shows "allowed step ok s es \<and>
      (case r of Value x \<Rightarrow> Q x (foldl step s es) | Raise e \<Rightarrow> R (foldl step s es))"
  using assms unfolding follows_def by blast

lemma follows_return: "(\<And>s. P s \<Longrightarrow> Q x s) \<Longrightarrow> follows step ok P (pg_return x) Q R"
  by (rule followsI) auto

lemma follows_bind:
  assumes "follows step ok P m M R" and "\<And>x. follows step ok (M x) (f x) Q R"
  shows "follows step ok P (pg_bind m f) Q R"
proof (rule followsI)
  fix db h s r es
  assume "P s" and run: "pg_bind m f db h = (r, es)"
  obtain r1 e1 where m: "m db h = (r1, e1)" by force
  note first = followsD [OF assms(1) \<open>P s\<close> m]
  show "allowed step ok s es \<and>
      (case r of Value x \<Rightarrow> Q x (foldl step s es) | Raise e \<Rightarrow> R (foldl step s es))"
  proof (cases r1)
    case (Value x)
    obtain r2 e2 where f: "f x db (h @ e1) = (r2, e2)" by force
    from first Value have "M x (foldl step s e1)" by simp
    from followsD [OF assms(2) this f] first Value m f run show ?thesis
      by (auto simp: pg_bind_def allowed_append split: pg_result.splits)
  next
    case (Raise e)
    with first m run show ?thesis by (auto simp: pg_bind_def)
  qed
qed

lemma follows_weaken:
  assumes "follows step ok P m Q R" "\<And>s. P' s \<Longrightarrow> P s" "\<And>x s. Q x s \<Longrightarrow> Q' x s" "\<And>s. R s \<Longrightarrow> R' s"
  shows "follows step ok P' m Q' R'"
  using assms unfolding follows_def by (fastforce split: pg_result.splits)

lemma follows_emit:
  assumes "\<And>s. P s \<Longrightarrow> ok s ev \<and> Q () (step s ev)"
  shows "follows step ok P (pg_emit ev) Q R"
  using assms by (intro followsI) auto

lemma follows_spi:
  assumes "\<And>s r. P s \<Longrightarrow> ok s (Spi q args r) \<and> Q r (step s (Spi q args r)) \<and> R (step s (Spi q args r))"
  shows "follows step ok P (spi q args) Q R"
proof (rule followsI)
  fix db h s r es
  assume "P s" "spi q args db h = (r, es)"
  with assms [OF \<open>P s\<close>, of "db h q args"] show "allowed step ok s es \<and>
      (case r of Value x \<Rightarrow> Q x (foldl step s es) | Raise e \<Rightarrow> R (foldl step s es))"
    by (auto simp: spi_def Let_def split: spi_response.splits)
qed

subsection \<open>The contract of a policy\<close>

text \<open>\<open>at\<close> says where a state of the policy may be; \<open>cleared\<close> that the drop has landed (or is switched off).\<close>

locale session_policy =
  fixes step :: "'s \<Rightarrow> pg_event \<Rightarrow> 's" and ok :: "'s \<Rightarrow> pg_event \<Rightarrow> bool"
    and at :: "place \<Rightarrow> 's \<Rightarrow> bool" and cleared :: "'s \<Rightarrow> bool" and dp :: "string option"
  assumes begin_xact: "at Idle s \<Longrightarrow> ok s Begin_xact \<and> at In_xact (step s Begin_xact)"
    and commit_xact: "p \<noteq> Idle \<Longrightarrow> at p s \<Longrightarrow> ok s Commit_xact \<and> at Idle (step s Commit_xact)"
    and begin_sub: "at In_xact s \<Longrightarrow> ok s Begin_sub \<and> at In_sub (step s Begin_sub)"
    and release_sub: "at In_sub s \<Longrightarrow> ok s Release_sub \<and> at In_xact (step s Release_sub)"
    and rollback_sub: "at In_sub s \<Longrightarrow> ok s Rollback_sub \<and> at In_xact (step s Rollback_sub)"
    and quiet: "p \<noteq> Idle \<Longrightarrow> at p s \<Longrightarrow> ev \<in> {Timer_on n, Timer_off} \<Longrightarrow>
      ok s ev \<and> at p (step s ev) \<and> (cleared s \<longrightarrow> cleared (step s ev))"
    and warned: "at p s \<Longrightarrow>
      ok s (Warned w ws) \<and> at p (step s (Warned w ws)) \<and> (cleared s \<longrightarrow> cleared (step s (Warned w ws)))"
    and statement: "p \<noteq> Idle \<Longrightarrow> at p s \<Longrightarrow> cleared s \<or> q = assume_worker_role \<or> q = installed_sql \<Longrightarrow>
      ok s (Spi q args r) \<and> at p (step s (Spi q args r)) \<and> (cleared s \<longrightarrow> cleared (step s (Spi q args r)))"
    and drop_lands: "at p s \<Longrightarrow> cleared (step s (Spi assume_worker_role [] (Returned (Some (JBool True)))))"
    and drop_off: "dp = Some ''0'' \<Longrightarrow> at p s \<Longrightarrow> cleared s"
begin

text \<open>A computation that stays at its place, from any state there and from a cleared one.\<close>

definition stays :: "place \<Rightarrow> 'a pg \<Rightarrow> bool" where
  "stays p m \<longleftrightarrow> follows step ok (at p) m (\<lambda>_. at p) (\<lambda>s. p \<noteq> Idle \<longrightarrow> at p s)"

definition stays_cleared :: "place \<Rightarrow> 'a pg \<Rightarrow> bool" where
  "stays_cleared p m \<longleftrightarrow> follows step ok (\<lambda>s. at p s \<and> cleared s) m (\<lambda>_ s. at p s \<and> cleared s) (at p)"

definition clears :: "place \<Rightarrow> bool pg \<Rightarrow> bool" where
  "clears p m \<longleftrightarrow> follows step ok (at p) m (\<lambda>b s. at p s \<and> (b \<longrightarrow> cleared s)) (at p)"

lemma stays_return [simp, intro!]: "stays p (pg_return x)"
  unfolding stays_def by (rule follows_return)

lemma stays_value [simp]: "stays p (\<lambda>db h. (Value x, []))"
  using stays_return [of p x] by (simp add: pg_return_def)

lemma stays_bind [intro]: "stays p m \<Longrightarrow> (\<And>x. stays p (f x)) \<Longrightarrow> stays p (pg_bind m f)"
  unfolding stays_def by (rule follows_bind)

lemma cleared_return [simp, intro!]: "stays_cleared p (pg_return x)"
  unfolding stays_cleared_def by (rule follows_return)

lemma cleared_bind [intro!]:
  "stays_cleared p m \<Longrightarrow> (\<And>x. stays_cleared p (f x)) \<Longrightarrow> stays_cleared p (pg_bind m f)"
  unfolding stays_cleared_def by (rule follows_bind)

lemma cleared_spi [intro!]: "p \<noteq> Idle \<Longrightarrow> stays_cleared p (spi q args)"
  unfolding stays_cleared_def using statement [of p] by (intro follows_spi) blast

lemma cleared_run_ok [intro!]: "p \<noteq> Idle \<Longrightarrow> stays_cleared p (spi_run_ok q args)"
  unfolding spi_run_ok_def by (intro cleared_bind cleared_spi cleared_return)

lemma cleared_quiet [intro!]:
  "p \<noteq> Idle \<Longrightarrow> stays_cleared p (pg_emit (Timer_on n))" "p \<noteq> Idle \<Longrightarrow> stays_cleared p (pg_emit Timer_off)"
  "stays_cleared p (pg_warn w ws)"
  unfolding stays_cleared_def pg_warn_def using quiet [of p] warned [of p] by (auto intro!: follows_emit)

lemma stays_warn [intro]: "stays p (pg_warn w ws)"
  unfolding stays_def pg_warn_def using warned [of p] by (auto intro!: follows_emit)

lemma clears_drop [intro!]:
  assumes "p \<noteq> Idle"
  shows "clears p (drop_privileges dp)"
  unfolding clears_def
proof (rule followsI)
  fix db h s r es
  assume at: "at p s" and run: "drop_privileges dp db h = (r, es)"
  have role: "ok s (Spi assume_worker_role [] x) \<and> at p (step s (Spi assume_worker_role [] x))" for x
    using statement [OF assms at] by blast
  show "allowed step ok s es \<and>
      (case r of Value b \<Rightarrow> at p (foldl step s es) \<and> (b \<longrightarrow> cleared (foldl step s es)) | Raise e \<Rightarrow> at p (foldl step s es))"
    using run role at drop_lands [OF at] drop_off [OF _ at] warned [of p]
    by (cases rule: drop_privileges_cases [of dp db h]) auto
qed

lemma clears_and [intro!]:
  assumes "clears p a" "stays_cleared p b"
  shows "clears p (pg_and a b)"
  unfolding clears_def pg_and_def
proof (rule follows_bind [OF assms(1) [unfolded clears_def]])
  fix x
  have b: "follows step ok (\<lambda>s. at p s \<and> cleared s) b (\<lambda>y s. at p s \<and> (y \<longrightarrow> cleared s)) (at p)"
    by (rule follows_weaken [OF assms(2) [unfolded stays_cleared_def]]) auto
  show "follows step ok (\<lambda>s. at p s \<and> (x \<longrightarrow> cleared s)) (if x then b else pg_return False)
      (\<lambda>y s. at p s \<and> (y \<longrightarrow> cleared s)) (at p)"
    using b by (cases x) (auto intro: follows_return)
qed

lemma cleared_and [intro!]:
  assumes "stays_cleared p a" "stays_cleared p b"
  shows "stays_cleared p (pg_and a b)"
  unfolding pg_and_def using assms by (intro cleared_bind) auto

text \<open>The shape of every guarded piece of the worker: clear, then work only when cleared.\<close>

lemma stays_guarded [intro]:
  assumes "clears p m" "stays p (f False)" "stays_cleared p (f True)"
  shows "stays p (pg_bind m f)"
  unfolding stays_def
proof (rule follows_bind)
  show "follows step ok (at p) m (\<lambda>b s. at p s \<and> (b \<longrightarrow> cleared s)) (\<lambda>s. p \<noteq> Idle \<longrightarrow> at p s)"
    using assms(1) unfolding clears_def by (rule follows_weaken) auto
  have followsT: "follows step ok (\<lambda>s. at p s \<and> cleared s) (f True) (\<lambda>_. at p) (\<lambda>s. p \<noteq> Idle \<longrightarrow> at p s)"
    using assms(3) unfolding stays_cleared_def by (rule follows_weaken) auto
  have followsF: "follows step ok (at p) (f False) (\<lambda>_. at p) (\<lambda>s. p \<noteq> Idle \<longrightarrow> at p s)"
    using assms(2) unfolding stays_def .
  fix x
  show "follows step ok (\<lambda>s. at p s \<and> (x \<longrightarrow> cleared s)) (f x) (\<lambda>_. at p) (\<lambda>s. p \<noteq> Idle \<longrightarrow> at p s)"
    using followsT followsF by (cases x) auto
qed

lemma transaction_ends:
  assumes "follows step ok (at In_xact) m (\<lambda>_ s. at In_xact s \<or> at In_sub s) R"
  shows "stays Idle (transaction m)"
  unfolding stays_def transaction_def
proof (rule follows_bind)
  show "follows step ok (at Idle) (pg_emit Begin_xact) (\<lambda>_. at In_xact) (\<lambda>s. Idle \<noteq> Idle \<longrightarrow> at Idle s)"
    using begin_xact by (intro follows_emit) blast
  show "follows step ok (at In_xact) (pg_bind m (\<lambda>x. pg_bind (pg_emit Commit_xact) (\<lambda>_. pg_return x)))
      (\<lambda>_. at Idle) (\<lambda>s. Idle \<noteq> Idle \<longrightarrow> at Idle s)" for x :: unit
  proof (rule follows_bind)
    show "follows step ok (at In_xact) m (\<lambda>_ s. at In_xact s \<or> at In_sub s) (\<lambda>s. Idle \<noteq> Idle \<longrightarrow> at Idle s)"
      using assms by (rule follows_weaken) auto
    show "follows step ok (\<lambda>s. at In_xact s \<or> at In_sub s) (pg_bind (pg_emit Commit_xact) (\<lambda>_. pg_return x))
      (\<lambda>_. at Idle) (\<lambda>s. Idle \<noteq> Idle \<longrightarrow> at Idle s)" for x
      using commit_xact [of In_xact] commit_xact [of In_sub]
      by (intro follows_bind [where M = "\<lambda>_. at Idle"] follows_emit follows_return) auto
  qed
qed

lemma stays_transaction [intro]: "stays In_xact m \<Longrightarrow> stays Idle (transaction m)"
  unfolding stays_def [of In_xact] by (rule transaction_ends, erule follows_weaken) auto

lemma stays_subtransaction [intro]:
  assumes "stays In_sub f"
  shows "stays Idle (transaction (run_in_subtransaction f))"
proof (rule transaction_ends, rule followsI)
  fix db h s r es
  assume at: "at In_xact s" and run: "run_in_subtransaction f db h = (r, es)"
  obtain r1 e1 where f: "f db (h @ [Begin_sub]) = (r1, e1)" by force
  from begin_sub [OF at] have b: "ok s Begin_sub" "at In_sub (step s Begin_sub)" by auto
  from followsD [OF assms [unfolded stays_def] b(2) f]
  have body: "allowed step ok (step s Begin_sub) e1" "at In_sub (foldl step (step s Begin_sub) e1)"
    by (auto split: pg_result.splits)
  from run f b body release_sub [OF body(2)] rollback_sub [OF body(2)]
  show "allowed step ok s es \<and>
      (case r of Value x \<Rightarrow> at In_xact (foldl step s es) \<or> at In_sub (foldl step s es) | Raise e \<Rightarrow> True)"
    by (auto simp: run_in_subtransaction_def allowed_append split: pg_result.splits sum.splits)
qed

subsubsection \<open>The worker's transactions\<close>

lemma stays_claim_jobs [intro]: "stays Idle (claim_jobs dp q key n)"
  unfolding claim_jobs_def by (intro stays_transaction stays_guarded) auto

lemma stays_complete_call [intro]: "stays Idle (complete_call dp fn noun q i args)"
  unfolding complete_call_def
  by (intro stays_transaction stays_guarded) (auto intro!: cleared_bind split: spi_response.splits)

lemma stays_sandboxed_sql [intro]: "stays Idle (run_sandboxed_sql dp agent_id sql pg_role)"
  unfolding run_sandboxed_sql_def sandbox_body_def Let_def
  by (intro stays_subtransaction stays_guarded) auto

lemma stays_build [intro]: "stays Idle (run_build dp ddl)"
  unfolding run_build_def build_body_def
  by (intro stays_bind stays_subtransaction stays_guarded) auto

lemma stays_call_body [intro]: "stays In_sub (call_body dp role ms unavailable q args)"
  unfolding call_body_def call_preamble_def by (intro stays_guarded) auto

lemma stays_history: "(\<And>h. stays p (m h)) \<Longrightarrow> stays p (\<lambda>db h. m h db h)"
  unfolding stays_def follows_def by blast

lemma stays_checked_build: "stays Idle (\<lambda>db h. if b then (Value (Inl e), []) else run_build dp (ddl h) db h)"
proof -
  have "stays Idle (\<lambda>db h. (if b then pg_return (Inl e) else run_build dp (ddl h)) db h)"
    by (rule stays_history) auto
  then show ?thesis by (cases b) simp_all
qed

lemma stays_run_builds [intro]:
  "stays Idle (run_function_build clock dp sql_ident body)" "stays Idle (run_procedure_build clock dp sql_ident body)"
  unfolding run_function_build_def run_procedure_build_def Let_def split_beta by (rule stays_checked_build)+

lemma stays_calls [intro]:
  "stays Idle (run_function_call dp sql_ident args pg_role)" "stays Idle (run_procedure_call dp sql_ident args pg_role)"
  unfolding run_function_call_def run_procedure_call_def by auto

lemma stays_pump_each: "(\<And>c. stays Idle (step_of c)) \<Longrightarrow> stays Idle (pump_each step_of cs)"
  by (induction cs) auto

lemma stays_pump [intro]:
  assumes "stays Idle claim" "\<And>job. stays Idle (execute job)" "\<And>i out. stays Idle (submit i out)"
  shows "stays Idle (pump_claimed claim key (pump_step parse job_id execute submit))"
  unfolding pump_claimed_def using assms
  by (auto intro!: stays_bind stays_pump_each simp: pump_step_def split: option.splits)

lemma stays_pumps [intro]: "stays Idle (run_pumps clock dp is_ready)"
  unfolding run_pumps_def pg_when_def pump_sql_def claim_sql_jobs_def execute_sql_job_def submit_sql_result_def
    pump_function_builds_def claim_function_build_jobs_def submit_function_build_result_def
    pump_function_calls_def claim_function_call_jobs_def submit_function_call_result_def
    pump_procedure_builds_def claim_procedure_build_jobs_def submit_procedure_build_result_def
    pump_procedure_calls_def claim_procedure_call_jobs_def submit_procedure_call_result_def
  by (intro stays_bind stays_return) auto

subsubsection \<open>The main loop\<close>

lemma stays_installed [intro]: "stays Idle extension_is_installed"
proof -
  have "stays In_xact (spi installed_sql [])"
    unfolding stays_def using statement [of In_xact] by (intro follows_spi) auto
  then show ?thesis unfolding extension_is_installed_def by (intro stays_transaction stays_bind) auto
qed

lemma cleared_warn_failed [intro!]: "p \<noteq> Idle \<Longrightarrow> stays_cleared p (warn_failed fn r)"
  unfolding warn_failed_def by (auto split: spi_response.splits)

lemma stays_dispatch [intro]: "stays Idle (dispatch_and_claim dp n)"
  unfolding dispatch_and_claim_def by (intro stays_transaction stays_guarded) auto

lemma stays_claim_stage [intro]:
  "(\<And>n. stays Idle (claim n)) \<Longrightarrow> stays Idle (claim_stage claim alive queue kind r sent busy)"
  unfolding claim_stage_def by auto

lemma stays_claim_stages [intro]: "stays Idle (claim_stages dp alive r busy)"
  unfolding claim_stages_def claim_oauth_jobs_def claim_agent_embedding_jobs_def claim_provider_probe_jobs_def
  by (intro stays_bind stays_claim_stage) auto

lemma stays_harvest [intro]: "stays Idle (harvest dp rs busy)"
  by (induction rs arbitrary: busy)
    (auto simp: submit_result_def submit_http_result_def submit_oauth_result_def submit_agent_embedding_result_def
      submit_provider_probe_result_def submit_call_result_def split: outbound_queue.splits)

lemma stays_rpc [intro]: "stays Idle (handle_rpc_stream jt dp is_ready input)"
proof -
  have "stays Idle (dashboard_rpc jt dp request)" for request
    unfolding dashboard_rpc_def by (intro stays_transaction stays_guarded) auto
  then show ?thesis unfolding handle_rpc_stream_def Let_def by (auto split: option.splits)
qed

lemma stays_serve_rpc [intro]: "stays Idle (serve_rpc jt dp is_ready inputs)"
  by (induction inputs) auto

lemma stays_propagate [intro]: "stays Idle (propagate_outbound_cancellations dp ids cs)"
proof -
  have "stays Idle (transaction (pg_bind (drop_privileges dp) (\<lambda>ok.
          if \<not> ok then pg_return [] else pg_bind (spi q a) (\<lambda>r. pg_return (f r)))))" for q a and f :: "_ \<Rightarrow> 'x list"
    by (intro stays_transaction stays_guarded) auto
  then show ?thesis unfolding propagate_outbound_cancellations_def ask_lost_def by auto
qed

text \<open>A turn of the main loop follows the policy, and ends between transactions unless it raises.\<close>

lemma stays_tick [intro]: "stays Idle (tick dp env st)"
proof -
  have "stays Idle (accept_rpc jt dp is_ready inputs err)" for jt is_ready inputs err
    unfolding accept_rpc_def by (intro stays_bind) (auto split: option.splits)
  then show ?thesis unfolding tick_def pump_phase_def by (intro stays_bind) auto
qed

lemma stays_turns [intro]: "stays Idle (run_turns dp envs st)"
  by (induction envs arbitrary: st) (auto intro!: stays_bind split: prod.splits)

end

context session_policy
begin

text \<open>So the whole life of the worker does, from its start to its end or to the turn that raises.\<close>

lemma main_allowed:
  assumes "at Idle s" and "boot_vars b ''ALLGRES_DROP_PRIVILEGES'' = dp"
  shows "allowed step ok s (snd (allgres_runtime_main b db h))"
proof -
  have "stays Idle (allgres_runtime_main b)"
    unfolding allgres_runtime_main_def Let_def assms(2)
    by (auto intro!: stays_bind split: prod.splits sum.splits)
  from followsD [OF this [unfolded stays_def] assms(1)] show ?thesis by (metis prod.collapse)
qed

end

subsection \<open>The two policies\<close>

definition priv_at :: "place \<Rightarrow> priv_state \<Rightarrow> bool" where
  "priv_at p s \<longleftrightarrow> True"

interpretation privileges: session_policy priv_step "priv_ok dp" priv_at "drop_in_effect dp" dp for dp
  by unfold_locales (auto simp: priv_at_def priv_ok_def drop_in_effect_def split: list.splits)

interpretation nesting: session_policy nest_step nest_ok "\<lambda>p s. fst s = p" "\<lambda>_. True" dp for dp
  by unfold_locales auto

text \<open>The subtransactions open in the session are those the policy counts.\<close>

lemma nest_depth:
  "allowed nest_step nest_ok s es \<Longrightarrow> int (open_subs (foldl nest_step s es)) = int (open_subs s) + sub_depth es"
proof (induction es arbitrary: s)
  case (Cons ev es)
  obtain p left where s: "s = (p, left)" by force
  from Cons.prems have "int (open_subs (nest_step s ev)) = int (open_subs s) + sub_depth [ev]"
    unfolding s by (cases ev) auto
  with Cons.IH [of "nest_step s ev"] Cons.prems sub_depth_append [of "[ev]" es] show ?case by simp
qed simp

text \<open>The policies are not empty: they reject a statement before the drop, one after the drop was rolled back, and one
  outside a transaction.\<close>

lemma policies_reject:
  "\<not> allowed priv_step (priv_ok None) (False, []) [Begin_xact, Spi dashboard_sql args r]"
  "\<not> allowed priv_step (priv_ok None) (False, [])
     [Begin_xact, Begin_sub, Spi assume_worker_role [] (Returned (Some (JBool True))), Rollback_sub, Spi dashboard_sql args r]"
  "\<not> allowed nest_step nest_ok (Idle, 0) [Begin_xact, Commit_xact, Spi q args r]"
  by (simp_all add: priv_ok_def drop_in_effect_def dashboard_sql_def assume_worker_role_def installed_sql_def)

end
