(* ===== verification/Life_Accounting.thy ===== *)
theory Life_Accounting
  imports Session_Policy
begin

text \<open>
  What becomes of the work the runtime worker claims, over its whole life. Each of the five queues that the
  worker runs itself (\<open>sandbox.rs\<close>, \<open>function_exec.rs\<close>, \<open>procedure_exec.rs\<close>) is followed by a state machine
  over session events whose state is the identifiers it still owes an answer for. It is built on the
  judgement \<open>follows\<close> of \<open>Session_Policy\<close>: what the rest of the worker does is silent for the queue, its own pump
  pays off every claim before it ends.
\<close>

section \<open>Definitions\<close>

datatype exec_queue = Sql_calls | Function_builds | Function_calls | Procedure_builds | Procedure_calls

fun claim_query :: "exec_queue \<Rightarrow> string" where
  "claim_query Sql_calls = ''SELECT allgres_public.fn_claim_sql($1)''"
| "claim_query Function_builds = ''SELECT allgres_public.fn_claim_function_builds($1)''"
| "claim_query Function_calls = ''SELECT allgres_public.fn_claim_function_calls($1)''"
| "claim_query Procedure_builds = ''SELECT allgres_public.fn_claim_procedure_builds($1)''"
| "claim_query Procedure_calls = ''SELECT allgres_public.fn_claim_procedure_calls($1)''"

fun queue_key :: "exec_queue \<Rightarrow> string" where
  "queue_key Function_builds = ''builds''"
| "queue_key Procedure_builds = ''builds''"
| "queue_key _ = ''calls''"

text \<open>The identifier of an entry that the worker can read; entries it cannot read are passed over.\<close>

fun entry_id :: "exec_queue \<Rightarrow> json \<Rightarrow> string option" where
  "entry_id Sql_calls c = map_option sql_call_id (parse_sql_call c)"
| "entry_id Function_builds c = map_option build_id (parse_build ''function_id'' c)"
| "entry_id Function_calls c = map_option call_job_id (parse_call c)"
| "entry_id Procedure_builds c = map_option build_id (parse_build ''procedure_id'' c)"
| "entry_id Procedure_calls c = map_option call_job_id (parse_call c)"

fun complete_fn :: "exec_queue \<Rightarrow> string" where
  "complete_fn Sql_calls = ''fn_complete_sql''"
| "complete_fn Function_builds = ''fn_complete_function_build''"
| "complete_fn Function_calls = ''fn_complete_function_call''"
| "complete_fn Procedure_builds = ''fn_complete_procedure_build''"
| "complete_fn Procedure_calls = ''fn_complete_procedure_call''"

fun complete_noun :: "exec_queue \<Rightarrow> string" where
  "complete_noun Function_builds = []"
| "complete_noun Procedure_builds = []"
| "complete_noun _ = ''call ''"

fun complete_query :: "exec_queue \<Rightarrow> string" where
  "complete_query Sql_calls = complete_sql"
| "complete_query Function_builds = complete_function_build"
| "complete_query Function_calls = complete_function_call"
| "complete_query Procedure_builds = complete_procedure_build"
| "complete_query Procedure_calls = complete_procedure_call"

definition claimed_ids :: "exec_queue \<Rightarrow> json \<Rightarrow> string list" where
  "claimed_ids q claimed =
     (case get_array claimed (queue_key q) of None \<Rightarrow> [] | Some calls \<Rightarrow> List.map_filter (entry_id q) calls)"

subsection \<open>What is owed\<close>

definition is_claim :: "exec_queue \<Rightarrow> pg_event \<Rightarrow> bool" where
  "is_claim q ev = (case ev of Spi s _ _ \<Rightarrow> s = claim_query q | _ \<Rightarrow> False)"

text \<open>The identifiers an event hands out, if it is a claim of the queue that was answered.\<close>

definition hands_out :: "exec_queue \<Rightarrow> pg_event \<Rightarrow> string list" where
  "hands_out q ev =
     (case ev of
        Spi s _ (Returned (Some claimed)) \<Rightarrow> if s = claim_query q then claimed_ids q claimed else []
      | _ \<Rightarrow> [])"

text \<open>The identifier an event answers for: the completion call, or the warning that it had to be skipped.\<close>

definition answers :: "exec_queue \<Rightarrow> pg_event \<Rightarrow> string option" where
  "answers q = accounts_for (complete_fn q) (complete_noun q) (complete_query q)"

definition owed_step :: "exec_queue \<Rightarrow> string list \<Rightarrow> pg_event \<Rightarrow> string list" where
  "owed_step q owed ev =
     (if is_claim q ev then hands_out q ev
      else case answers q ev of None \<Rightarrow> owed | Some _ \<Rightarrow> tl owed)"

text \<open>Nothing more is claimed while something is owed, and only the next identifier owed is answered.\<close>

definition owed_ok :: "exec_queue \<Rightarrow> string list \<Rightarrow> pg_event \<Rightarrow> bool" where
  "owed_ok q owed ev =
     (if is_claim q ev then owed = []
      else case answers q ev of None \<Rightarrow> True | Some i \<Rightarrow> owed \<noteq> [] \<and> hd owed = i)"

section \<open>Lemmas\<close>

lemmas query_texts = complete_sql_def complete_function_build_def complete_function_call_def
  complete_procedure_build_def complete_procedure_call_def

lemma claim_not_complete: "complete_query q \<noteq> claim_query q'"
  by (cases q; cases q') (simp_all add: query_texts)

lemma claim_query_inject: "claim_query q = claim_query q' \<longleftrightarrow> q = q'"
  by (cases q; cases q') simp_all

lemma complete_query_inject: "complete_query q = complete_query q' \<longleftrightarrow> q = q'"
  by (cases q; cases q') (simp_all add: query_texts)

lemma skip_warning_inject:
  "skip_warning (complete_fn q) (complete_noun q) = skip_warning (complete_fn q') (complete_noun q') \<longleftrightarrow> q = q'"
  by (cases q; cases q') (simp_all add: skip_warning_def)

subsection \<open>Traces\<close>

text \<open>Along an allowed trace, what was handed out is what was answered, in order, and what is still owed.\<close>

lemma allowed_balance:
  "allowed (owed_step q) (owed_ok q) owed es \<Longrightarrow>
     owed @ concat (map (hands_out q) es) = List.map_filter (answers q) es @ foldl (owed_step q) owed es"
proof (induction es arbitrary: owed)
  case (Cons ev es)
  have claim: "hands_out q ev = []" if "\<not> is_claim q ev"
    using that by (auto simp: hands_out_def is_claim_def split: pg_event.splits spi_response.splits option.splits)
  have "answers q ev = None" if "is_claim q ev"
    using that claim_not_complete [of q q, symmetric]
    by (auto simp: answers_def accounts_for_def is_claim_def split: pg_event.splits list.splits spi_arg.splits)
  with Cons.IH [of owed] Cons.IH [of "tl owed"] Cons.IH [of "hands_out q ev"] Cons.prems claim show ?case
    by (cases "is_claim q ev"; cases "answers q ev"; cases owed)
      (auto simp: owed_step_def [of q _ ev] owed_ok_def [of q _ ev] List.map_filter_simps)
qed (simp add: List.map_filter_simps)

subsection \<open>Silence\<close>

definition silent :: "exec_queue \<Rightarrow> 'a pg \<Rightarrow> bool" where
  "silent q m \<longleftrightarrow> (\<forall>db h. list_all (\<lambda>ev. \<not> is_claim q ev \<and> answers q ev = None) (snd (m db h)))"

lemma silent_return [intro!]: "silent q (pg_return x)"
  by (simp add: silent_def)

lemma silent_value [intro!]: "silent q (\<lambda>db h. (Value x, []))"
  by (simp add: silent_def)

lemma silent_bind [intro!]:
  assumes "silent q m" "\<And>x. silent q (f x)"
  shows "silent q (pg_bind m f)"
  unfolding silent_def
proof (intro allI)
  fix db h
  obtain r es where m: "m db h = (r, es)" by force
  show "list_all (\<lambda>ev. \<not> is_claim q ev \<and> answers q ev = None) (snd (pg_bind m f db h))"
    using assms(1) [unfolded silent_def, rule_format, of db h] assms(2) [unfolded silent_def, rule_format, of _ db "h @ es"] m
    by (cases r) (simp_all add: pg_bind_def split_beta)
qed

lemma silent_spi [intro!]:
  "s \<noteq> claim_query q \<Longrightarrow> s \<noteq> complete_query q \<Longrightarrow> silent q (spi s args)"
  by (auto simp: silent_def spi_def Let_def is_claim_def answers_def accounts_for_def split: list.splits spi_arg.splits)

lemma silent_spi_run_ok [intro!]:
  "s \<noteq> claim_query q \<Longrightarrow> s \<noteq> complete_query q \<Longrightarrow> silent q (spi_run_ok s args)"
  unfolding spi_run_ok_def by auto

lemma silent_warn [intro!]:
  "w \<noteq> skip_warning (complete_fn q) (complete_noun q) \<Longrightarrow> silent q (pg_warn w ws)"
  by (auto simp: silent_def pg_warn_def is_claim_def answers_def accounts_for_def split: list.splits)

lemma silent_emit [intro!]:
  "silent q (pg_emit Begin_xact)" "silent q (pg_emit Commit_xact)" "silent q (pg_emit (Timer_on n))" "silent q (pg_emit Timer_off)"
  by (simp_all add: silent_def is_claim_def answers_def)

lemma silent_and [intro!]: "silent q a \<Longrightarrow> silent q b \<Longrightarrow> silent q (pg_and a b)"
  unfolding pg_and_def by auto

lemma silent_transaction [intro!]: "silent q m \<Longrightarrow> silent q (transaction m)"
  unfolding transaction_def by auto

lemma silent_sub [intro!]:
  assumes "silent q f"
  shows "silent q (run_in_subtransaction f)"
  unfolding silent_def
proof (intro allI)
  fix db h
  obtain r es where f: "f db (h @ [Begin_sub]) = (r, es)" by force
  with assms [unfolded silent_def, rule_format, of db "h @ [Begin_sub]"]
  show "list_all (\<lambda>ev. \<not> is_claim q ev \<and> answers q ev = None) (snd (run_in_subtransaction f db h))"
    by (auto simp: run_in_subtransaction_def is_claim_def answers_def split: pg_result.splits sum.splits)
qed

lemma silent_checked: "(\<And>h. silent q (m h)) \<Longrightarrow> silent q (\<lambda>db h. if b then (Value x, []) else m h db h)"
  by (simp add: silent_def)

subsubsection \<open>The silent parts of the worker\<close>

lemma role_texts:
  "assume_worker_role \<noteq> claim_query q" "assume_worker_role \<noteq> complete_query q"
  "''Allgres: assume_worker_role() reports the worker role is not ready'' \<noteq> skip_warning (complete_fn q) (complete_noun q)"
  "''Allgres: assume_worker_role() returned no result'' \<noteq> skip_warning (complete_fn q) (complete_noun q)"
  "''Allgres: assume_worker_role() failed: {}'' \<noteq> skip_warning (complete_fn q) (complete_noun q)"
  by (cases q; simp add: assume_worker_role_def query_texts skip_warning_def)+

lemma silent_drop [intro!]: "silent q (drop_privileges dp)"
  unfolding drop_privileges_def
  by (auto intro!: role_texts split: spi_response.splits option.splits)

lemma set_texts:
  "set_role_sql role \<noteq> claim_query q" "set_role_sql role \<noteq> complete_query q"
  "set_search_path_sql \<noteq> claim_query q" "set_search_path_sql \<noteq> complete_query q"
  "set_read_only_sql \<noteq> claim_query q" "set_read_only_sql \<noteq> complete_query q"
  "set_timeout_sql ms \<noteq> claim_query q" "set_timeout_sql ms \<noteq> complete_query q"
  "set_agent_sql \<noteq> claim_query q" "set_agent_sql \<noteq> complete_query q"
  "run_sql \<noteq> claim_query q" "run_sql \<noteq> complete_query q"
  "''SET LOCAL ROLE allgres_function_admin'' \<noteq> claim_query q" "''SET LOCAL ROLE allgres_function_admin'' \<noteq> complete_query q"
  by (cases q; simp add: query_texts set_role_sql_def set_search_path_sql_def set_read_only_sql_def set_timeout_sql_def
      set_agent_sql_def run_sql_def)+

lemma agent_texts:
  "function_ddl i b \<noteq> claim_query q" "function_ddl i b \<noteq> complete_query q"
  "procedure_ddl i b \<noteq> claim_query q" "procedure_ddl i b \<noteq> complete_query q"
  "function_call_sql i \<noteq> claim_query q" "function_call_sql i \<noteq> complete_query q"
  "procedure_call_sql i \<noteq> claim_query q" "procedure_call_sql i \<noteq> complete_query q"
  by (cases q; simp add: query_texts function_ddl_def procedure_ddl_def function_call_sql_def procedure_call_sql_def)+

text \<open>Whatever an agent's job does, it claims nothing and answers nothing.\<close>

lemma silent_sandboxed [intro!]: "silent q (run_sandboxed_sql dp agent_id sql pg_role)"
  unfolding run_sandboxed_sql_def sandbox_body_def Let_def by (auto intro!: set_texts)

lemma silent_build:
  assumes "ddl \<noteq> claim_query q" "ddl \<noteq> complete_query q"
  shows "silent q (run_build dp ddl)"
  unfolding run_build_def build_body_def using assms by (auto intro!: set_texts)

lemma silent_builds [intro!]:
  "silent q (run_function_build clock dp i b)" "silent q (run_procedure_build clock dp i b)"
  unfolding run_function_build_def run_procedure_build_def Let_def split_beta
  by (intro silent_checked silent_build agent_texts)+

lemma silent_calls [intro!]:
  "silent q (run_function_call dp i args role)" "silent q (run_procedure_call dp i args role)"
  unfolding run_function_call_def run_procedure_call_def call_body_def call_preamble_def
  by (auto intro!: set_texts agent_texts)

text \<open>Claims and completions of another queue.\<close>

lemma silent_claim_jobs:
  assumes "s \<noteq> claim_query q" "s \<noteq> complete_query q"
  shows "silent q (claim_jobs dp s key n)"
  unfolding claim_jobs_def using assms by auto

lemma failed_warning_other: "failed_warning fn noun \<noteq> skip_warning (complete_fn q) (complete_noun q)"
  if "fn \<noteq> [] \<Longrightarrow> hd fn = CHR ''f''"
  using that by (cases fn) (auto simp: failed_warning_def skip_warning_def)

lemma silent_complete_call:
  assumes "s \<noteq> claim_query q" "s \<noteq> complete_query q" "prefix ''fn_'' fn"
    "skip_warning fn noun \<noteq> skip_warning (complete_fn q) (complete_noun q)"
  shows "silent q (complete_call dp fn noun s i args)"
  unfolding complete_call_def using assms failed_warning_other [of fn noun q]
  by (auto simp: prefix_def split: spi_response.splits)

subsection \<open>Paying off\<close>

text \<open>From one list of owed identifiers to another; a computation that raises has at least kept the order.\<close>

definition pays :: "exec_queue \<Rightarrow> string list \<Rightarrow> 'a pg \<Rightarrow> ('a \<Rightarrow> string list) \<Rightarrow> bool" where
  "pays q owed m owed' \<longleftrightarrow>
     follows (owed_step q) (owed_ok q) (\<lambda>s. s = owed) m (\<lambda>x s. s = owed' x) (\<lambda>_. True)"

lemma pays_return [intro!]: "pays q owed (pg_return x) (\<lambda>_. owed)"
  unfolding pays_def by (rule follows_return)

lemma pays_bind:
  assumes "pays q owed m owed1" "\<And>x. pays q (owed1 x) (f x) owed2"
  shows "pays q owed (pg_bind m f) owed2"
  using assms unfolding pays_def by (rule follows_bind)

lemma silent_pays:
  assumes "silent q m"
  shows "pays q owed m (\<lambda>_. owed)"
  unfolding pays_def
proof (rule followsI)
  fix db h s r es
  assume "s = owed" "m db h = (r, es)"
  with assms have "list_all (\<lambda>ev. \<not> is_claim q ev \<and> answers q ev = None) es"
    unfolding silent_def by (metis snd_conv)
  then have "allowed (owed_step q) (owed_ok q) s es \<and> foldl (owed_step q) s es = s"
    by (induction es) (auto simp: owed_step_def [of q s] owed_ok_def [of q s])
  with \<open>s = owed\<close> show "allowed (owed_step q) (owed_ok q) s es \<and>
      (case r of Value x \<Rightarrow> foldl (owed_step q) s es = owed | Raise e \<Rightarrow> True)"
    by (simp split: pg_result.split)
qed

lemma pays_transaction:
  assumes "pays q owed m owed'"
  shows "pays q owed (transaction m) owed'"
  unfolding transaction_def
proof (rule pays_bind [OF silent_pays [OF silent_emit(1)]], rule pays_bind [OF assms])
  show "pays q (owed' x) (pg_bind (pg_emit Commit_xact) (\<lambda>_. pg_return x)) owed'" for x
    by (rule pays_bind [OF silent_pays [OF silent_emit(2)]]) (simp add: pays_def follows_return)
qed

lemma claimed_ids_empty [simp]: "claimed_ids q (empty_claim (queue_key q)) = []"
  by (cases q) (simp_all add: claimed_ids_def empty_claim_def get_array_def json_get_object as_array_def map_filter_ops)

lemma pays_claim: "pays q [] (claim_jobs dp (claim_query q) (queue_key q) n) (claimed_ids q)"
  unfolding claim_jobs_def
proof (intro pays_transaction pays_bind [OF silent_pays [OF silent_drop]])
  fix ok
  have spi: "pays q [] (spi (claim_query q) args) (\<lambda>r. case ok_flatten r of Some j \<Rightarrow> claimed_ids q j | None \<Rightarrow> [])" for args
    unfolding pays_def by (rule follows_spi)
      (auto simp: owed_ok_def owed_step_def is_claim_def hands_out_def ok_flatten_def split: spi_response.splits option.splits)
  have "pays q (case ok_flatten r of Some j \<Rightarrow> claimed_ids q j | None \<Rightarrow> [])
      (pg_return (case ok_flatten r of Some j \<Rightarrow> j | None \<Rightarrow> empty_claim (queue_key q))) (claimed_ids q)" for r
    unfolding pays_def by (rule follows_return) (simp split: option.splits)
  from pays_bind [OF spi this]
  show "pays q [] (if \<not> ok then pg_return (empty_claim (queue_key q))
      else pg_bind (spi (claim_query q) [AInt n]) (\<lambda>r. pg_return (case ok_flatten r of Some j \<Rightarrow> j | None \<Rightarrow> empty_claim (queue_key q))))
    (claimed_ids q)"
    by (auto simp: pays_def intro!: follows_return)
qed

lemma complete_fn_prefix: "prefix ''fn_'' (complete_fn q)"
  by (cases q) simp_all

lemma pays_complete:
  "pays q (i # owed) (complete_call dp (complete_fn q) (complete_noun q) (complete_query q) i args) (\<lambda>_. owed)"
  unfolding complete_call_def
proof (intro pays_transaction pays_bind [OF silent_pays [OF silent_drop]])
  fix ok
  have warn: "pays q (i # owed) (pg_warn (skip_warning (complete_fn q) (complete_noun q)) [i]) (\<lambda>_. owed)"
    unfolding pays_def pg_warn_def
    by (rule follows_emit) (simp add: owed_ok_def owed_step_def is_claim_def answers_def accounts_for_def)
  have spi: "pays q (i # owed) (spi (complete_query q) (AText i # args)) (\<lambda>_. owed)"
    unfolding pays_def using claim_not_complete [of q q]
    by (intro follows_spi) (simp add: owed_ok_def owed_step_def is_claim_def answers_def accounts_for_def)
  have "silent q (case r of Failed e \<Rightarrow> pg_warn (failed_warning (complete_fn q) (complete_noun q)) [i, e] | _ \<Rightarrow> pg_return ())" for r
    using failed_warning_other [of "complete_fn q" "complete_noun q" q] complete_fn_prefix [of q]
    by (auto simp: prefix_def split: spi_response.splits)
  from warn pays_bind [OF spi silent_pays [OF this]]
  show "pays q (i # owed) (if \<not> ok then pg_warn (skip_warning (complete_fn q) (complete_noun q)) [i]
      else pg_bind (spi (complete_query q) (AText i # args)) (\<lambda>r. case r of
        Failed e \<Rightarrow> pg_warn (failed_warning (complete_fn q) (complete_noun q)) [i, e] | _ \<Rightarrow> pg_return ())) (\<lambda>_. owed)"
    by simp
qed

subsection \<open>The pumps\<close>

lemma pays_each:
  assumes "\<And>job. silent q (execute job)"
    and "\<And>i out. \<exists>args. submit i out = complete_call dp (complete_fn q) (complete_noun q) (complete_query q) i args"
    and "\<And>c. entry_id q c = map_option job_id (parse c)"
  shows "pays q (List.map_filter (entry_id q) calls) (pump_each (pump_step parse job_id execute submit) calls) (\<lambda>_. [])"
proof (induction calls)
  case Nil
  show ?case using pays_return [of q "[]" 0] by (simp add: List.map_filter_simps pg_return_def)
next
  case (Cons c calls)
  let ?rest = "List.map_filter (entry_id q) calls"
  have "pays q (List.map_filter (entry_id q) (c # calls)) (pump_step parse job_id execute submit c) (\<lambda>_. ?rest)"
  proof (cases "parse c")
    case None
    then show ?thesis by (simp add: pump_step_def List.map_filter_simps assms(3) pays_return)
  next
    case (Some job)
    have "pays q (job_id job # ?rest) (submit (job_id job) out) (\<lambda>_. ?rest)" for out
      using assms(2) [of "job_id job" out] pays_complete by metis
    from pays_bind [OF silent_pays [OF assms(1)] pays_bind [OF this pays_return]] Some show ?thesis
      by (simp add: pump_step_def List.map_filter_simps assms(3))
  qed
  from pays_bind [OF this pays_bind [OF Cons.IH pays_return]] show ?case by simp
qed

lemma pays_own_pump:
  assumes "\<And>job. silent q (execute job)"
    and "\<And>i out. \<exists>args. submit i out = complete_call dp (complete_fn q) (complete_noun q) (complete_query q) i args"
    and "\<And>c. entry_id q c = map_option job_id (parse c)"
  shows "pays q [] (pump_claimed (claim_jobs dp (claim_query q) (queue_key q) n) (queue_key q)
    (pump_step parse job_id execute submit)) (\<lambda>_. [])"
  unfolding pump_claimed_def
proof (rule pays_bind [OF pays_claim])
  show "pays q (claimed_ids q claimed) (case get_array claimed (queue_key q) of None \<Rightarrow> pg_return 0
      | Some calls \<Rightarrow> pump_each (pump_step parse job_id execute submit) calls) (\<lambda>_. [])" for claimed
    using pays_each [OF assms] by (auto simp: claimed_ids_def split: option.splits)
qed

lemma silent_other_pump:
  assumes "q' \<noteq> q" and "\<And>job. silent q (execute job)"
    and "\<And>i out. \<exists>args. submit i out = complete_call dp (complete_fn q') (complete_noun q') (complete_query q') i args"
  shows "silent q (pump_claimed (claim_jobs dp (claim_query q') (queue_key q') n) (queue_key q')
    (pump_step parse job_id execute submit))"
proof -
  have "silent q (submit i out)" for i out
    using assms(3) [of i out] assms(1) complete_fn_prefix
      silent_complete_call [of "complete_query q'" q "complete_fn q'" "complete_noun q'"]
    by (auto simp: claim_not_complete complete_query_inject skip_warning_inject)
  then have "silent q (pump_step parse job_id execute submit c)" for c
    using assms(2) by (auto simp: pump_step_def split: option.splits)
  then have "silent q (pump_each (pump_step parse job_id execute submit) cs)" for cs
    by (induction cs) auto
  moreover have "claim_query q' \<noteq> complete_query q" using claim_not_complete by metis
  ultimately show ?thesis
    using silent_claim_jobs [of "claim_query q'" q] assms(1)
    by (auto simp: pump_claimed_def claim_query_inject split: option.splits)
qed

text \<open>So each pump, whichever queue is watched, starts and ends with nothing owed.\<close>

lemma pays_pump:
  assumes "\<And>job. silent q (execute job)"
    and "\<And>i out. \<exists>args. submit i out = complete_call dp (complete_fn q') (complete_noun q') (complete_query q') i args"
    and "\<And>c. entry_id q' c = map_option job_id (parse c)"
  shows "pays q [] (pump_claimed (claim_jobs dp (claim_query q') (queue_key q') n) (queue_key q')
    (pump_step parse job_id execute submit)) (\<lambda>_. [])"
proof (cases "q' = q")
  case True
  with assms show ?thesis using pays_own_pump [of q execute submit dp job_id parse n] by simp
next
  case False
  from silent_pays [OF silent_other_pump [OF this assms(1,2)]] show ?thesis .
qed

lemmas pump_defs = pump_sql_def claim_sql_jobs_def execute_sql_job_def
  pump_function_builds_def claim_function_build_jobs_def pump_function_calls_def claim_function_call_jobs_def
  pump_procedure_builds_def claim_procedure_build_jobs_def pump_procedure_calls_def claim_procedure_call_jobs_def

lemma pays_pumps:
  "pays q [] (pump_sql dp) (\<lambda>_. [])" "pays q [] (pump_function_builds clock dp) (\<lambda>_. [])"
  "pays q [] (pump_function_calls dp) (\<lambda>_. [])" "pays q [] (pump_procedure_builds clock dp) (\<lambda>_. [])"
  "pays q [] (pump_procedure_calls dp) (\<lambda>_. [])"
  unfolding pump_defs
  by (rule pays_pump [where q' = Sql_calls, simplified] pays_pump [where q' = Function_builds, simplified]
      pays_pump [where q' = Function_calls, simplified] pays_pump [where q' = Procedure_builds, simplified]
      pays_pump [where q' = Procedure_calls, simplified];
    auto simp: submit_sql_result_def submit_function_build_result_def submit_function_call_result_def
      submit_procedure_build_result_def submit_procedure_call_result_def)+

subsection \<open>The turn and the life\<close>

abbreviation settled :: "exec_queue \<Rightarrow> 'a pg \<Rightarrow> bool" where
  "settled q m \<equiv> pays q [] m (\<lambda>_. [])"

lemma worker_texts:
  "installed_sql \<noteq> claim_query q" "installed_sql \<noteq> complete_query q"
  "check_lost_sql \<noteq> claim_query q" "check_lost_sql \<noteq> complete_query q"
  "dashboard_sql \<noteq> claim_query q" "dashboard_sql \<noteq> complete_query q"
  "''SELECT allgres_public.fn_watchdog($1)'' \<noteq> claim_query q" "''SELECT allgres_public.fn_watchdog($1)'' \<noteq> complete_query q"
  "''SELECT allgres_public.fn_dispatch_tasks()'' \<noteq> claim_query q" "''SELECT allgres_public.fn_dispatch_tasks()'' \<noteq> complete_query q"
  "''SELECT allgres_public.fn_claim_outbound($1)'' \<noteq> claim_query q" "''SELECT allgres_public.fn_claim_outbound($1)'' \<noteq> complete_query q"
  "''SELECT allgres_public.fn_claim_oauth($1)'' \<noteq> claim_query q" "''SELECT allgres_public.fn_claim_oauth($1)'' \<noteq> complete_query q"
  "''SELECT allgres_public.fn_claim_agent_embedding($1)'' \<noteq> claim_query q"
  "''SELECT allgres_public.fn_claim_agent_embedding($1)'' \<noteq> complete_query q"
  "''SELECT allgres_public.fn_claim_provider_probe($1)'' \<noteq> claim_query q"
  "''SELECT allgres_public.fn_claim_provider_probe($1)'' \<noteq> complete_query q"
  by (cases q; simp add: query_texts installed_sql_def check_lost_sql_def dashboard_sql_def)+

lemma warning_texts:
  "''Allgres RPC accept: {}'' \<noteq> skip_warning (complete_fn q) (complete_noun q)"
  "''Allgres RPC bind failed ({}): {}'' \<noteq> skip_warning (complete_fn q) (complete_noun q)"
  "''Allgres RPC nonblocking failed: {}'' \<noteq> skip_warning (complete_fn q) (complete_noun q)"
  "''Allgres: fn_watchdog failed: {}'' \<noteq> skip_warning (complete_fn q) (complete_noun q)"
  "''Allgres: fn_dispatch_tasks failed: {}'' \<noteq> skip_warning (complete_fn q) (complete_noun q)"
  by (cases q; simp add: skip_warning_def)+

lemma silent_submit_call_result:
  assumes "fn \<in> {''fn_complete_outbound'', ''fn_complete_oauth'', ''fn_complete_agent_embedding'', ''fn_complete_provider_probe''}"
  shows "silent q (submit_call_result dp fn i status body)"
  unfolding submit_call_result_def
  using assms by (intro silent_complete_call; cases q; auto simp: query_texts skip_warning_def)

lemma silent_harvest: "silent q (harvest dp rs busy)"
  by (induction rs arbitrary: busy)
    (auto simp: submit_result_def submit_http_result_def submit_oauth_result_def submit_agent_embedding_result_def
      submit_provider_probe_result_def intro!: silent_submit_call_result split: outbound_queue.splits)

lemma silent_claim_stage: "(\<And>n. silent q (claim n)) \<Longrightarrow> silent q (claim_stage claim alive queue kind r sent busy)"
  unfolding claim_stage_def by auto

lemma silent_warn_failed:
  "silent q (warn_failed ''fn_watchdog'' r)" "silent q (warn_failed ''fn_dispatch_tasks'' r)"
  using warning_texts(4,5) [of q] by (auto simp: warn_failed_def split: spi_response.splits)

lemma silent_claim_stages: "silent q (claim_stages dp alive r busy)"
  unfolding claim_stages_def claim_oauth_jobs_def claim_agent_embedding_jobs_def claim_provider_probe_jobs_def dispatch_and_claim_def
  by (intro silent_bind silent_claim_stage silent_claim_jobs worker_texts) (auto intro!: silent_warn_failed worker_texts)

lemma silent_accept_rpc: "silent q (accept_rpc jt dp is_ready inputs err)"
proof -
  have "silent q (handle_rpc_stream jt dp is_ready i)" for i
    unfolding handle_rpc_stream_def dashboard_rpc_def Let_def by (auto intro!: worker_texts split: option.splits)
  then have "silent q (serve_rpc jt dp is_ready inputs)" by (induction inputs) auto
  then show ?thesis unfolding accept_rpc_def by (auto intro!: warning_texts split: option.splits)
qed

lemma silent_propagate: "silent q (propagate_outbound_cancellations dp ids cs)"
  unfolding propagate_outbound_cancellations_def ask_lost_def by (auto intro!: worker_texts)

lemma silent_installed: "silent q extension_is_installed"
  unfolding extension_is_installed_def by (auto intro!: worker_texts)

lemma settled_bind: "settled q m \<Longrightarrow> (\<And>x. settled q (f x)) \<Longrightarrow> settled q (pg_bind m f)"
  by (rule pays_bind)

lemma settled_run_pumps: "settled q (run_pumps clock dp is_ready)"
  unfolding run_pumps_def pg_when_def
  by (intro settled_bind) (auto intro: pays_pumps)

lemma settled_tick: "settled q (tick dp env st)"
  unfolding tick_def pump_phase_def
  by (intro settled_bind silent_pays [OF silent_accept_rpc] silent_pays [OF silent_harvest] silent_pays [OF silent_propagate])
    (auto intro!: settled_bind settled_run_pumps silent_pays [OF silent_installed] silent_pays [OF silent_claim_stages])

lemma settled_turns: "settled q (run_turns dp envs st)"
proof (induction envs arbitrary: st)
  case (Cons env envs)
  then show ?case by (auto intro!: settled_bind settled_tick split: prod.splits)
qed auto

lemma settled_main: "settled q (allgres_runtime_main b)"
  unfolding allgres_runtime_main_def Let_def
  by (auto intro!: settled_bind settled_turns silent_pays [OF silent_warn] warning_texts split: prod.splits sum.splits)

text \<open>The machine rejects a second answer, an answer out of turn, one that nobody is waiting for, and a claim on top of a
  debt; and a pump over a queue that is not empty hands out and answers.\<close>

lemma owed_rejects:
  "\<not> allowed (owed_step Sql_calls) (owed_ok Sql_calls) [i] [Spi complete_sql [AText i] r, Spi complete_sql [AText i] r']"
  "i \<noteq> j \<Longrightarrow> \<not> allowed (owed_step Sql_calls) (owed_ok Sql_calls) [i, j] [Spi complete_sql [AText j] r]"
  "\<not> allowed (owed_step Sql_calls) (owed_ok Sql_calls) [] [Spi complete_sql [AText i] r]"
  "\<not> allowed (owed_step Sql_calls) (owed_ok Sql_calls) [i] [Spi (claim_query Sql_calls) [AInt 1] r]"
  by (simp_all add: owed_step_def owed_ok_def is_claim_def answers_def accounts_for_def complete_sql_def)

lemma owed_example:
  "\<exists>es. pump_sql None one_call_db [] = (Value 1, es) \<and> sample_uuid \<in> set (concat (map (hands_out Sql_calls) es))"
proof -
  obtain es0 es where run: "pump_sql None one_call_db [] = (Value 1, es0 @ es)"
    and answered: "List.map_filter (answers Sql_calls) es = [sample_uuid]"
    using pump_sql_exactly_once_witness by (auto simp: answers_def)
  from followsD [OF pays_pumps(1) [of Sql_calls None, unfolded pays_def] refl run]
  have "concat (map (hands_out Sql_calls) (es0 @ es)) = List.map_filter (answers Sql_calls) (es0 @ es)"
    using allowed_balance [of Sql_calls "[]" "es0 @ es"] by simp
  then have "sample_uuid \<in> set (concat (map (hands_out Sql_calls) (es0 @ es)))"
    using answered by (simp only: map_filter_append) simp
  with run show ?thesis by blast
qed

end
