(* ===== verification/Http_Pool.thy ===== *)
theory Http_Pool
  imports Runtime_Worker "HOL-Library.Multiset"
begin

text \<open>
  The HTTP pool (\<open>spawn_http_pool\<close> of \<open>src/outbound.rs\<close>) beside the runtime worker: the job channel, the threads that
  share its receiving end, the result channel, and the registry of cancellation flags that threads and worker
  update. A thread receives a job, registers its flag, makes the request, drops the flag and sends the
  result, each a step of its own; a panic inside the request ends it for good. Here a turn of the worker is one step between those of the threads;
  \<open>Pool_Steps\<close> takes the turn apart.
\<close>

section \<open>Definitions\<close>

datatype http_thread =
    Waiting
  | Received outbound_job
  | Requesting outbound_job nat
  | Answering outbound_result
  | Died outbound_job

text \<open>\<open>sent_calls\<close> and \<open>received_calls\<close> record the calls handed to the pool and the results the worker received from it
  (and tried to submit), by identifier and queue.\<close>

record pool_sys =
  worker :: runtime_state
  job_chan :: "outbound_job list"
  threads :: "http_thread list"
  res_chan :: "outbound_result list"
  session :: "pg_event list"
  sent_calls :: "(string \<times> outbound_queue) list"
  received_calls :: "(string \<times> outbound_queue) list"

definition job_key :: "outbound_job \<Rightarrow> string \<times> outbound_queue" where
  "job_key j = (job_call_id j, job_queue j)"

definition res_key :: "outbound_result \<Rightarrow> string \<times> outbound_queue" where
  "res_key r = (res_call_id r, res_queue r)"

text \<open>The \<open>n\<close> threads that could be started; a failed \<open>spawn\<close> is ignored.\<close>

definition spawn_http_pool :: "nat \<Rightarrow> nat \<Rightarrow> pool_sys" where
  "spawn_http_pool n now =
     \<lparr>worker = runtime_start now, job_chan = [], threads = replicate n Waiting, res_chan = [], session = [],
      sent_calls = [], received_calls = []\<rparr>"

text \<open>\<open>recv\<close>, under the mutex.\<close>

definition receive_job :: "nat \<Rightarrow> outbound_job \<Rightarrow> outbound_job list \<Rightarrow> pool_sys \<Rightarrow> pool_sys" where
  "receive_job i j rest p = p\<lparr>job_chan := rest, threads := (threads p)[i := Received j]\<rparr>"

text \<open>\<open>CancelGuard::register\<close>, at the start of \<open>perform_http\<close>.\<close>

definition register_job :: "nat \<Rightarrow> outbound_job \<Rightarrow> pool_sys \<Rightarrow> pool_sys" where
  "register_job i j p =
     (let (cell, cs) = register (job_call_id j) (cancels (worker p)) in
      p\<lparr>threads := (threads p)[i := Requesting j cell], worker := (worker p)\<lparr>cancels := cs\<rparr>\<rparr>)"

text \<open>\<open>perform_http\<close> returns, which drops the guard.\<close>

definition return_job :: "http_client \<Rightarrow> nat \<Rightarrow> outbound_job \<Rightarrow> nat \<Rightarrow> pool_sys \<Rightarrow> pool_sys" where
  "return_job c i j cell p =
     (let ((status, body), dials) = http_outcome c cell (job_call j) in
      p\<lparr>threads := (threads p)[i :=
          Answering \<lparr>res_call_id = job_call_id j, res_queue = job_queue j, res_status = status, res_body = body\<rparr>],
        worker := (worker p)\<lparr>cancels := drop_guard (job_call_id j) (cancels (worker p))\<rparr>\<rparr>)"

definition send_result :: "nat \<Rightarrow> outbound_result \<Rightarrow> pool_sys \<Rightarrow> pool_sys" where
  "send_result i r p = p\<lparr>threads := (threads p)[i := Waiting], res_chan := res_chan p @ [r]\<rparr>"

text \<open>A panic inside \<open>perform_http\<close> unwinds through the guard, which drops the flag, and ends the thread: no result is
  sent.\<close>

definition panic_job :: "nat \<Rightarrow> outbound_job \<Rightarrow> pool_sys \<Rightarrow> pool_sys" where
  "panic_job i j p =
     p\<lparr>threads := (threads p)[i := Died j],
       worker := (worker p)\<lparr>cancels := drop_guard (job_call_id j) (cancels (worker p))\<rparr>\<rparr>"

text \<open>The receiving end of the job channel is shared by the threads: it is gone when the last of them is.\<close>

fun dead :: "http_thread \<Rightarrow> bool" where
  "dead (Died j) = True"
| "dead _ = False"

definition pool_open :: "pool_sys \<Rightarrow> bool" where
  "pool_open p = list_ex (\<lambda>t. \<not> dead t) (threads p)"

inductive thread_step :: "pool_sys \<Rightarrow> pool_sys \<Rightarrow> bool" where
  receives: "thread_step p (receive_job i j rest p)"
    if "i < length (threads p)" and "threads p ! i = Waiting" and "job_chan p = j # rest"
| registers: "thread_step p (register_job i j p)"
    if "i < length (threads p)" and "threads p ! i = Received j"
| returns: "thread_step p (return_job c i j cell p)"
    if "i < length (threads p)" and "threads p ! i = Requesting j cell"
| sends: "thread_step p (send_result i r p)"
    if "i < length (threads p)" and "threads p ! i = Answering r"
| dies: "thread_step p (panic_job i j p)"
    if "i < length (threads p)" and "threads p ! i = Requesting j cell"

text \<open>A whole turn of the worker: it harvests every result that has arrived and sends the jobs it claimed.\<close>

definition end_tick :: "runtime_state \<Rightarrow> outbound_job list \<Rightarrow> pg_event list \<Rightarrow> pool_sys \<Rightarrow> pool_sys" where
  "end_tick st' jobs es p =
     p\<lparr>worker := st', job_chan := job_chan p @ jobs, res_chan := [], session := session p @ es,
       sent_calls := sent_calls p @ map job_key jobs, received_calls := received_calls p @ map res_key (res_chan p)\<rparr>"

inductive pool_run :: "string option \<Rightarrow> pg_db \<Rightarrow> pool_sys \<Rightarrow> bool" for dp db where
  spawned: "pool_run dp db (spawn_http_pool n now)"
    if "n \<le> HTTP_THREADS"
| threaded: "pool_run dp db p'"
    if "pool_run dp db p" and "thread_step p p'"
| turned: "pool_run dp db (end_tick st' jobs es p)"
    if "pool_run dp db p" and "finished env = res_chan p" and "pool_alive env = pool_open p"
      and "set (cancel_ids env) = dom (registry (cancels (worker p)))"
      and "tick dp env (worker p) db (session p) = (Value (st', jobs), es)"

section \<open>Lemmas\<close>

inductive_cases thread_stepE: "thread_step p p'"

lemmas thread_updates = receive_job_def register_job_def return_job_def send_result_def panic_job_def

fun thread_key :: "http_thread \<Rightarrow> (string \<times> outbound_queue) option" where
  "thread_key Waiting = None"
| "thread_key (Received j) = Some (job_key j)"
| "thread_key (Requesting j cell) = Some (job_key j)"
| "thread_key (Answering r) = Some (res_key r)"
| "thread_key (Died j) = Some (job_key j)"

definition thread_keys :: "pool_sys \<Rightarrow> (string \<times> outbound_queue) list" where
  "thread_keys p = List.map_filter thread_key (threads p)"

text \<open>The calls the pool still owes a result or the worker a harvest; a call that died with its thread is owed for good.\<close>

definition outstanding :: "pool_sys \<Rightarrow> (string \<times> outbound_queue) multiset" where
  "outstanding p = mset (map job_key (job_chan p)) + mset (thread_keys p) + mset (map res_key (res_chan p))"

definition pool_ok :: "pool_sys \<Rightarrow> bool" where
  "pool_ok p \<longleftrightarrow> in_flight (worker p) = size (outstanding p)
     \<and> mset (sent_calls p) = mset (received_calls p) + outstanding p \<and> cancel_reachable (cancels (worker p))"

lemma mset_map_filter_update:
  assumes "i < length xs"
  shows "mset (List.map_filter f (xs[i := y])) + (case f (xs ! i) of None \<Rightarrow> {#} | Some a \<Rightarrow> {#a#}) =
    mset (List.map_filter f xs) + (case f y of None \<Rightarrow> {#} | Some b \<Rightarrow> {#b#})"
proof -
  have "mset (List.map_filter f (a @ z # b)) =
      mset (List.map_filter f (a @ b)) + (case f z of None \<Rightarrow> {#} | Some v \<Rightarrow> {#v#})" for a b z
    by (auto simp: map_filter_ops split: option.split)
  from this [of "take i xs" y "drop (Suc i) xs"] this [of "take i xs" "xs ! i" "drop (Suc i) xs"] assms show ?thesis
    by (simp add: upd_conv_take_nth_drop id_take_nth_drop [symmetric] ac_simps)
qed

lemma mset_map_filter_same:
  assumes "i < length xs" "f y = f (xs ! i)"
  shows "mset (List.map_filter f (xs[i := y])) = mset (List.map_filter f xs)"
  using mset_map_filter_update [OF assms(1), of f y] assms(2) by (cases "f (xs ! i)") simp_all

lemma map_filter_none: "f x = None \<Longrightarrow> List.map_filter f (replicate n x) = []"
  by (induction n) (auto simp: map_filter_ops)

lemma thread_step_outstanding: "thread_step p p' \<Longrightarrow> outstanding p' = outstanding p"
proof (erule thread_stepE, goal_cases)
  case (1 i j rest)
  with mset_map_filter_update [OF 1(2), of thread_key "Received j"] show ?case
    by (simp add: outstanding_def thread_keys_def thread_updates)
next
  case (2 i j)
  then show ?case by (simp add: outstanding_def thread_keys_def thread_updates split_beta mset_map_filter_same)
next
  case (3 i j cell c)
  then show ?case
    by (simp add: outstanding_def thread_keys_def thread_updates split_beta mset_map_filter_same job_key_def res_key_def)
next
  case (4 i r)
  with mset_map_filter_update [OF 4(2), of thread_key Waiting] show ?case
    by (simp add: outstanding_def thread_keys_def thread_updates)
next
  case (5 i j cell)
  then show ?case by (simp add: outstanding_def thread_keys_def thread_updates mset_map_filter_same)
qed

lemma thread_step_keeps:
  assumes "thread_step p p'"
  shows "sent_calls p' = sent_calls p" "received_calls p' = received_calls p"
    "in_flight (worker p') = in_flight (worker p)" "length (threads p') = length (threads p)"
    "ready (worker p') = ready (worker p)" "next_pump (worker p') = next_pump (worker p)" "session p' = session p"
  using assms by (auto elim!: thread_stepE simp: thread_updates split_beta)

lemma thread_step_cancels:
  assumes "thread_step p p'" "cancel_reachable (cancels (worker p))"
  shows "cancel_reachable (cancels (worker p'))"
  using assms by (auto elim!: thread_stepE simp: thread_updates split_beta intro: cancel_register cancel_drop)

lemma pool_ok_thread:
  assumes "thread_step p p'" "pool_ok p"
  shows "pool_ok p'"
  using assms(2) thread_step_outstanding [OF assms(1)] thread_step_keeps [OF assms(1)] thread_step_cancels [OF assms(1)]
  by (simp add: pool_ok_def)

lemma pool_ok_spawned: "pool_ok (spawn_http_pool n now)"
  by (simp add: pool_ok_def spawn_http_pool_def outstanding_def thread_keys_def runtime_start_def cancel_start map_filter_none)

subsection \<open>Calls that are not handed out twice\<close>

lemma map_filter_distinct_nth:
  assumes "distinct (map g (List.map_filter f xs))" "i < length xs" "k < length xs" "i \<noteq> k"
    and "f (xs ! i) = Some a" "f (xs ! k) = Some b"
  shows "g a \<noteq> g b"
  using assms
proof (induction xs arbitrary: i k)
  case (Cons x xs)
  have later: "g z \<in> g ` set (List.map_filter f xs)" if "n < length xs" "f (xs ! n) = Some z" for n z
    using that by (force simp: List.map_filter_def intro: rev_image_eqI)
  show ?case
  proof (cases i)
    case 0
    with Cons.prems obtain n where "k = Suc n" by (cases k) auto
    with 0 Cons.prems later [of n b] show ?thesis by (auto simp: map_filter_ops)
  next
    case (Suc m)
    then show ?thesis
    proof (cases k)
      case 0
      with Suc Cons.prems later [of m a] show ?thesis by (auto simp: map_filter_ops)
    next
      case (Suc n)
      with \<open>i = Suc m\<close> Cons.prems Cons.IH [of m n] show ?thesis by (auto simp: map_filter_ops split: option.splits)
    qed
  qed
qed simp

definition thread_ids :: "pool_sys \<Rightarrow> string list" where
  "thread_ids p = map fst (thread_keys p)"

text \<open>When no call is handed out twice, the calls waiting and those on threads have different identifiers.\<close>

lemma sent_once_distinct:
  assumes "pool_ok p" "distinct (map fst (sent_calls p))"
  shows "distinct (map job_call_id (job_chan p) @ thread_ids p)"
proof -
  let ?ids = "map job_call_id (job_chan p) @ thread_ids p"
  have "image_mset fst (mset (sent_calls p)) = image_mset fst (mset (received_calls p) + outstanding p)"
    using assms(1) by (simp add: pool_ok_def)
  then have "mset (map fst (sent_calls p)) =
      mset (map fst (received_calls p) @ ?ids @ map res_call_id (res_chan p))"
    by (simp add: outstanding_def thread_ids_def job_key_def res_key_def image_mset.compositionality comp_def)
  then have "distinct (map fst (received_calls p) @ ?ids @ map res_call_id (res_chan p))"
    using assms(2) mset_eq_imp_distinct_iff by blast
  then show ?thesis by auto
qed

lemma other_thread_differs:
  assumes "distinct (thread_ids p)" "i < length (threads p)" "k < length (threads p)" "i \<noteq> k"
    and "thread_key (threads p ! i) = Some a" "thread_key (threads p ! k) = Some b"
  shows "fst a \<noteq> fst b"
  using map_filter_distinct_nth [OF assms(1) [unfolded thread_ids_def thread_keys_def] assms(2-4)] assms(5,6) by simp

lemma thread_id_in:
  assumes "i < length (threads p)" "thread_key (threads p ! i) = Some a"
  shows "fst a \<in> set (thread_ids p)"
proof -
  have "threads p ! i \<in> set (threads p)" using assms(1) by simp
  with assms(2) show ?thesis
    by (force simp: thread_ids_def thread_keys_def List.map_filter_def intro!: image_eqI [of _ _ "threads p ! i"])
qed

lemma thread_ids_sent: "pool_ok p \<Longrightarrow> set (thread_ids p) \<subseteq> fst ` set (sent_calls p)"
proof -
  assume "pool_ok p"
  then have "set_mset (outstanding p) \<subseteq> set (sent_calls p)"
    by (metis mset_subset_eq_add_right pool_ok_def set_mset_mono set_mset_mset)
  then have "set (thread_keys p) \<subseteq> set (sent_calls p)" by (auto simp: outstanding_def)
  then show ?thesis by (auto simp: thread_ids_def)
qed

subsection \<open>A run\<close>

text \<open>The one claimed call has been taken by the first thread and is being requested.\<close>

lemma one_call_running:
  "\<exists>p job cell. pool_run None outbound_db p \<and> 0 < length (threads p) \<and> threads p ! 0 = Requesting job cell
     \<and> outstanding p = {#job_key job#} \<and> sent_calls p = [job_key job] \<and> job_call_id job = sample_uuid
     \<and> 0 < next_pump (worker p) \<and> registry (cancels (worker p)) = [sample_uuid \<mapsto> cell]
     \<and> \<not> cells (cancels (worker p)) cell \<and> res_chan p = []"
proof -
  let ?p0 = "spawn_http_pool HTTP_THREADS 0"
  obtain st' job es where t: "tick None idle_env (runtime_start 0) outbound_db [] = (Value (st', [job]), es)"
    and job: "job_call_id job = sample_uuid" "0 < next_pump st'"
    using outbound_turn by blast
  let ?p1 = "end_tick st' [job] es ?p0"
  have r1: "pool_run None outbound_db ?p1"
    using t by (intro turned [OF spawned [OF order_refl], where env = idle_env])
      (simp_all add: spawn_http_pool_def idle_env_def runtime_start_def no_flags_def pool_open_def HTTP_THREADS_def list_ex_iff)
  have p1: "job_chan ?p1 = [job]" "threads ?p1 = replicate 4 Waiting" "worker ?p1 = st'" "sent_calls ?p1 = [job_key job]"
    "res_chan ?p1 = []" by (simp_all add: end_tick_def spawn_http_pool_def HTTP_THREADS_def)
  let ?p2 = "receive_job 0 job [] ?p1" and ?p3 = "register_job 0 job (receive_job 0 job [] ?p1)"
  have s2: "thread_step ?p1 ?p2" by (rule receives) (simp_all add: p1)
  have s3: "thread_step ?p2 ?p3" by (rule registers) (simp_all add: receive_job_def p1)
  have r3: "pool_run None outbound_db ?p3" by (rule threaded [OF threaded [OF r1 s2] s3])
  have "outstanding ?p1 = {#job_key job#}"
    by (simp add: outstanding_def thread_keys_def p1 map_filter_none)
  then have "outstanding ?p3 = {#job_key job#}" using thread_step_outstanding s2 s3 by metis
  moreover have "registry (cancels st') = Map.empty"
    using tick_cancels [OF t] by (auto simp: runtime_start_def no_flags_def flag_lost_eq)
  then have "threads ?p3 ! 0 = Requesting job (next_cell (cancels st'))" "0 < length (threads ?p3)"
    "0 < next_pump (worker ?p3)" "registry (cancels (worker ?p3)) = [sample_uuid \<mapsto> next_cell (cancels st')]"
    "\<not> cells (cancels (worker ?p3)) (next_cell (cancels st'))" "res_chan ?p3 = []" "sent_calls ?p3 = [job_key job]"
    using p1 job by (simp_all add: receive_job_def register_job_def register_def)
  ultimately show ?thesis using r3 job(1)
    by (intro exI [of _ ?p3] exI [of _ job] exI [of _ "next_cell (cancels st')"]) simp
qed

end
