(* ===== verification/Pool_Steps.thy ===== *)
theory Pool_Steps
  imports Http_Pool
begin

text \<open>
  The loop of \<open>allgres_runtime_main\<close> one step at a time, with the pool's threads running in between. In \<open>Http_Pool\<close> a
  turn is one step; here every received result, the look at the registry of flags, the question to the
  database, the raising of flags, every claim and every job sent is a step of its own, and a thread can take
  or finish a job before any of them. The turns of \<open>Http_Pool\<close> are the runs in which no thread moves
  inside a turn.
\<close>

section \<open>Definitions\<close>

text \<open>Where the worker stands in its loop, with the local variables that are still needed there.\<close>

datatype worker_pc =
    At_latch
  | At_results
  | At_flags
  | At_ask "string list"
  | At_raise "string list"
  | At_pump
  | At_claim outbound_queue
  | At_send outbound_queue "json list"
  | At_executors

text \<open>\<open>queued\<close> is the loop's counter. \<open>reported\<close> records which calls the database has reported lost while they were
  registered.\<close>

record stepped =
  pool :: pool_sys
  where_at :: worker_pc
  queued :: nat
  reported :: "string set"

definition stepped_start :: "nat \<Rightarrow> nat \<Rightarrow> stepped" where
  "stepped_start n now =
     \<lparr>pool = spawn_http_pool n now, where_at = At_latch, queued = 0, reported = {}\<rparr>"

definition logged :: "pg_event list \<Rightarrow> pool_sys \<Rightarrow> pool_sys" where
  "logged es p = p\<lparr>session := session p @ es\<rparr>"

definition go :: "worker_pc \<Rightarrow> pool_sys \<Rightarrow> stepped \<Rightarrow> stepped" where
  "go l p s = s\<lparr>pool := p, where_at := l\<rparr>"

text \<open>\<open>try_recv\<close> and the submission of what it gave.\<close>

definition receive :: "outbound_result \<Rightarrow> outbound_result list \<Rightarrow> pool_sys \<Rightarrow> pool_sys" where
  "receive r rest p =
     p\<lparr>res_chan := rest, worker := (worker p)\<lparr>in_flight := in_flight (worker p) - 1\<rparr>,
       received_calls := received_calls p @ [res_key r]\<rparr>"

definition raise_flags :: "string list \<Rightarrow> pool_sys \<Rightarrow> pool_sys" where
  "raise_flags lost p =
     p\<lparr>worker := (worker p)\<lparr>cancels := (if lost = [] then cancels (worker p) else flag_lost lost (cancels (worker p)))\<rparr>\<rparr>"

definition claim_queue :: "string option \<Rightarrow> outbound_queue \<Rightarrow> nat \<Rightarrow> json pg" where
  "claim_queue dp q n =
     (case q of
        Outbound \<Rightarrow> dispatch_and_claim dp n
      | Oauth \<Rightarrow> claim_oauth_jobs dp (as_i32 (int n))
      | AgentEmbedding \<Rightarrow> claim_agent_embedding_jobs dp (as_i32 (int n))
      | ProviderProbe \<Rightarrow> claim_provider_probe_jobs dp (as_i32 (int n)))"

definition claimed_calls :: "json \<Rightarrow> json list" where
  "claimed_calls claimed = (case get_array claimed ''calls'' of None \<Rightarrow> [] | Some calls \<Rightarrow> calls)"

fun after_queue :: "outbound_queue \<Rightarrow> worker_pc" where
  "after_queue Outbound = At_claim Oauth"
| "after_queue Oauth = At_claim AgentEmbedding"
| "after_queue AgentEmbedding = At_claim ProviderProbe"
| "after_queue ProviderProbe = At_executors"

text \<open>The identifier of a call that is sent; the others are passed over.\<close>

definition sendable :: "json \<Rightarrow> string option" where
  "sendable call =
     (case get_str call ''call_id'' of None \<Rightarrow> None | Some i \<Rightarrow> if valid_uuid i then Some i else None)"

definition send_job :: "outbound_job \<Rightarrow> pool_sys \<Rightarrow> pool_sys" where
  "send_job j p =
     p\<lparr>job_chan := job_chan p @ [j], worker := (worker p)\<lparr>in_flight := in_flight (worker p) + 1\<rparr>,
       sent_calls := sent_calls p @ [job_key j]\<rparr>"

definition set_ready :: "bool \<Rightarrow> pool_sys \<Rightarrow> pool_sys" where
  "set_ready b p = p\<lparr>worker := (worker p)\<lparr>ready := b\<rparr>\<rparr>"

definition scheduled :: "nat \<Rightarrow> bool \<Rightarrow> pool_sys \<Rightarrow> pool_sys" where
  "scheduled now worked p = p\<lparr>worker := schedule now worked (worker p)\<rparr>"

inductive worker_step :: "string option \<Rightarrow> pg_db \<Rightarrow> stepped \<Rightarrow> stepped \<Rightarrow> bool" for dp db where
  accept: "worker_step dp db s (go At_results (logged es (pool s)) s)"
    if "where_at s = At_latch"
      and "accept_rpc jt dp (ready (worker (pool s))) inputs err db (session (pool s)) = (Value replies, es)"
| result: "worker_step dp db s (go At_results (logged es (receive r rest (pool s))) s)"
    if "where_at s = At_results" and "res_chan (pool s) = r # rest"
      and "submit_result dp r db (session (pool s)) = (Value (), es)"
| drained: "worker_step dp db s (go At_flags (pool s) s)"
    if "where_at s = At_results" and "res_chan (pool s) = []"
| listed: "worker_step dp db s (go (At_ask ids) (pool s) s)"
    if "where_at s = At_flags" and "set ids = dom (registry (cancels (worker (pool s))))"
| asked: "worker_step dp db s (go (At_raise lost) (logged es (pool s)) s)"
    if "where_at s = At_ask ids" and "ask_lost dp ids db (session (pool s)) = (Value lost, es)"
| raised: "worker_step dp db s ((go At_pump (raise_flags lost (pool s)) s)
      \<lparr>reported := reported s \<union> (set lost \<inter> dom (registry (cancels (worker (pool s)))))\<rparr>)"
    if "where_at s = At_raise lost"
| early: "worker_step dp db s (go At_latch (pool s) s)"
    if "where_at s = At_pump" and "now < next_pump (worker (pool s))"
| due: "worker_step dp db s ((go (At_claim Outbound) (logged es (set_ready b (pool s))) s)\<lparr>queued := 0\<rparr>)"
    if "where_at s = At_pump" and "next_pump (worker (pool s)) \<le> now"
      and "extension_is_installed db (session (pool s)) = (Value b, es)"
| claim: "worker_step dp db s (go (At_send q (claimed_calls claimed)) (logged es (pool s)) s)"
    if "where_at s = At_claim q" and "ready (worker (pool s))" and "in_flight (worker (pool s)) < capacity"
      and "claim_queue dp q (capacity - in_flight (worker (pool s))) db (session (pool s)) = (Value claimed, es)"
| no_claim: "worker_step dp db s (go (after_queue q) (pool s) s)"
    if "where_at s = At_claim q" and "\<not> (ready (worker (pool s)) \<and> in_flight (worker (pool s)) < capacity)"
| pass_over: "worker_step dp db s (go (At_send q calls) (pool s) s)"
    if "where_at s = At_send q (call # calls)" and "sendable call = None"
| send: "worker_step dp db s ((go (At_send q calls)
      (send_job \<lparr>job_call_id = i, job_queue = q, job_call = tag_kind (queue_kind q) call\<rparr> (pool s)) s)
      \<lparr>queued := queued s + 1\<rparr>)"
    if "where_at s = At_send q (call # calls)" and "sendable call = Some i" and "pool_open (pool s)"
| closed: "worker_step dp db s (go (after_queue q) (pool s) s)"
    if "where_at s = At_send q (call # calls)" and "sendable call = Some i" and "\<not> pool_open (pool s)"
| all_sent: "worker_step dp db s (go (after_queue q) (pool s) s)"
    if "where_at s = At_send q []"
| executors: "worker_step dp db s (go At_latch (logged es (scheduled now (0 < queued s \<or> 0 < n) (pool s))) s)"
    if "where_at s = At_executors"
      and "run_pumps clock dp (ready (worker (pool s))) db (session (pool s)) = (Value n, es)"

text \<open>The worker's steps and the threads' in any order.\<close>

inductive stepped_run :: "string option \<Rightarrow> pg_db \<Rightarrow> stepped \<Rightarrow> bool" for dp db where
  begun: "stepped_run dp db (stepped_start n now)"
    if "n \<le> HTTP_THREADS"
| worked: "stepped_run dp db s'"
    if "stepped_run dp db s" and "worker_step dp db s s'"
| threaded: "stepped_run dp db (s\<lparr>pool := p'\<rparr>)"
    if "stepped_run dp db s" and "thread_step (pool s) p'"

section \<open>Lemmas\<close>

inductive_cases worker_stepE: "worker_step dp db s s'"

lemmas pool_updates = go_def logged_def receive_def raise_flags_def send_job_def set_ready_def scheduled_def

lemma pool_updates_open [simp]:
  "pool_open (logged es p) = pool_open p" "pool_open (raise_flags lost p) = pool_open p"
  "pool_open (set_ready b p) = pool_open p" "pool_open (scheduled now w p) = pool_open p"
  "pool_open (receive r rest p) = pool_open p" "pool_open (send_job j p) = pool_open p"
  by (simp_all add: pool_updates pool_open_def)

lemma pool_updates_outstanding [simp]:
  "outstanding (logged es p) = outstanding p" "outstanding (raise_flags lost p) = outstanding p"
  "outstanding (set_ready b p) = outstanding p" "outstanding (scheduled now w p) = outstanding p"
  by (simp_all add: pool_updates outstanding_def thread_keys_def)

lemma outstanding_receive: "res_chan p = r # rest \<Longrightarrow> outstanding p = add_mset (res_key r) (outstanding (receive r rest p))"
  by (simp add: pool_updates outstanding_def thread_keys_def)

lemma outstanding_send: "outstanding (send_job j p) = add_mset (job_key j) (outstanding p)"
  by (simp add: pool_updates outstanding_def thread_keys_def)

lemma schedule_keeps [simp]:
  "in_flight (schedule now w st) = in_flight st" "cancels (schedule now w st) = cancels st"
  by (simp_all add: schedule_def)

lemma claim_queue_within:
  assumes "claims_within_limit db" "n \<le> capacity" "0 < n" "claim_queue dp q n db h = (Value claimed, es)"
  shows "length (claimed_calls claimed) \<le> n"
proof (cases "get_array claimed ''calls''")
  case (Some calls)
  have n: "as_i32 (int n) = int n"
    using assms(2) by (intro as_i32_small) (auto simp: capacity_def HTTP_THREADS_def)
  have other: "length calls \<le> n" if "claim_jobs dp Q ''calls'' (int n) db h = (Value claimed, es)" "Q \<in> set claim_queries" for Q
    using claim_jobs_within [OF assms(1) that(2) _ that(1) Some] assms(3) by simp
  note defs = claim_queue_def claim_oauth_jobs_def claim_agent_embedding_jobs_def claim_provider_probe_jobs_def
  have "length calls \<le> n"
  proof (cases q)
    case Outbound
    with assms(4) dispatch_within [OF assms(1-3) _ Some] show ?thesis by (simp add: claim_queue_def)
  next
    case Oauth
    show ?thesis using assms(4) n by (intro other) (auto simp: Oauth defs claim_queries_def)
  next
    case AgentEmbedding
    show ?thesis using assms(4) n by (intro other) (auto simp: AgentEmbedding defs claim_queries_def)
  next
    case ProviderProbe
    show ?thesis using assms(4) n by (intro other) (auto simp: ProviderProbe defs claim_queries_def)
  qed
  with Some show ?thesis by (simp add: claimed_calls_def)
qed (simp add: claimed_calls_def)

lemma pool_ok_logged [simp]: "pool_ok (logged es p) = pool_ok p"
  by (simp add: pool_ok_def) (simp add: pool_updates)

lemma pool_ok_updates [simp, intro]:
  "pool_ok p \<Longrightarrow> pool_ok (raise_flags lost p)" "pool_ok p \<Longrightarrow> pool_ok (set_ready b p)"
  "pool_ok p \<Longrightarrow> pool_ok (scheduled now w p)"
  by (simp_all add: pool_ok_def) (simp_all add: pool_updates cancel_flag)

lemma pool_ok_receive:
  assumes "pool_ok p" "res_chan p = r # rest"
  shows "pool_ok (receive r rest p)"
proof -
  note out = outstanding_receive [OF assms(2)]
  have "in_flight (worker (receive r rest p)) = in_flight (worker p) - 1" "threads (receive r rest p) = threads p"
    "sent_calls (receive r rest p) = sent_calls p" "received_calls (receive r rest p) = received_calls p @ [res_key r]"
    "cancels (worker (receive r rest p)) = cancels (worker p)"
    by (simp_all add: receive_def)
  with assms(1) out show ?thesis by (simp add: pool_ok_def)
qed

lemma pool_ok_send:
  assumes "pool_ok p"
  shows "pool_ok (send_job j p)"
proof -
  have "in_flight (worker (send_job j p)) = in_flight (worker p) + 1" "threads (send_job j p) = threads p"
    "sent_calls (send_job j p) = sent_calls p @ [job_key j]" "received_calls (send_job j p) = received_calls p"
    "cancels (worker (send_job j p)) = cancels (worker p)"
    by (simp_all add: send_job_def)
  with assms outstanding_send [of j p] show ?thesis by (simp add: pool_ok_def)
qed

lemma worker_step_ok: "worker_step dp db s s' \<Longrightarrow> pool_ok (pool s) \<Longrightarrow> pool_ok (pool s')"
  by (erule worker_stepE) (auto simp: go_def intro: pool_ok_receive pool_ok_send)

lemma stepped_run_ok: "stepped_run dp db s \<Longrightarrow> pool_ok (pool s)"
proof (induction rule: stepped_run.induct)
  case (begun n now)
  show ?case by (simp add: stepped_start_def pool_ok_spawned)
next
  case (threaded s p')
  then show ?case using pool_ok_thread by simp
qed (rule worker_step_ok)

text \<open>The capacity, for claim functions that keep to their limit: what is being sent still fits.\<close>

definition within_capacity :: "stepped \<Rightarrow> bool" where
  "within_capacity s \<longleftrightarrow> in_flight (worker (pool s)) \<le> capacity \<and>
     (case where_at s of At_send q calls \<Rightarrow> in_flight (worker (pool s)) + length calls \<le> capacity | _ \<Rightarrow> True)"

lemma worker_step_within:
  assumes "claims_within_limit db" "worker_step dp db s s'" "within_capacity s"
  shows "within_capacity s'"
  using assms(2)
proof cases
  case (claim q claimed es)
  from claim_queue_within [OF assms(1) _ _ claim(5)] claim(1,2,4) assms(3) show ?thesis
    by (simp add: within_capacity_def go_def) (simp add: logged_def)
next
  case (no_claim q)
  with assms(3) show ?thesis by (cases q) (simp_all add: within_capacity_def go_def)
next
  case (closed q call calls i)
  with assms(3) show ?thesis by (cases q) (simp_all add: within_capacity_def go_def)
next
  case (all_sent q)
  with assms(3) show ?thesis by (cases q) (simp_all add: within_capacity_def go_def)
qed (use assms(3) in \<open>simp_all add: within_capacity_def pool_updates\<close>)

lemma stepped_run_within:
  assumes "claims_within_limit db" "stepped_run dp db s"
  shows "within_capacity s"
  using assms(2)
proof induction
  case (begun n now)
  show ?case by (simp add: within_capacity_def stepped_start_def spawn_http_pool_def runtime_start_def)
next
  case (threaded s p')
  then show ?case
    using thread_step_keeps(3) [OF threaded(2)] by (simp add: within_capacity_def split: worker_pc.splits)
qed (rule worker_step_within [OF assms(1)])

subsection \<open>Whose flag is up\<close>

text \<open>Every running thread watches the registered flag of its own call, and the flag is up exactly if the call has
  been reported.\<close>

definition watches :: "pool_sys \<Rightarrow> string set \<Rightarrow> outbound_job \<Rightarrow> nat \<Rightarrow> bool" where
  "watches p lost j cell \<longleftrightarrow> registry (cancels (worker p)) (job_call_id j) = Some cell
     \<and> (cells (cancels (worker p)) cell \<longleftrightarrow> job_call_id j \<in> lost)"

text \<open>The calls a thread has received but not yet registered, and those it has registered.\<close>

definition fresh_ids :: "pool_sys \<Rightarrow> string set" where
  "fresh_ids p = job_call_id ` set (job_chan p) \<union> {job_call_id j |j. Received j \<in> set (threads p)}"

definition registered_ids :: "pool_sys \<Rightarrow> string set" where
  "registered_ids p = {job_call_id j |j cell. Requesting j cell \<in> set (threads p)}"

definition flags_exact :: "pool_sys \<Rightarrow> string set \<Rightarrow> bool" where
  "flags_exact p lost \<longleftrightarrow>
     (\<forall>j cell. Requesting j cell \<in> set (threads p) \<longrightarrow> watches p lost j cell)
     \<and> dom (registry (cancels (worker p))) \<subseteq> registered_ids p
     \<and> lost \<inter> fresh_ids p = {} \<and> lost \<subseteq> fst ` set (sent_calls p)"

lemma flags_exact_cong:
  assumes "threads p' = threads p" "cancels (worker p') = cancels (worker p)" "job_chan p' = job_chan p"
    "sent_calls p' = sent_calls p"
  shows "flags_exact p' lost = flags_exact p lost"
  using assms by (simp add: flags_exact_def watches_def fresh_ids_def registered_ids_def)

lemma flags_exact_updates [simp]:
  "flags_exact (logged es p) lost = flags_exact p lost" "flags_exact (receive r rest p) lost = flags_exact p lost"
  "flags_exact (set_ready b p) lost = flags_exact p lost" "flags_exact (scheduled now w p) lost = flags_exact p lost"
  by (intro flags_exact_cong; simp add: pool_updates)+

lemma registry_ok_pool: "pool_ok p \<Longrightarrow> registry_ok (cancels (worker p))"
  by (simp add: pool_ok_def registry_ok_reachable)

text \<open>What is on the other threads, seen from one of them.\<close>

lemma set_update_thread:
  assumes "i < length (threads p)"
  shows "set ((threads p)[i := t]) = insert t {threads p ! k |k. k < length (threads p) \<and> k \<noteq> i}"
  using assms by (auto simp: in_set_conv_nth nth_list_update) metis+

lemma set_threads:
  assumes "i < length (threads p)"
  shows "set (threads p) = insert (threads p ! i) {threads p ! k |k. k < length (threads p) \<and> k \<noteq> i}"
  using set_update_thread [OF assms, of "threads p ! i"] by simp

lemma other_ids_differ:
  assumes "distinct (thread_ids p)" "i < length (threads p)" "thread_key (threads p ! i) = Some a"
    and "t \<in> {threads p ! k |k. k < length (threads p) \<and> k \<noteq> i}" "thread_key t = Some b"
  shows "fst a \<noteq> fst b"
  using assms other_thread_differs [OF assms(1,2)] by blast

lemma flags_exact_receive_job:
  assumes "i < length (threads p)" "threads p ! i = Waiting" "job_chan p = j # rest" "flags_exact p lost"
  shows "flags_exact (receive_job i j rest p) lost"
proof -
  let ?p = "receive_job i j rest p" and ?O = "{threads p ! k |k. k < length (threads p) \<and> k \<noteq> i}"
  have t: "set (threads ?p) = insert (Received j) ?O" "set (threads p) = insert Waiting ?O"
    using set_update_thread [OF assms(1)] set_threads [OF assms(1)] assms(2) by (simp_all add: receive_job_def)
  have "fresh_ids ?p = fresh_ids p" using assms(3) by (auto simp: fresh_ids_def t) (auto simp: receive_job_def)
  moreover have "registered_ids ?p = registered_ids p" by (simp add: registered_ids_def t)
  ultimately show ?thesis using assms(4) unfolding flags_exact_def watches_def t by (simp add: receive_job_def)
qed

lemma flags_exact_register_job:
  assumes "pool_ok p" "distinct (map fst (sent_calls p))" "i < length (threads p)" "threads p ! i = Received j"
    and "flags_exact p lost"
  shows "flags_exact (register_job i j p) lost"
proof -
  let ?p = "register_job i j p" and ?O = "{threads p ! k |k. k < length (threads p) \<and> k \<noteq> i}"
  let ?cell = "next_cell (cancels (worker p))"
  have ids: "distinct (thread_ids p)" using sent_once_distinct [OF assms(1,2)] by simp
  have below: "registry (cancels (worker p)) k = Some c \<Longrightarrow> c < ?cell" for k c
    using registry_ok_pool [OF assms(1)] by (auto simp: registry_ok_def)
  have t: "set (threads ?p) = insert (Requesting j ?cell) ?O" "set (threads p) = insert (Received j) ?O"
    using set_update_thread [OF assms(3)] set_threads [OF assms(3)] assms(4)
    by (simp_all add: register_job_def register_def)
  have cs: "cancels (worker ?p) = snd (register (job_call_id j) (cancels (worker p)))" "job_chan ?p = job_chan p"
    "sent_calls ?p = sent_calls p"
    by (simp_all add: register_job_def split_beta)
  have "job_call_id j \<notin> lost" using assms(5) by (auto simp: flags_exact_def fresh_ids_def t)
  then have new: "watches ?p lost j ?cell" by (simp add: watches_def cs register_def)
  have old: "watches ?p lost j' c" if "Requesting j' c \<in> ?O" for j' c
  proof -
    have "job_call_id j \<noteq> job_call_id j'"
      using other_ids_differ [OF ids assms(3) _ that, of "job_key j" "job_key j'"] by (simp add: assms(4) job_key_def)
    moreover have "watches p lost j' c" using that assms(5) by (simp add: flags_exact_def t)
    ultimately show ?thesis using below by (fastforce simp: watches_def cs register_def)
  qed
  have "registered_ids ?p = insert (job_call_id j) (registered_ids p)" by (auto simp: registered_ids_def t)
  moreover have "dom (registry (cancels (worker ?p))) = insert (job_call_id j) (dom (registry (cancels (worker p))))"
    by (simp add: cs register_def)
  moreover have "dom (registry (cancels (worker p))) \<subseteq> registered_ids p" using assms(5) by (simp add: flags_exact_def)
  ultimately have "dom (registry (cancels (worker ?p))) \<subseteq> registered_ids ?p" by blast
  moreover have "fresh_ids ?p \<subseteq> fresh_ids p" by (auto simp: fresh_ids_def t cs)
  ultimately show ?thesis using new old assms(5) by (auto simp: flags_exact_def t cs)
qed

text \<open>The end of a request, by returning or by a panic: the guard is dropped, the thread no longer watches.\<close>

lemma flags_exact_unregister:
  assumes "pool_ok p" "distinct (map fst (sent_calls p))" "i < length (threads p)" "threads p ! i = Requesting j cell"
    and "flags_exact p lost" and "\<And>j' c'. t \<noteq> Requesting j' c'" and "\<And>j'. t \<noteq> Received j'"
    and "threads p' = (threads p)[i := t]" and "cancels (worker p') = drop_guard (job_call_id j) (cancels (worker p))"
    and "job_chan p' = job_chan p" and "sent_calls p' = sent_calls p"
  shows "flags_exact p' lost"
proof -
  let ?O = "{threads p ! k |k. k < length (threads p) \<and> k \<noteq> i}"
  have ids: "distinct (thread_ids p)" using sent_once_distinct [OF assms(1,2)] by simp
  have t: "set (threads p') = insert t ?O" "set (threads p) = insert (Requesting j cell) ?O"
    using set_update_thread [OF assms(3)] set_threads [OF assms(3)] assms(4,8) by simp_all
  note cs = assms(9-11) and other = assms(6,7)
  have "watches p' lost j' c'" if "Requesting j' c' \<in> set (threads p')" for j' c'
  proof -
    from that other(1) [of j' c'] have that: "Requesting j' c' \<in> ?O" by (auto simp: t)
    have "job_call_id j \<noteq> job_call_id j'"
      using other_ids_differ [OF ids assms(3) _ that, of "job_key j" "job_key j'"] by (simp add: assms(4) job_key_def)
    moreover have "watches p lost j' c'" using that assms(5) by (simp add: flags_exact_def t)
    ultimately show ?thesis by (simp add: watches_def cs drop_guard_def)
  qed
  moreover have "dom (registry (cancels (worker p'))) \<subseteq> registered_ids p'"
  proof -
    have "dom (registry (cancels (worker p'))) \<subseteq> dom (registry (cancels (worker p))) - {job_call_id j}"
      by (auto simp: cs drop_guard_def split: if_splits)
    moreover have "registered_ids p \<subseteq> insert (job_call_id j) (registered_ids p')" by (auto simp: registered_ids_def t)
    moreover have "dom (registry (cancels (worker p))) \<subseteq> registered_ids p" using assms(5) by (simp add: flags_exact_def)
    ultimately show ?thesis by blast
  qed
  moreover have "fresh_ids p' = fresh_ids p" using other(2) by (auto simp: fresh_ids_def t cs)
  ultimately show ?thesis using assms(5) by (simp add: flags_exact_def cs)
qed

lemma flags_exact_ends:
  assumes "pool_ok p" "distinct (map fst (sent_calls p))" "i < length (threads p)" "threads p ! i = Requesting j cell"
    and "flags_exact p lost"
  shows "flags_exact (return_job c i j cell p) lost" "flags_exact (panic_job i j p) lost"
proof -
  obtain r where "threads (return_job c i j cell p) = (threads p)[i := Answering r]"
    by (simp add: return_job_def split_beta)
  then show "flags_exact (return_job c i j cell p) lost"
    by (intro flags_exact_unregister [OF assms, of "Answering r"]) (simp_all add: return_job_def split_beta)
  show "flags_exact (panic_job i j p) lost"
    by (rule flags_exact_unregister [OF assms, of "Died j"]) (simp_all add: panic_job_def)
qed

lemma flags_exact_send_result:
  assumes "i < length (threads p)" "threads p ! i = Answering r" "flags_exact p lost"
  shows "flags_exact (send_result i r p) lost"
proof -
  let ?p = "send_result i r p" and ?O = "{threads p ! k |k. k < length (threads p) \<and> k \<noteq> i}"
  have t: "set (threads ?p) = insert Waiting ?O" "set (threads p) = insert (Answering r) ?O"
    using set_update_thread [OF assms(1)] set_threads [OF assms(1)] assms(2) by (simp_all add: send_result_def)
  have "fresh_ids ?p = fresh_ids p" "registered_ids ?p = registered_ids p"
    by (simp_all add: fresh_ids_def registered_ids_def t) (simp add: send_result_def)
  then show ?thesis using assms(3) unfolding flags_exact_def watches_def t by (simp add: send_result_def)
qed

lemma flags_exact_thread:
  assumes "thread_step p p'" "pool_ok p" "distinct (map fst (sent_calls p))" "flags_exact p lost"
  shows "flags_exact p' lost"
  using assms
  by (auto elim!: thread_stepE simp: flags_exact_receive_job flags_exact_register_job flags_exact_ends
      flags_exact_send_result)

lemma registered_thread_ids: "registered_ids p \<subseteq> set (thread_ids p)"
proof
  fix x assume "x \<in> registered_ids p"
  then obtain i j cell where "i < length (threads p)" "threads p ! i = Requesting j cell" "x = job_call_id j"
    by (auto simp: registered_ids_def in_set_conv_nth)
  with thread_id_in [of i p "job_key j"] show "x \<in> set (thread_ids p)" by (simp add: job_key_def)
qed

lemma registered_not_fresh:
  assumes "pool_ok p" "distinct (map fst (sent_calls p))"
  shows "registered_ids p \<inter> fresh_ids p = {}"
proof -
  have ids: "distinct (map job_call_id (job_chan p) @ thread_ids p)" by (rule sent_once_distinct [OF assms])
  have "job_call_id j \<noteq> job_call_id j'"
    if rj: "Requesting j c \<in> set (threads p)" and rj': "Received j' \<in> set (threads p)" for j c j'
  proof -
    from rj obtain i where i: "i < length (threads p)" "threads p ! i = Requesting j c" by (auto simp: in_set_conv_nth)
    moreover from rj' obtain k where k: "k < length (threads p)" "threads p ! k = Received j'" by (auto simp: in_set_conv_nth)
    ultimately have "i \<noteq> k" by auto
    with other_thread_differs [of p i k "job_key j" "job_key j'"] i k ids show ?thesis by (simp add: job_key_def)
  qed
  then have "registered_ids p \<inter> {job_call_id j |j. Received j \<in> set (threads p)} = {}"
    by (auto simp: registered_ids_def)
  moreover have "set (thread_ids p) \<inter> job_call_id ` set (job_chan p) = {}" using ids by auto
  ultimately show ?thesis using registered_thread_ids [of p] by (auto simp: fresh_ids_def)
qed

lemma flags_exact_raise:
  assumes "pool_ok p" "distinct (map fst (sent_calls p))" "flags_exact p lost"
  shows "flags_exact (raise_flags new p) (lost \<union> (set new \<inter> dom (registry (cancels (worker p)))))"
proof -
  let ?p = "raise_flags new p" and ?lost = "lost \<union> (set new \<inter> dom (registry (cancels (worker p))))"
  have inj: "i = k" if "registry (cancels (worker p)) i = Some c" "registry (cancels (worker p)) k = Some c" for i k c
    using registry_ok_pool [OF assms(1)] that unfolding registry_ok_def by blast
  have cs: "cancels (worker ?p) = flag_lost new (cancels (worker p))" "threads ?p = threads p" "job_chan ?p = job_chan p"
    "sent_calls ?p = sent_calls p" "fresh_ids ?p = fresh_ids p" "registered_ids ?p = registered_ids p"
    by (simp_all add: raise_flags_def flag_lost_def fresh_ids_def registered_ids_def)
  have old: "lost \<inter> fresh_ids p = {}" "lost \<subseteq> fst ` set (sent_calls p)"
    and reg: "dom (registry (cancels (worker p))) \<subseteq> registered_ids p"
    using assms(3) by (simp_all add: flags_exact_def)
  have up: "watches ?p ?lost j c" if "watches p lost j c" for j c
    using that inj [of _ c "job_call_id j"] by (auto simp: watches_def cs flag_lost_eq)
  have apart: "(l \<union> (n \<inter> d)) \<inter> c = {}" if "l \<inter> c = {}" "d \<subseteq> r" "r \<inter> c = {}" for l n d c r :: "string set"
    using that by blast
  have within: "l \<union> (n \<inter> d) \<subseteq> b" if "l \<subseteq> b" "d \<subseteq> r" "r \<subseteq> b" for l n d r b :: "string set"
    using that by blast
  have "registered_ids p \<subseteq> fst ` set (sent_calls p)"
    using registered_thread_ids thread_ids_sent [OF assms(1)] by blast
  note apart [OF old(1) reg registered_not_fresh [OF assms(1,2)]] within [OF old(2) reg this]
  with up reg assms(3) show ?thesis by (simp add: flags_exact_def cs flag_lost_eq)
qed

lemma flags_exact_send:
  assumes "distinct (map fst (sent_calls (send_job j p)))" "flags_exact p lost"
  shows "flags_exact (send_job j p) lost"
  using assms by (auto simp: flags_exact_def watches_def fresh_ids_def registered_ids_def send_job_def job_key_def)

lemma stepped_sent_prefix: "worker_step dp db s s' \<Longrightarrow> \<exists>xs. sent_calls (pool s') = sent_calls (pool s) @ xs"
  by (erule worker_stepE) (auto simp: pool_updates)

lemma stepped_run_flags:
  assumes "stepped_run dp db s" "distinct (map fst (sent_calls (pool s)))"
  shows "flags_exact (pool s) (reported s)"
  using assms
proof induction
  case (worked s s')
  have once: "distinct (map fst (sent_calls (pool s)))"
    using stepped_sent_prefix [OF worked(2)] worked.prems by auto
  have ok: "pool_ok (pool s)" using stepped_run_ok [OF worked(1)] .
  from worked.IH [OF once] have exact: "flags_exact (pool s) (reported s)" .
  from worked(2) show ?case
  proof cases
    case (raised lost)
    with flags_exact_raise [OF ok once exact, of lost] show ?thesis by (simp add: go_def)
  next
    case (send q call calls i)
    with flags_exact_send [OF _ exact] worked.prems show ?thesis by (simp add: go_def)
  qed (use exact in \<open>simp_all add: go_def\<close>)
next
  case (threaded s p')
  have once: "distinct (map fst (sent_calls (pool s)))" using threaded.prems thread_step_keeps(1) [OF threaded(2)] by simp
  have "pool_ok (pool s)" using stepped_run_ok [OF threaded(1)] .
  with flags_exact_thread [OF threaded(2)] once threaded.IH [OF once] show ?case by simp
qed (simp add: stepped_start_def spawn_http_pool_def flags_exact_def registered_ids_def runtime_start_def no_flags_def)

subsection \<open>Whole turns\<close>

definition with_jobs :: "outbound_job list \<Rightarrow> pool_sys \<Rightarrow> pool_sys" where
  "with_jobs js p =
     p\<lparr>job_chan := job_chan p @ js, worker := (worker p)\<lparr>in_flight := in_flight (worker p) + length js\<rparr>,
       sent_calls := sent_calls p @ map job_key js\<rparr>"

definition with_results :: "outbound_result list \<Rightarrow> pool_sys \<Rightarrow> pool_sys" where
  "with_results rs p =
     p\<lparr>res_chan := [], worker := (worker p)\<lparr>in_flight := in_flight (worker p) - length rs\<rparr>,
       received_calls := received_calls p @ map res_key rs\<rparr>"

lemma with_results_open [simp]: "pool_open (with_results rs p) = pool_open p"
  by (simp add: with_results_def pool_open_def)

lemma logged_logged [simp]: "logged es' (logged es p) = logged (es @ es') p" "session (logged es p) = session p @ es"
  "logged [] p = p"
  by (simp_all add: logged_def)

lemma go_go [simp]: "go l p (go l' p' s) = go l p s" "pool (go l p s) = p" "where_at (go l p s) = l"
  "queued (go l p s) = queued s" "reported (go l p s) = reported s"
  by (simp_all add: go_def)

lemma harvest_steps:
  assumes "stepped_run dp db s" "where_at s = At_results" "res_chan (pool s) = rs"
    and "harvest dp rs busy db (session (pool s)) = (Value n, es)"
  shows "stepped_run dp db (go At_flags (logged es (with_results rs (pool s))) s)"
  using assms
proof (induction rs arbitrary: s busy es)
  case Nil
  then have "with_results [] (pool s) = pool s" "es = []" by (simp_all add: with_results_def)
  with stepped_run.worked [OF Nil(1) worker_step.drained [OF Nil(2,3)]] show ?case by simp
next
  case (Cons r rs)
  from Cons.prems(4) obtain e1 e2 where
    e: "submit_result dp r db (session (pool s)) = (Value (), e1)"
      "harvest dp rs (busy - 1) db (session (pool s) @ e1) = (Value n, e2)" "es = e1 @ e2"
    by (auto simp: bind_Value_iff)
  let ?s = "go At_results (logged e1 (receive r rs (pool s))) s"
  have "stepped_run dp db ?s"
    by (rule stepped_run.worked [OF Cons.prems(1) worker_step.result [OF Cons.prems(2,3) e(1)]])
  moreover have "res_chan (pool ?s) = rs" "session (pool ?s) = session (pool s) @ e1"
    by (simp_all add: logged_def receive_def)
  ultimately have "stepped_run dp db (go At_flags (logged e2 (with_results rs (pool ?s))) ?s)"
    using e(2) by (intro Cons.IH [where busy = "busy - 1"]) simp_all
  moreover have "logged e2 (with_results rs (pool ?s)) = logged es (with_results (r # rs) (pool s))"
    by (simp add: e(3) logged_def receive_def with_results_def)
  ultimately show ?case by simp
qed

lemma send_steps:
  assumes "stepped_run dp db s" "where_at s = At_send q calls" "alive = pool_open (pool s)"
  shows "stepped_run dp db ((go (after_queue q) (with_jobs (enqueue alive q (queue_kind q) calls) (pool s)) s)
    \<lparr>queued := queued s + length (enqueue alive q (queue_kind q) calls)\<rparr>)"
  using assms
proof (induction calls arbitrary: s)
  case Nil
  then show ?case using stepped_run.worked [OF Nil(1) worker_step.all_sent [OF Nil(2)]]
    by (simp add: with_jobs_def go_def)
next
  case (Cons call calls)
  show ?case
  proof (cases "sendable call")
    case None
    from Cons.IH [OF stepped_run.worked [OF Cons.prems(1) worker_step.pass_over [OF Cons.prems(2) None]]] None Cons.prems(3)
    show ?thesis by (auto simp: sendable_def split: option.splits if_splits)
  next
    case (Some i)
    then have i: "get_str call ''call_id'' = Some i" "valid_uuid i" by (auto simp: sendable_def split: option.splits if_splits)
    let ?j = "\<lparr>job_call_id = i, job_queue = q, job_call = tag_kind (queue_kind q) call\<rparr>"
    show ?thesis
    proof (cases alive)
      case True
      then have "pool_open (pool s)" using Cons.prems(3) by simp
      from Cons.IH [OF stepped_run.worked [OF Cons.prems(1) worker_step.send [OF Cons.prems(2) Some this]]]
      show ?thesis using i Cons.prems(3) True by (simp add: with_jobs_def send_job_def go_def pool_open_def)
    next
      case False
      then have "\<not> pool_open (pool s)" using Cons.prems(3) by simp
      from stepped_run.worked [OF Cons.prems(1) worker_step.closed [OF Cons.prems(2) Some this]]
      show ?thesis using i False by (simp add: with_jobs_def go_def)
    qed
  qed
qed

lemma with_jobs_simps [simp]:
  "with_jobs js' (logged es p) = logged es (with_jobs js' p)" "with_jobs js' (with_jobs js p) = with_jobs (js @ js') p"
  "session (with_jobs js p) = session p" "ready (worker (with_jobs js p)) = ready (worker p)"
  "in_flight (worker (with_jobs js p)) = in_flight (worker p) + length js" "worker (logged es p) = worker p"
  "with_jobs [] p = p" "pool_open (with_jobs js p) = pool_open p"
  by (simp_all add: with_jobs_def logged_def pool_open_def)

text \<open>The state after a stage that sent \<open>new\<close>.\<close>

definition staged :: "worker_pc \<Rightarrow> pg_event list \<Rightarrow> outbound_job list \<Rightarrow> stepped \<Rightarrow> stepped" where
  "staged l es new s = (go l (logged es (with_jobs new (pool s))) s)\<lparr>queued := queued s + length new\<rparr>"

lemma staged_simps [simp]:
  "pool (staged l es new s) = logged es (with_jobs new (pool s))" "where_at (staged l es new s) = l"
  "queued (staged l es new s) = queued s + length new" "reported (staged l es new s) = reported s"
  "staged l' es' new' (staged l es new s) = staged l' (es @ es') (new @ new') s"
  by (simp_all add: staged_def go_def)

lemma stage_steps:
  assumes "stepped_run dp db s" "where_at s = At_claim q" "in_flight (worker (pool s)) = busy + length sent"
    and "alive = pool_open (pool s)" and "claim_stage (claim_queue dp q) alive q (queue_kind q) (ready (worker (pool s))) sent busy db (session (pool s)) =
      (Value jobs, es)"
  shows "\<exists>new. jobs = sent @ new \<and> stepped_run dp db (staged (after_queue q) es new s)"
proof (cases "ready (worker (pool s)) \<and> busy + length sent < capacity")
  case True
  from assms(5) True obtain claimed where
    c: "claim_queue dp q (capacity - in_flight (worker (pool s))) db (session (pool s)) = (Value claimed, es)"
    and j: "jobs = (case get_array claimed ''calls'' of None \<Rightarrow> sent
      | Some calls \<Rightarrow> sent @ enqueue alive q (queue_kind q) calls)"
    by (auto simp: claim_stage_def bind_Value_iff assms(3))
  let ?s = "go (At_send q (claimed_calls claimed)) (logged es (pool s)) s"
  have "stepped_run dp db ?s"
    using True c assms(3) by (intro stepped_run.worked [OF assms(1) worker_step.claim [OF assms(2)]]) simp_all
  from send_steps [OF this, of q "claimed_calls claimed" alive] assms(4)
  have "stepped_run dp db (staged (after_queue q) es (enqueue alive q (queue_kind q) (claimed_calls claimed)) s)"
    by (simp add: staged_def go_def)
  moreover have "jobs = sent @ enqueue alive q (queue_kind q) (claimed_calls claimed)"
    using j by (simp add: claimed_calls_def split: option.splits)
  ultimately show ?thesis by blast
next
  case False
  then have "jobs = sent" "es = []" using assms(5) by (auto simp: claim_stage_def)
  moreover have "stepped_run dp db (staged (after_queue q) [] [] s)"
    using stepped_run.worked [OF assms(1) worker_step.no_claim [OF assms(2)]] False assms(3)
    by (simp add: staged_def go_def)
  ultimately show ?thesis by blast
qed

lemma stages_steps:
  assumes "stepped_run dp db s" "where_at s = At_claim Outbound" "in_flight (worker (pool s)) = busy" "alive = pool_open (pool s)"
    and "claim_stages dp alive (ready (worker (pool s))) busy db (session (pool s)) = (Value jobs, es)"
  shows "stepped_run dp db (staged At_executors es jobs s)"
proof -
  have q: "dispatch_and_claim dp = claim_queue dp Outbound" "None = queue_kind Outbound"
    "(\<lambda>n. claim_oauth_jobs dp (as_i32 (int n))) = claim_queue dp Oauth" "Some ''oauth'' = queue_kind Oauth"
    "(\<lambda>n. claim_agent_embedding_jobs dp (as_i32 (int n))) = claim_queue dp AgentEmbedding"
    "Some ''embedding'' = queue_kind AgentEmbedding"
    "(\<lambda>n. claim_provider_probe_jobs dp (as_i32 (int n))) = claim_queue dp ProviderProbe"
    "Some ''function'' = queue_kind ProviderProbe"
    by (simp_all add: claim_queue_def queue_kind_def fun_eq_iff)
  from assms(5) obtain j1 j2 j3 e1 e2 e3 e4 where
    s1: "claim_stage (claim_queue dp Outbound) alive Outbound (queue_kind Outbound) (ready (worker (pool s))) [] busy db
      (session (pool s)) = (Value j1, e1)" and
    s2: "claim_stage (claim_queue dp Oauth) alive Oauth (queue_kind Oauth) (ready (worker (pool s))) j1 busy db
      (session (pool s) @ e1) = (Value j2, e2)" and
    s3: "claim_stage (claim_queue dp AgentEmbedding) alive AgentEmbedding (queue_kind AgentEmbedding)
      (ready (worker (pool s))) j2 busy db (session (pool s) @ e1 @ e2) = (Value j3, e3)" and
    s4: "claim_stage (claim_queue dp ProviderProbe) alive ProviderProbe (queue_kind ProviderProbe)
      (ready (worker (pool s))) j3 busy db (session (pool s) @ e1 @ e2 @ e3) = (Value jobs, e4)" and
    es: "es = e1 @ e2 @ e3 @ e4"
    unfolding claim_stages_def q bind_Value_iff append_assoc by blast
  from stage_steps [OF assms(1,2) _ assms(4) s1] assms(3) have r1: "stepped_run dp db (staged (At_claim Oauth) e1 j1 s)" by auto
  from stage_steps [OF r1, of Oauth busy j1 alive j2 e2] s2 assms(3,4) obtain n2 where
    r2: "j2 = j1 @ n2" "stepped_run dp db (staged (At_claim AgentEmbedding) (e1 @ e2) j2 s)" by auto
  from stage_steps [OF r2(2), of AgentEmbedding busy j2 alive j3 e3] s3 assms(3,4) obtain n3 where
    r3: "j3 = j2 @ n3" "stepped_run dp db (staged (At_claim ProviderProbe) (e1 @ e2 @ e3) j3 s)" by auto
  from stage_steps [OF r3(2), of ProviderProbe busy j3 alive jobs e4] s4 assms(3,4) es show ?thesis by auto
qed

lemma executor_steps:
  assumes "stepped_run dp db s" "where_at s = At_pump" "pool_alive env = pool_open (pool s)"
    and "pump_phase dp env (worker (pool s)) db (session (pool s)) = (Value (st', jobs), es)"
  shows "\<exists>s'. stepped_run dp db s' \<and> where_at s' = At_latch \<and>
    pool s' = (logged es (with_jobs jobs (pool s)))\<lparr>worker := st'\<rparr>"
proof (cases "pump_time env < next_pump (worker (pool s))")
  case True
  then have "st' = worker (pool s)" "jobs = []" "es = []" using assms(4) by (simp_all add: pump_phase_def)
  with stepped_run.worked [OF assms(1) worker_step.early [OF assms(2) True]] show ?thesis
    by (intro exI [of _ "go At_latch (pool s) s"]) simp
next
  case False
  with assms(4) obtain b pumped e1 e2 e3 where
    e1: "extension_is_installed db (session (pool s)) = (Value b, e1)" and
    e2: "claim_stages dp (pool_alive env) b (in_flight (worker (pool s))) db (session (pool s) @ e1) = (Value jobs, e2)" and
    e3: "run_pumps (wall_clock env) dp b db (session (pool s) @ e1 @ e2) = (Value pumped, e3)" and
    st': "st' = end_turn (schedule_time env) b jobs pumped (worker (pool s))" and es: "es = e1 @ e2 @ e3"
    by (auto simp: pump_phase_def bind_Value_iff)
  let ?s1 = "(go (At_claim Outbound) (logged e1 (set_ready b (pool s))) s)\<lparr>queued := 0\<rparr>"
  have "stepped_run dp db ?s1"
    using False by (intro stepped_run.worked [OF assms(1) worker_step.due [where now = "pump_time env", OF assms(2) _ e1]]) simp
  from stages_steps [OF this, of "in_flight (worker (pool s))" "pool_alive env" jobs e2] e2 assms(3)
  have r2: "stepped_run dp db (staged At_executors e2 jobs ?s1)" by simp (simp add: set_ready_def)
  let ?s3 = "go At_latch (logged e3 (scheduled (schedule_time env) (0 < length jobs \<or> 0 < pumped)
      (pool (staged At_executors e2 jobs ?s1)))) (staged At_executors e2 jobs ?s1)"
  have "worker_step dp db (staged At_executors e2 jobs ?s1) ?s3"
    using worker_step.executors [of "staged At_executors e2 jobs ?s1" "wall_clock env" dp db pumped e3 "schedule_time env"] e3
    by (simp add: set_ready_def)
  with r2 have "stepped_run dp db ?s3" by (rule stepped_run.worked)
  moreover have "pool ?s3 = (logged es (with_jobs jobs (pool s)))\<lparr>worker := st'\<rparr>"
    by (simp add: es st' end_turn_def set_ready_def scheduled_def with_jobs_def logged_def)
  ultimately show ?thesis by (intro exI [of _ ?s3]) simp
qed

lemma turn_steps:
  assumes "stepped_run dp db s" "where_at s = At_latch" "finished env = res_chan (pool s)"
    and "pool_alive env = pool_open (pool s)"
    and "set (cancel_ids env) = dom (registry (cancels (worker (pool s))))"
    and "tick dp env (worker (pool s)) db (session (pool s)) = (Value (st', jobs), es)"
  shows "\<exists>s'. stepped_run dp db s' \<and> where_at s' = At_latch \<and> pool s' = end_tick st' jobs es (pool s)"
proof -
  let ?p = "pool s" and ?rs = "res_chan (pool s)"
  from assms(6) obtain replies busy lost e1 e2 e3 e4 where
    e1: "accept_rpc (json_io env) dp (ready (worker ?p)) (rpc_inputs env) (accept_error env) db (session ?p) = (Value replies, e1)"
    and e2: "harvest dp ?rs (in_flight (worker ?p)) db (session ?p @ e1) = (Value busy, e2)"
    and e3: "ask_lost dp (cancel_ids env) db (session ?p @ e1 @ e2) = (Value lost, e3)"
    and e4: "pump_phase dp env ((worker ?p)\<lparr>in_flight := busy,
      cancels := (if lost = [] then cancels (worker ?p) else flag_lost lost (cancels (worker ?p)))\<rparr>) db
      (session ?p @ e1 @ e2 @ e3) = (Value (st', jobs), e4)" and es: "es = e1 @ e2 @ e3 @ e4"
    unfolding tick_def propagate_outbound_cancellations_def bind_Value_iff append_assoc assms(3) by auto
  have busy: "busy = in_flight (worker ?p) - length ?rs" by (rule harvest_count [OF e2])
  let ?s1 = "go At_results (logged e1 ?p) s"
  have r1: "stepped_run dp db ?s1" by (rule stepped_run.worked [OF assms(1) worker_step.accept [OF assms(2) e1]])
  have rs: "res_chan (pool ?s1) = ?rs" by (simp add: logged_def)
  let ?p2 = "logged (e1 @ e2) (with_results ?rs ?p)"
  have "logged e2 (with_results ?rs (pool ?s1)) = ?p2" by (simp add: logged_def with_results_def)
  with harvest_steps [OF r1 _ rs, of "in_flight (worker ?p)" busy e2] e2
  have r2: "stepped_run dp db (go At_flags ?p2 s)" by simp
  have cs: "cancels (worker ?p2) = cancels (worker ?p)" by (simp add: with_results_def)
  have "worker_step dp db (go At_flags ?p2 s) (go (At_ask (cancel_ids env)) ?p2 s)"
    using worker_step.listed [of "go At_flags ?p2 s" "cancel_ids env" dp db] assms(5) cs by simp
  with r2 have r3: "stepped_run dp db (go (At_ask (cancel_ids env)) ?p2 s)" by (rule stepped_run.worked)
  have "worker_step dp db (go (At_ask (cancel_ids env)) ?p2 s) (go (At_raise lost) (logged e3 ?p2) s)"
    using worker_step.asked [of "go (At_ask (cancel_ids env)) ?p2 s" "cancel_ids env" dp db lost e3] e3
    by (simp add: with_results_def)
  with r3 have r4: "stepped_run dp db (go (At_raise lost) (logged e3 ?p2) s)" by (rule stepped_run.worked)
  let ?s5 = "(go At_pump (raise_flags lost (logged e3 ?p2)) s)
      \<lparr>reported := reported s \<union> (set lost \<inter> dom (registry (cancels (worker (logged e3 ?p2)))))\<rparr>"
  have "stepped_run dp db ?s5"
    using stepped_run.worked [OF r4 worker_step.raised [of _ lost]] by simp
  moreover have "worker (pool ?s5) = (worker ?p)\<lparr>in_flight := busy,
      cancels := (if lost = [] then cancels (worker ?p) else flag_lost lost (cancels (worker ?p)))\<rparr>"
    "session (pool ?s5) = session ?p @ e1 @ e2 @ e3"
    by (simp_all add: raise_flags_def with_results_def busy)
  ultimately obtain s' where s': "stepped_run dp db s'" "where_at s' = At_latch"
    "pool s' = (logged e4 (with_jobs jobs (pool ?s5)))\<lparr>worker := st'\<rparr>"
    using executor_steps [of dp db ?s5 env st' jobs e4] e4 assms(4) by auto
  moreover have "pool s' = end_tick st' jobs es ?p"
    by (simp add: s'(3) end_tick_def es logged_def with_jobs_def raise_flags_def with_results_def)
  ultimately show ?thesis by blast
qed

lemma pool_run_stepped:
  assumes "pool_run dp db p"
  shows "\<exists>s. stepped_run dp db s \<and> where_at s = At_latch \<and> pool s = p"
  using assms
proof induction
  case (spawned n now)
  then show ?case using stepped_run.begun [of n dp db now]
    by (intro exI [of _ "stepped_start n now"]) (simp add: stepped_start_def)
next
  case (threaded p p')
  then obtain s where "stepped_run dp db s" "where_at s = At_latch" "pool s = p" by blast
  with threaded(2) stepped_run.threaded [of dp db s p'] show ?case by (intro exI [of _ "s\<lparr>pool := p'\<rparr>"]) simp
next
  case (turned p env st' jobs es)
  then obtain s where "stepped_run dp db s" "where_at s = At_latch" "pool s = p" by blast
  with turned(2-5) turn_steps [of dp db s env st' jobs es] show ?case by simp
qed

text \<open>A run in which the operator stops the one running call.\<close>

lemma sample_stopped:
  "\<exists>s j cell. stepped_run None outbound_db s \<and> 0 < length (threads (pool s)) \<and> threads (pool s) ! 0 = Requesting j cell
     \<and> sent_calls (pool s) = [job_key j] \<and> job_call_id j = sample_uuid \<and> sample_uuid \<in> reported s
     \<and> outstanding (pool s) = {#job_key j#} \<and> where_at s = At_pump"
proof -
  obtain p j cell where p: "pool_run None outbound_db p" "0 < length (threads p)" "threads p ! 0 = Requesting j cell"
    "outstanding p = {#job_key j#}" "sent_calls p = [job_key j]" "job_call_id j = sample_uuid"
    "registry (cancels (worker p)) = [sample_uuid \<mapsto> cell]" "res_chan p = []"
    using one_call_running by blast
  obtain s where s: "stepped_run None outbound_db s" "where_at s = At_latch" "pool s = p"
    using pool_run_stepped [OF p(1)] by blast
  have "accept_rpc (json_io idle_env) None b [] None outbound_db h = (Value [], [])" for b h
    by (simp add: accept_rpc_def pg_bind_def)
  from stepped_run.worked [OF s(1) worker_step.accept [OF s(2) this]]
  have "stepped_run None outbound_db (go At_results p s)" by (simp add: s(3))
  from stepped_run.worked [OF this worker_step.drained]
  have "stepped_run None outbound_db (go At_flags p s)" by (simp add: p(8))
  from stepped_run.worked [OF this worker_step.listed [where ids = "[sample_uuid]"]]
  have r: "stepped_run None outbound_db (go (At_ask [sample_uuid]) p s)" by (simp add: p(7))
  obtain es where "ask_lost None [sample_uuid] outbound_db (session p) = (Value [sample_uuid], es)"
    by (simp add: ask_lost_def transaction_eq pg_bind_def drop_privileges_def spi_def outbound_db_def willing_db_def
        assume_worker_role_def check_lost_sql_def installed_sql_def as_array_def as_str_def map_filter_ops Let_def)
  with stepped_run.worked [OF r worker_step.asked [where ids = "[sample_uuid]" and lost = "[sample_uuid]"]]
  have "stepped_run None outbound_db (go (At_raise [sample_uuid]) (logged es p) s)" by simp
  from stepped_run.worked [OF this worker_step.raised [where lost = "[sample_uuid]"]]
  have up: "stepped_run None outbound_db ((go At_pump (raise_flags [sample_uuid] (logged es p)) s)
      \<lparr>reported := insert sample_uuid (reported s)\<rparr>)" (is "stepped_run _ _ ?s") by (simp add: p(7))
  have "threads (pool ?s) = threads p" "sent_calls (pool ?s) = sent_calls p" by (simp_all add: raise_flags_def logged_def)
  with up p show ?thesis by (intro exI [of _ ?s] exI [of _ j] exI [of _ cell]) simp
qed

lemma pool_run_ok:
  assumes "pool_run dp db p"
  shows "pool_ok p"
  using pool_run_stepped [OF assms] stepped_run_ok by blast

section \<open>Properties\<close>

text \<open>C18: the worker's turn as a whole is one way its steps can go. Every state that the worker and its pool reach by whole
  turns, with threads moving only in between, is also reached step by step, with the worker back at its
  latch: what is proved of all interleavings holds of the turn function too.\<close>

theorem turns_are_interleavings:
  assumes "pool_run dp db p"
  shows "\<exists>s. stepped_run dp db s \<and> where_at s = At_latch \<and> pool s = p"
  using assms by (rule pool_run_stepped)

theorem turns_are_interleavings_witness:
  "\<exists>s. stepped_run None outbound_db s \<and> where_at s = At_latch \<and> size (outstanding (pool s)) = 1"
proof -
  obtain p job where "pool_run None outbound_db p" "outstanding p = {#job_key job#}" using one_call_running by blast
  with turns_are_interleavings [of None outbound_db p] show ?thesis by (metis size_single)
qed

text \<open>C16: no outbound call is lost in the worker or answered twice, and the pool is never overrun, at any moment of any
  interleaving. Whatever the threads do between any two steps of the worker, also while it is harvesting, asking,
  claiming or sending, every call sent to the pool is in exactly one place: waiting in the channel, on a thread (one
  that died keeps it), finished and waiting to be received, or received back by the worker under its own identifier
  and queue. The worker's count of calls in flight is exactly the number of those not yet received. If the claim
  functions, asked for at least one call, return no more than they were asked for, it never exceeds twice the number
  of threads.\<close>

theorem interleaved_calls_conserved:
  assumes "stepped_run dp db s"
  shows "mset (sent_calls (pool s)) = mset (received_calls (pool s)) + outstanding (pool s)
    \<and> in_flight (worker (pool s)) = size (outstanding (pool s))
    \<and> (claims_within_limit db \<longrightarrow> in_flight (worker (pool s)) \<le> 2 * HTTP_THREADS)"
  using stepped_run_ok [OF assms] stepped_run_within [OF _ assms] by (auto simp: pool_ok_def within_capacity_def capacity_def)

theorem interleaved_calls_conserved_witness:
  "\<exists>s. stepped_run None outbound_db s \<and> where_at s = At_pump \<and> in_flight (worker (pool s)) = 1
     \<and> in_flight (worker (pool s)) \<le> 2 * HTTP_THREADS"
proof -
  obtain s j where s: "stepped_run None outbound_db s" "where_at s = At_pump" "outstanding (pool s) = {#job_key j#}"
    using sample_stopped by blast
  with interleaved_calls_conserved [OF s(1)] outbound_db_within show ?thesis by auto
qed

text \<open>C17: the stop button reaches the right request and no other, at any moment of any interleaving. If no call is
  handed out twice, the flag that a running thread watches is up exactly if the database has reported this
  thread's own call as lost while it ran, even when other calls start and finish between the worker's look at
  the registry, its question and the raising of the flags. Once it is up, every read and write on every
  connection the thread's connector made is refused at once as cancelled by the operator.\<close>

theorem interleaved_cancel_exact:
  assumes "stepped_run dp db s" and "distinct (map fst (sent_calls (pool s)))"
    and "i < length (threads (pool s))" and "threads (pool s) ! i = Requesting j cell"
    and "connect con d = Inr (Some tr)" and "connector_cancel con = cell"
    and "cells_at 0 = cells (cancels (worker (pool s)))" and "start + after \<le> INSTANT_MAX"
  shows "(cells (cancels (worker (pool s))) cell \<longleftrightarrow> job_call_id j \<in> reported s)
    \<and> (job_call_id j \<in> reported s \<longrightarrow>
         await_input (transport_env cells_at clk reading tr) start after = Some (Waited (Inl Cancelled_by_operator) [])
         \<and> transmit_output (transport_env cells_at clk writing tr) start after = Some (Waited (Inl Cancelled_by_operator) []))"
proof -
  have "cells (cancels (worker (pool s))) cell \<longleftrightarrow> job_call_id j \<in> reported s"
    using stepped_run_flags [OF assms(1,2)] assms(3,4) nth_mem [OF assms(3)] by (simp add: flags_exact_def watches_def)
  moreover note raised_stops_transport [OF assms(5) _ assms(8), of cells_at]
  ultimately show ?thesis by (simp add: assms(6,7))
qed

theorem interleaved_cancel_exact_witness:
  "\<exists>s j cell. stepped_run None outbound_db s \<and> threads (pool s) ! 0 = Requesting j cell
     \<and> cells (cancels (worker (pool s))) cell
     \<and> await_input (transport_env (\<lambda>_. cells (cancels (worker (pool s)))) (\<lambda>_. 0) (\<lambda>_ _ _. Inr True)
           \<lparr>transport_inner = ''tcp'', transport_cancel = cell\<rparr>)
         0 1000 = Some (Waited (Inl Cancelled_by_operator) [])"
proof -
  obtain s j cell where s: "stepped_run None outbound_db s" "0 < length (threads (pool s))"
    "threads (pool s) ! 0 = Requesting j cell" and sent: "sent_calls (pool s) = [job_key j]"
    and lost: "job_call_id j = sample_uuid" "sample_uuid \<in> reported s"
    using sample_stopped by blast
  have once: "distinct (map fst (sent_calls (pool s)))" by (simp add: sent)
  let ?con = "\<lparr>connector_inner = (\<lambda>_::nat. Inr (Some ''tcp'')), connector_cancel = cell\<rparr>"
  let ?cells = "\<lambda>_::nat. cells (cancels (worker (pool s)))"
  have con: "connect ?con 0 = Inr (Some \<lparr>transport_inner = ''tcp'', transport_cancel = cell\<rparr>)"
    by (simp add: connect_def)
  note exact = interleaved_cancel_exact [OF s(1) once s(2,3) con, of ?cells 0 1000
      "\<lambda>_. 0" "\<lambda>_ _ _. Inr True" "\<lambda>_ _ _. Inr ()"]
  from exact lost s show ?thesis by (intro exI [of _ s] exI [of _ j] exI [of _ cell]) (simp add: INSTANT_MAX_def)
qed

subsection \<open>The same of whole turns\<close>

text \<open>Between turns, every call sent to the pool is waiting, on a thread, finished or received, and \<open>in_flight\<close>
  counts those not yet received.\<close>

theorem pool_conserves_calls:
  assumes "pool_run dp db s"
  shows "mset (sent_calls s) = mset (received_calls s) + outstanding s \<and> in_flight (worker s) = size (outstanding s)"
  using pool_run_ok [OF assms] by (simp add: pool_ok_def)

text \<open>After a whole turn in which the database reports the lost calls, the flag a running thread watches is up exactly
  if it was up before or its own call was reported.\<close>

theorem cancel_reaches_thread:
  assumes "pool_run dp db s" and "distinct (map fst (sent_calls s))"
    and "i < length (threads s)" and "threads s ! i = Requesting j cell"
    and "set (cancel_ids env) = dom (registry (cancels (worker s)))" and "reports_lost db (cancel_ids env) lost"
    and "tick dp env (worker s) db (session s) = (Value (st', jobs), es)"
    and "flag_at r 0 = cells (cancels st') cell" and "flag_at w 0 = cells (cancels st') cell"
    and "start + after \<le> INSTANT_MAX"
  shows "(cells (cancels st') cell \<longleftrightarrow> cells (cancels (worker s)) cell \<or> job_call_id j \<in> set lost)
    \<and> (job_call_id j \<in> set lost \<longrightarrow>
         await_input r start after = Some (Waited (Inl Cancelled_by_operator) [])
         \<and> transmit_output w start after = Some (Waited (Inl Cancelled_by_operator) []))"
proof -
  obtain t where t: "stepped_run dp db t" "pool t = s" using pool_run_stepped [OF assms(1)] by blast
  with stepped_run_flags [OF t(1)] assms(2) have "flags_exact s (reported t)" by simp
  then have own: "registry (cancels (worker s)) (job_call_id j) = Some cell"
    using nth_mem [OF assms(3)] assms(4) by (simp add: flags_exact_def watches_def)
  then have "cancel_ids env \<noteq> []" using assms(5) by auto
  then have st': "cancels st' = flag_lost lost (cancels (worker s))"
    using tick_flags_lost assms(6,7) by blast
  have "registry_ok (cancels (worker s))"
    using pool_run_ok [OF assms(1)] registry_ok_reachable by (simp add: pool_ok_def)
  with own have "(\<exists>k \<in> set lost. registry (cancels (worker s)) k = Some cell) \<longleftrightarrow> job_call_id j \<in> set lost"
    unfolding registry_ok_def by blast
  then have flag: "cells (cancels st') cell \<longleftrightarrow> cells (cancels (worker s)) cell \<or> job_call_id j \<in> set lost"
    by (simp add: st' flag_lost_eq)
  moreover have "await_input r start after = Some (Waited (Inl Cancelled_by_operator) [])"
    "transmit_output w start after = Some (Waited (Inl Cancelled_by_operator) [])" if "cells (cancels st') cell"
    using flag_stops_reads flag_stops_writes that assms(8-10) by simp_all
  ultimately show ?thesis using flag by blast
qed

theorem cancel_reaches_thread_witness:
  "\<exists>s j cell env st' jobs es. pool_run None outbound_db s \<and> threads s ! 0 = Requesting j cell
     \<and> \<not> cells (cancels (worker s)) cell
     \<and> tick None env (worker s) outbound_db (session s) = (Value (st', jobs), es) \<and> cells (cancels st') cell
     \<and> await_input \<lparr>flag_at = (\<lambda>_. cells (cancels st') cell), clock_at = (\<lambda>_. 0), inner = (\<lambda>_ _. Inr True)\<rparr> 0 1000
         = Some (Waited (Inl Cancelled_by_operator) [])"
proof -
  obtain s job cell where s: "pool_run None outbound_db s" "0 < length (threads s)" "threads s ! 0 = Requesting job cell"
    and sent: "sent_calls s = [job_key job]" and job: "job_call_id job = sample_uuid" and early: "0 < next_pump (worker s)"
    and reg: "registry (cancels (worker s)) = [sample_uuid \<mapsto> cell]" and down: "\<not> cells (cancels (worker s)) cell"
    using one_call_running by blast
  let ?env = "idle_env\<lparr>cancel_ids := [sample_uuid]\<rparr>"
  have once: "distinct (map fst (sent_calls s))" by (simp add: sent)
  have ids: "set (cancel_ids ?env) = dom (registry (cancels (worker s)))" by (simp add: reg)
  have lost: "reports_lost outbound_db (cancel_ids ?env) [sample_uuid]"
    by (simp add: reports_lost_def outbound_db_def willing_db_def assume_worker_role_def check_lost_sql_def installed_sql_def)
  obtain st' jobs es where t: "tick None ?env (worker s) outbound_db (session s) = (Value (st', jobs), es)"
    using early
    by (simp add: tick_def accept_rpc_def pump_phase_def pg_bind_def propagate_outbound_cancellations_def ask_lost_def idle_env_def
        transaction_eq drop_privileges_def spi_def outbound_db_def willing_db_def assume_worker_role_def
        check_lost_sql_def installed_sql_def Let_def)
  let ?wait = "\<lambda>r. \<lparr>flag_at = (\<lambda>_. cells (cancels st') cell), clock_at = (\<lambda>_. 0), inner = (\<lambda>_ _. Inr r)\<rparr>"
  note reached = cancel_reaches_thread [OF s(1) once s(2,3) ids lost t, of "?wait True" "?wait ()" 0 1000]
  have up: "cells (cancels st') cell" using reached job by (simp add: INSTANT_MAX_def)
  have "await_input (?wait True) 0 1000 = Some (Waited (Inl Cancelled_by_operator) [])"
    using reached job by (simp add: INSTANT_MAX_def up)
  with s t down up show ?thesis by blast
qed


end
