(* ===== verification/Pool_Faults.thy ===== *)
theory Pool_Faults
  imports Pool_Steps
begin

text \<open>
  What a panic inside \<open>perform_http\<close> costs. The thread that made the request is gone, no result is sent, and the worker
  is not told. Built on the interleaved steps of \<open>Pool_Steps\<close>: what can follow a state in which a thread has died, and
  in which none is left.
\<close>

section \<open>Definitions\<close>

text \<open>What can follow a state.\<close>

inductive stepped_later :: "string option \<Rightarrow> pg_db \<Rightarrow> stepped \<Rightarrow> stepped \<Rightarrow> bool" for dp db s where
  now: "stepped_later dp db s s"
| then_worked: "stepped_later dp db s s''"
    if "stepped_later dp db s s'" and "worker_step dp db s' s''"
| then_threaded: "stepped_later dp db s (s'\<lparr>pool := p'\<rparr>)"
    if "stepped_later dp db s s'" and "thread_step (pool s') p'"

section \<open>Lemmas\<close>

subsection \<open>Threads that died\<close>

lemma stepped_later_run: "stepped_later dp db s s' \<Longrightarrow> stepped_run dp db s \<Longrightarrow> stepped_run dp db s'"
  by (induction rule: stepped_later.induct) (auto intro: stepped_run.intros)

lemma worker_step_threads: "worker_step dp db s s' \<Longrightarrow> threads (pool s') = threads (pool s)"
  by (erule worker_stepE) (simp_all add: pool_updates)

lemma thread_step_dead:
  assumes "thread_step p p'" "i < length (threads p)" "threads p ! i = Died j"
  shows "threads p' ! i = Died j"
  using assms by (auto elim!: thread_stepE simp: thread_updates split_beta nth_list_update)

lemma stepped_later_dead:
  assumes "stepped_later dp db s s'" "i < length (threads (pool s))" "threads (pool s) ! i = Died j"
  shows "i < length (threads (pool s')) \<and> threads (pool s') ! i = Died j"
  using assms
  by (induction rule: stepped_later.induct) (auto simp: worker_step_threads thread_step_dead thread_step_keeps(4))

lemma dead_have_keys: "length (filter dead ts) \<le> length (List.map_filter thread_key ts)"
proof (induction ts)
  case (Cons t ts)
  then show ?case by (cases t) (simp_all add: map_filter_ops)
qed (simp add: map_filter_ops)

lemma dead_in_flight: "pool_ok p \<Longrightarrow> length (filter dead (threads p)) \<le> in_flight (worker p)"
  using dead_have_keys [of "threads p"] by (simp add: pool_ok_def outstanding_def thread_keys_def)

lemma dead_outstanding:
  assumes "i < length (threads p)" "threads p ! i = Died j"
  shows "job_key j \<in># outstanding p"
proof -
  have "Died j \<in> set (threads p)" using assms by (metis nth_mem)
  then have "job_key j \<in> set (thread_keys p)" by (force simp: thread_keys_def List.map_filter_def)
  then show ?thesis by (simp add: outstanding_def)
qed

lemma outstanding_not_received:
  assumes "pool_ok p" "distinct (map fst (sent_calls p))" "k \<in># outstanding p"
  shows "fst k \<notin> fst ` set (received_calls p)"
proof
  assume "fst k \<in> fst ` set (received_calls p)"
  then have "{#fst k#} \<subseteq># mset (map fst (received_calls p))" by (metis image_set mset_subset_eq_single set_mset_mset)
  moreover have "{#fst k#} \<subseteq># image_mset fst (outstanding p)" using assms(3) by (metis image_eqI mset_subset_eq_single set_image_mset)
  moreover have "mset (map fst (sent_calls p)) = mset (map fst (received_calls p)) + image_mset fst (outstanding p)"
    using assms(1) by (simp add: pool_ok_def)
  ultimately have "{#fst k, fst k#} \<subseteq># mset (map fst (sent_calls p))" by (metis add_mset_add_single subset_mset.add_mono)
  then have "2 \<le> count (mset (map fst (sent_calls p))) (fst k)" by (metis count_add_mset count_empty mset_subset_eq_count one_add_one plus_1_eq_Suc One_nat_def)
  moreover have "count (mset (map fst (sent_calls p))) (fst k) \<le> 1"
    using assms(2) distinct_count_atmost_1 [of "map fst (sent_calls p)"] by simp
  ultimately show False by simp
qed

text \<open>When the last thread is gone, the channel stays closed.\<close>

lemma closed_thread_step:
  assumes "thread_step p p'" "\<not> pool_open p"
  shows False
proof -
  have "dead (threads p ! i)" if "i < length (threads p)" for i
    using assms(2) nth_mem [OF that] by (auto simp: pool_open_def list_ex_iff)
  with assms(1) show False by (elim thread_stepE) fastforce+
qed

lemma closed_worker_step:
  "worker_step dp db s s' \<Longrightarrow> \<not> pool_open (pool s) \<Longrightarrow> sent_calls (pool s') = sent_calls (pool s) \<and> \<not> pool_open (pool s')"
  by (erule worker_stepE) (auto simp: go_def, auto simp: pool_updates)

lemma closed_later:
  assumes "stepped_later dp db s s'" "\<not> pool_open (pool s)"
  shows "sent_calls (pool s') = sent_calls (pool s) \<and> \<not> pool_open (pool s')"
  using assms by (induction rule: stepped_later.induct) (auto dest: closed_worker_step closed_thread_step)

lemma closed_sends_nothing:
  assumes "stepped_later dp db s s'" "where_at s' = At_send q calls" "\<not> pool_open (pool s')"
  shows "stepped_later dp db s (go (after_queue q) (pool s') s')"
  using assms
proof (induction calls arbitrary: s')
  case Nil
  then show ?case using stepped_later.then_worked worker_step.all_sent by blast
next
  case (Cons call calls)
  show ?case
  proof (cases "sendable call")
    case None
    from Cons.IH [OF stepped_later.then_worked [OF Cons.prems(1) worker_step.pass_over [OF Cons.prems(2) None]]] Cons.prems(3)
    show ?thesis by simp
  next
    case (Some i)
    from stepped_later.then_worked [OF Cons.prems(1) worker_step.closed [OF Cons.prems(2) Some Cons.prems(3)]] show ?thesis .
  qed
qed

text \<open>A run in which the thread of the one running call panics, and one in which no thread could be started.\<close>

lemma sample_panicked:
  "\<exists>s j. stepped_run None outbound_db s \<and> 0 < length (threads (pool s)) \<and> threads (pool s) ! 0 = Died j
     \<and> sent_calls (pool s) = [job_key j]"
proof -
  obtain s j cell where s: "stepped_run None outbound_db s" "0 < length (threads (pool s))"
    "threads (pool s) ! 0 = Requesting j cell" "sent_calls (pool s) = [job_key j]"
    using sample_stopped by blast
  from stepped_run.threaded [OF s(1) thread_step.dies [OF s(2,3)]] s(2,4) show ?thesis
    by (intro exI [of _ "s\<lparr>pool := panic_job 0 j (pool s)\<rparr>"] exI [of _ j]) (simp add: panic_job_def)
qed

lemma sample_no_threads:
  "\<exists>s. stepped_run None outbound_db s \<and> where_at s = At_claim Outbound \<and> ready (worker (pool s)) \<and> in_flight (worker (pool s)) = 0
     \<and> threads (pool s) = [] \<and> sent_calls (pool s) = []"
proof -
  let ?p = "spawn_http_pool 0 0" and ?s = "stepped_start 0 0"
  have p: "pool ?s = ?p" "where_at ?s = At_latch" by (simp_all add: stepped_start_def)
  have q: "res_chan ?p = []" "registry (cancels (worker ?p)) = Map.empty" "next_pump (worker ?p) = 0"
    by (simp_all add: spawn_http_pool_def runtime_start_def no_flags_def)
  have "accept_rpc (json_io idle_env) None b [] None outbound_db h = (Value [], [])" for b h
    by (simp add: accept_rpc_def pg_bind_def)
  from stepped_run.worked [OF stepped_run.begun worker_step.accept [OF p(2) this]]
  have "stepped_run None outbound_db (go At_results ?p ?s)" by (simp add: p)
  from stepped_run.worked [OF this worker_step.drained]
  have "stepped_run None outbound_db (go At_flags ?p ?s)" by (simp add: q)
  from stepped_run.worked [OF this worker_step.listed [where ids = "[]"]]
  have "stepped_run None outbound_db (go (At_ask []) ?p ?s)" by (simp add: q)
  from stepped_run.worked [OF this worker_step.asked [where ids = "[]" and lost = "[]" and es = "[]"]]
  have "stepped_run None outbound_db (go (At_raise []) ?p ?s)" by (simp add: ask_lost_def)
  from stepped_run.worked [OF this worker_step.raised [where lost = "[]"]]
  have at: "stepped_run None outbound_db (go At_pump ?p ?s)" by (simp add: raise_flags_def go_def stepped_start_def)
  obtain e0 where e0: "extension_is_installed outbound_db (session ?p) = (Value True, e0)"
    using gives_at [OF outbound_db_installed] by blast
  let ?s' = "(go (At_claim Outbound) (logged e0 (set_ready True ?p)) ?s)\<lparr>queued := 0\<rparr>"
  from stepped_run.worked [OF at worker_step.due [where now = 0 and b = True and es = e0]] e0
  have "stepped_run None outbound_db ?s'" by (simp add: q)
  then show ?thesis
    by (intro exI [of _ ?s']) (simp add: logged_def set_ready_def spawn_http_pool_def runtime_start_def)
qed

section \<open>Properties\<close>

text \<open>C39: a call whose thread panics is never answered. In every state that can follow, as long as no identifier has been
  sent to the pool twice, the thread is dead, the worker has not received the call's result (so has not submitted one),
  the call's cancellation flag is gone, and every dead thread holds one of the worker's places in flight.\<close>

theorem panicked_call_never_answered:
  assumes "stepped_run dp db s"
    and "i < length (threads (pool s))" and "threads (pool s) ! i = Died j"
    and "stepped_later dp db s s'" and "distinct (map fst (sent_calls (pool s')))"
  shows "threads (pool s') ! i = Died j \<and> job_call_id j \<notin> fst ` set (received_calls (pool s'))
    \<and> registry (cancels (worker (pool s'))) (job_call_id j) = None
    \<and> length (filter dead (threads (pool s'))) \<le> in_flight (worker (pool s'))"
proof -
  have run: "stepped_run dp db s'" by (rule stepped_later_run [OF assms(4,1)])
  then have ok: "pool_ok (pool s')" by (rule stepped_run_ok)
  from stepped_later_dead [OF assms(4,2,3)] have d: "i < length (threads (pool s'))" "threads (pool s') ! i = Died j" by auto
  have "job_call_id j \<notin> fst ` set (received_calls (pool s'))"
    using outstanding_not_received [OF ok assms(5) dead_outstanding [OF d]] by (simp add: job_key_def)
  moreover have "job_call_id j \<notin> registered_ids (pool s')"
  proof
    assume "job_call_id j \<in> registered_ids (pool s')"
    then obtain k j' cell where "k < length (threads (pool s'))" "threads (pool s') ! k = Requesting j' cell"
      "job_call_id j = job_call_id j'" by (auto simp: registered_ids_def in_set_conv_nth)
    with other_thread_differs [of "pool s'" i k "job_key j" "job_key j'"] d sent_once_distinct [OF ok assms(5)] show False
      by (cases "i = k") (auto simp: job_key_def)
  qed
  then have "registry (cancels (worker (pool s'))) (job_call_id j) = None"
    using stepped_run_flags [OF run assms(5)] unfolding flags_exact_def by blast
  ultimately show ?thesis using d dead_in_flight [OF ok] by blast
qed

theorem panicked_call_never_answered_witness:
  "\<exists>s j. stepped_run None outbound_db s \<and> threads (pool s) ! 0 = Died j \<and> job_call_id j \<notin> fst ` set (received_calls (pool s))
     \<and> 1 \<le> in_flight (worker (pool s))"
proof -
  obtain s j where s: "stepped_run None outbound_db s" "0 < length (threads (pool s))" "threads (pool s) ! 0 = Died j"
    "sent_calls (pool s) = [job_key j]" using sample_panicked by blast
  have "distinct (map fst (sent_calls (pool s)))" by (simp add: s(4))
  note never = panicked_call_never_answered [OF s(1-3) stepped_later.now this]
  have "Died j \<in> set (threads (pool s))" using s(2,3) by (metis nth_mem)
  then have "0 < length (filter dead (threads (pool s)))" by (force simp: filter_empty_conv)
  with never s show ?thesis by (intro exI [of _ s] exI [of _ j]) linarith
qed

text \<open>C38: without threads the worker takes calls it cannot make. If no thread could be started, or the last one has died,
  the channel is closed for good and no call is ever sent again; but the worker is not told. Whenever it has a place
  free in flight when it comes to a queue, it still asks the database for calls, and drops whatever it is handed.\<close>

theorem closed_pool_swallows_claims:
  assumes "stepped_run dp db s" and "\<not> pool_open (pool s)"
    and "where_at s = At_claim q" and "ready (worker (pool s))" and "in_flight (worker (pool s)) < capacity"
    and "claim_queue dp q (capacity - in_flight (worker (pool s))) db (session (pool s)) = (Value claimed, es)"
  shows "stepped_later dp db s (go (after_queue q) (logged es (pool s)) s)
    \<and> (\<forall>s'. stepped_later dp db s s' \<longrightarrow> sent_calls (pool s') = sent_calls (pool s))"
proof -
  have "stepped_later dp db s (go (At_send q (claimed_calls claimed)) (logged es (pool s)) s)"
    by (rule stepped_later.then_worked [OF stepped_later.now worker_step.claim [OF assms(3-6)]])
  from closed_sends_nothing [OF this] assms(2) closed_later [of dp db s] show ?thesis by simp
qed

theorem closed_pool_swallows_claims_witness:
  "\<exists>s es. stepped_run None outbound_db s \<and> stepped_later None outbound_db s (go (At_claim Oauth) (logged es (pool s)) s)
     \<and> dispatch_and_claim None 8 outbound_db (session (pool s)) = (Value one_outbound_call, es)"
proof -
  obtain s where s: "stepped_run None outbound_db s" "where_at s = At_claim Outbound" "ready (worker (pool s))"
    "in_flight (worker (pool s)) = 0" "threads (pool s) = []" using sample_no_threads by blast
  obtain es where es: "dispatch_and_claim None 8 outbound_db (session (pool s)) = (Value one_outbound_call, es)"
    using gives_at [OF outbound_db_dispatch] by blast
  have "claim_queue None Outbound (capacity - in_flight (worker (pool s))) outbound_db (session (pool s)) = (Value one_outbound_call, es)"
    using es s(4) by (simp add: claim_queue_def capacity_def HTTP_THREADS_def)
  with closed_pool_swallows_claims [OF s(1) _ s(2,3)] s es show ?thesis
    by (intro exI [of _ s] exI [of _ es]) (simp add: pool_open_def capacity_def HTTP_THREADS_def)
qed

end
