(* ===== verification/Oauth_Exchange.thy ===== *)
theory Oauth_Exchange
  imports Outbound Web_Server
begin

text \<open>
  An OAuth token request from the claimed row to the endpoint: the form \<open>perform_http\<close> builds of the row's body
  (\<open>outbound.rs\<close>), the text a form client makes of it, and the reader the mock endpoint uses
  (\<open>http_protocol.rs\<close>, \<open>web.rs\<close>). The client's encoder is not part of the repository; the locale \<open>form_encoder\<close>
  states what the reader relies on.
\<close>

section \<open>Form text\<close>

text \<open>Names and values encoded, joined with \<open>=\<close> and \<open>&\<close>.\<close>

definition form_text :: "(string \<Rightarrow> string) \<Rightarrow> (string \<times> string) list \<Rightarrow> string" where
  "form_text enc kvs = join_amp (map (\<lambda>(k, v). enc k @ CHR ''='' # enc v) kvs)"

locale form_encoder =
  fixes enc :: "string \<Rightarrow> string"
  assumes decodes: "form_decode_loop (enc s) = s"
    and reserved: "CHR ''&'' \<notin> set (enc s)" "CHR ''='' \<notin> set (enc s)"
begin

lemma decode_enc: "utf8_valid s \<Longrightarrow> form_decode (enc s) = s"
  by (simp add: form_decode_def decodes from_utf8_lossy_id)

lemma fields_of_text:
  "List.map_filter (split_once ''='') (split_str ''&'' (form_text enc kvs)) = map (\<lambda>(k, v). (enc k, enc v)) kvs"
proof (cases "kvs = []")
  case True
  then show ?thesis by (simp add: form_text_def split_str_single List.map_filter_simps split_once_def)
next
  case False
  then have "split_str ''&'' (form_text enc kvs) = map (\<lambda>(k, v). enc k @ CHR ''='' # enc v) kvs"
    unfolding form_text_def by (intro split_join_amp) (auto simp: list_all_iff reserved)
  moreover have "List.map_filter (split_once ''='') (map (\<lambda>(k, v). enc k @ CHR ''='' # enc v) kvs) =
      map (\<lambda>(k, v). (enc k, enc v)) kvs"
    by (induction kvs) (auto simp: List.map_filter_simps split_once_char reserved)
  ultimately show ?thesis by simp
qed

lemma parse_form_text:
  assumes "list_all (\<lambda>(k, v). utf8_valid k \<and> utf8_valid v) kvs"
  shows "parse_form_body (form_text enc kvs) = map_of (rev kvs)"
proof -
  have "map (\<lambda>(k, v). (form_decode k, form_decode v)) (map (\<lambda>(k, v). (enc k, enc v)) kvs) = kvs"
    using assms by (induction kvs) (auto simp: decode_enc)
  then show ?thesis unfolding parse_form_body_def fields_of_text by simp
qed

end

text \<open>The form encoders there are: a byte is left as it is or becomes a percent sign and two digits, the reserved ones
  always; a space may become a plus sign. Which other bytes are left is up to the client.\<close>

definition form_enc :: "bool \<Rightarrow> (char \<Rightarrow> bool) \<Rightarrow> string \<Rightarrow> string" where
  "form_enc sp keep s =
     concat (map (\<lambda>c. if sp \<and> c = CHR '' '' then ''+''
       else url_encode_char (\<lambda>c. keep c \<and> c \<notin> {CHR ''%'', CHR ''+'', CHR ''&'', CHR ''=''}) c) s)"

lemma upper_hex_reserved: "n < 16 \<Longrightarrow> upper_hex n \<noteq> CHR ''&'' \<and> upper_hex n \<noteq> CHR ''=''"
  using byte_upper_hex [of n] by (auto split: if_splits)

lemma form_enc_Nil: "form_enc sp keep [] = []"
  by (simp add: form_enc_def)

lemma form_enc_Cons:
  "form_enc sp keep (c # s) =
     (if sp \<and> c = CHR '' '' then ''+''
      else if keep c \<and> c \<notin> {CHR ''%'', CHR ''+'', CHR ''&'', CHR ''=''} then [c]
      else [CHR ''%'', upper_hex (byte c div 16), upper_hex (byte c mod 16)]) @ form_enc sp keep s"
  by (simp add: form_enc_def url_encode_char_def)

lemma form_enc_reserved: "CHR ''&'' \<notin> set (form_enc sp keep s) \<and> CHR ''='' \<notin> set (form_enc sp keep s)"
proof (induction s)
  case (Cons c s)
  have "byte c div 16 < 16" "byte c mod 16 < 16" by (simp_all add: less_mult_imp_div_less)
  from upper_hex_reserved [OF this(1)] upper_hex_reserved [OF this(2)] Cons show ?case
    by (simp add: form_enc_Cons) metis
qed (simp add: form_enc_Nil)

lemma form_enc_decodes: "form_decode_loop (form_enc sp keep s) = s"
proof (induction s)
  case (Cons c s)
  then show ?case using hex_pair_upper [of "byte c"] by (auto simp: form_enc_Cons)
qed (simp add: form_enc_Nil)

interpretation fe: form_encoder "form_enc sp keep" for sp keep
  by unfold_locales (simp_all add: form_enc_decodes form_enc_reserved)

section \<open>The exchange\<close>

text \<open>The text of a request's body; only forms are read back here.\<close>

definition body_text :: "(string \<Rightarrow> string) \<Rightarrow> json_text \<Rightarrow> http_body \<Rightarrow> string" where
  "body_text enc jt b = (case b of No_body \<Rightarrow> [] | Json_body j \<Rightarrow> json_print jt j | Form_body kvs \<Rightarrow> form_text enc kvs)"

text \<open>A Rust string is valid UTF-8; so are the names and the string values of an object.\<close>

definition strings_valid :: "(string \<times> json) list \<Rightarrow> bool" where
  "strings_valid kvs = list_all (\<lambda>(k, v). utf8_valid k \<and> (case as_str v of None \<Rightarrow> True | Some s \<Rightarrow> utf8_valid s)) kvs"

definition string_members :: "(string \<times> json) list \<Rightarrow> (string \<times> string) list" where
  "string_members = List.map_filter (\<lambda>(k, v). map_option (Pair k) (as_str v))"

lemma string_members_ops:
  "string_members [] = []"
  "string_members ((k, v) # kvs) = (case as_str v of None \<Rightarrow> string_members kvs | Some s \<Rightarrow> (k, s) # string_members kvs)"
  by (simp_all add: string_members_def List.map_filter_simps split: option.split)

lemma string_members_keys: "set (map fst (string_members kvs)) \<subseteq> set (map fst kvs)"
proof (induction kvs)
  case (Cons x kvs)
  then show ?case by (cases x; cases "as_str (snd x)") (simp_all add: string_members_ops subset_insertI2)
qed (simp add: string_members_ops)

lemma string_members_distinct: "distinct (map fst kvs) \<Longrightarrow> distinct (map fst (string_members kvs))"
proof (induction kvs)
  case (Cons x kvs)
  then show ?case using string_members_keys [of kvs] by (cases x) (auto simp: string_members_ops split: option.splits)
qed (simp add: string_members_ops)

lemma string_members_get:
  "distinct (map fst kvs) \<Longrightarrow> map_of (string_members kvs) k = Option.bind (map_of kvs k) as_str"
proof (induction kvs)
  case (Cons x kvs)
  have "map_of (string_members kvs) (fst x) = None" using Cons.prems string_members_keys [of kvs] by (auto simp: map_of_eq_None_iff)
  with Cons show ?case by (cases x) (auto simp: string_members_ops split: option.splits)
qed (simp add: string_members_ops)

lemma map_of_rev_distinct: "distinct (map fst kvs) \<Longrightarrow> map_of (rev kvs) = map_of kvs"
proof (induction kvs)
  case (Cons x kvs)
  then have "map_of kvs (fst x) = None" by (simp add: map_of_eq_None_iff)
  with Cons show ?case by (cases x) (auto simp: map_add_def fun_eq_iff split: option.splits)
qed simp

lemma sorted_distinct_keys: "obj_sorted kvs \<Longrightarrow> distinct (map fst kvs)"
  by (simp add: obj_sorted_def strict_sorted_iff)

lemma strings_valid_members: "strings_valid kvs \<Longrightarrow> list_all (\<lambda>(k, v). utf8_valid k \<and> utf8_valid v) (string_members kvs)"
  by (induction kvs) (auto simp: strings_valid_def string_members_ops split: option.splits)

lemma oauth_form:
  assumes "get_str call ''kind'' = Some ''oauth''" and "json_get call ''body'' = Some (JObject kvs)"
  shows "out_body (build_request call url) = Form_body (string_members kvs)"
  using assms by (simp add: build_request_def agent_request_def as_object_def string_members_def Let_def)

definition mock_token :: "string \<Rightarrow> json" where
  "mock_token code = json_object
     [(''access_token'', JString (''allgres-mock-access-'' @ code)), (''refresh_token'', JString ''allgres-mock-refresh''),
      (''expires_in'', JInt 3600), (''token_type'', JString ''bearer'')]"

lemma mock_oauth_fields:
  assumes "mock_enabled cfg" and "parse_form_body (req_body r) = get"
  shows "mock_oauth env cfg r =
    (case get ''code'' of
       Some (c # cs) \<Rightarrow>
         if get ''client_secret'' = Some ''allgres-mock-oauth-secret''
         then [Wrote (respond_json ''200 OK'' (json_print (jtext env) (mock_token (c # cs))))]
         else [Wrote (respond_json ''401 Unauthorized'' ''{\"error\":\"invalid_client\"}'')]
     | _ \<Rightarrow> [Wrote (respond_json ''401 Unauthorized'' ''{\"error\":\"invalid_client\"}'')])"
  using assms by (simp add: mock_oauth_def mock_token_def Let_def split: option.splits list.splits)

section \<open>Property\<close>

text \<open>C22: an OAuth request carries exactly the fields of its row. Whatever the row's body holds and whichever of the
  form encodings the client uses, the endpoint's reader gets each string member of the body back under its
  name, byte for byte, and nothing else; no header of the row claims another content type. So the mock endpoint
  issues the token of the row's code exactly if the row has a non-empty code and the right secret.\<close>

theorem oauth_form_roundtrip:
  assumes "get_str call ''kind'' = Some ''oauth''" and "json_get call ''body'' = Some (JObject kvs)"
    and "obj_sorted kvs" and "strings_valid kvs" and "mock_enabled cfg"
    and "req_body r = body_text (form_enc sp keep) jt (out_body (build_request call url))"
  shows "parse_form_body (req_body r) = get_str (JObject kvs)
    \<and> list_all (\<lambda>(k, _). \<not> eq_ignore_ascii_case k ''content-type'') (out_headers (build_request call url))
    \<and> mock_oauth env cfg r =
        (case get_str (JObject kvs) ''code'' of
           Some (c # cs) \<Rightarrow>
             if get_str (JObject kvs) ''client_secret'' = Some ''allgres-mock-oauth-secret''
             then [Wrote (respond_json ''200 OK'' (json_print (jtext env) (mock_token (c # cs))))]
             else [Wrote (respond_json ''401 Unauthorized'' ''{\"error\":\"invalid_client\"}'')]
         | _ \<Rightarrow> [Wrote (respond_json ''401 Unauthorized'' ''{\"error\":\"invalid_client\"}'')])"
proof -
  note keys = sorted_distinct_keys [OF assms(3)]
  have "parse_form_body (req_body r) = map_of (rev (string_members kvs))"
    using assms(6) fe.parse_form_text [OF strings_valid_members [OF assms(4)]]
    by (simp add: body_text_def oauth_form [OF assms(1,2)])
  also have "\<dots> = get_str (JObject kvs)"
    using map_of_rev_distinct [OF string_members_distinct [OF keys]] string_members_get [OF keys]
    by (simp add: fun_eq_iff get_str_def json_get_def)
  finally have "parse_form_body (req_body r) = get_str (JObject kvs)" .
  moreover have "list_all (\<lambda>(k, _). \<not> eq_ignore_ascii_case k ''content-type'') (out_headers (build_request call url))"
    using assms(1) by (auto simp: build_request_def agent_request_def list_all_iff Let_def)
  ultimately show ?thesis using mock_oauth_fields [OF assms(5)] by blast
qed

definition sample_oauth_body :: "(string \<times> json) list" where
  "sample_oauth_body = [(''client_secret'', JString ''allgres-mock-oauth-secret''), (''code'', JString ''a b&c=d''), (''n'', JInt 1)]"

theorem oauth_form_roundtrip_witness:
  "mock_oauth sample_env (sample_config\<lparr>mock_enabled := True\<rparr>)
     \<lparr>req_method = ''POST'', req_path = ''/mock/oauth/token'', req_headers = [],
      req_body = body_text (form_enc True is_ascii_alphanumeric) (jtext sample_env) (out_body (build_request
        (json_object [(''kind'', JString ''oauth''), (''body'', JObject sample_oauth_body)]) ''http://h/mock/oauth/token''))\<rparr>
   = [Wrote (respond_json ''200 OK'' (json_print (jtext sample_env) (mock_token ''a b&c=d'')))]"
proof -
  let ?call = "json_object [(''kind'', JString ''oauth''), (''body'', JObject sample_oauth_body)]"
  let ?r = "\<lparr>req_method = ''POST'', req_path = ''/mock/oauth/token'', req_headers = [],
      req_body = body_text (form_enc True is_ascii_alphanumeric) (jtext sample_env)
        (out_body (build_request ?call ''http://h/mock/oauth/token''))\<rparr>"
  have "obj_sorted sample_oauth_body" "strings_valid sample_oauth_body" by code_simp+
  moreover have "get_str ?call ''kind'' = Some ''oauth''" "json_get ?call ''body'' = Some (JObject sample_oauth_body)"
    by (simp_all add: get_str_def json_get_object as_str_def)
  moreover have "get_str (JObject sample_oauth_body) ''code'' = Some ''a b&c=d''"
    "get_str (JObject sample_oauth_body) ''client_secret'' = Some ''allgres-mock-oauth-secret''" by code_simp+
  ultimately show ?thesis
    using oauth_form_roundtrip [of ?call sample_oauth_body "sample_config\<lparr>mock_enabled := True\<rparr>" ?r True is_ascii_alphanumeric
        "jtext sample_env" "''http://h/mock/oauth/token''" sample_env]
    by simp
qed

end
