(* ===== verification/Lib_Native.thy ===== *)
theory Lib_Native
  imports Pg_Session Config Http_Protocol
begin

text \<open>
  The functions \<open>src/lib.rs\<close> exposes to SQL, and the registration of the two background workers. The
  postmaster's answers, the contents of the two files under \<open>/proc\<close> and floating point arithmetic are
  arguments; \<open>analyze_sql\<close> is in \<open>Sql_Parser\<close> and \<open>native_llm_http_send\<close> in \<open>Outbound\<close>.
\<close>

section \<open>Definitions\<close>

subsection \<open>Host statistics\<close>

text \<open>What the source uses of \<open>f64\<close>: parsing, printing as JSON, and the percentage.\<close>

record 'f float_ops =
  parse_f64 :: "string \<Rightarrow> 'f option"
  f64_json :: "'f \<Rightarrow> json"
  percent_of :: "nat \<Rightarrow> nat \<Rightarrow> 'f"
  zero_f64 :: 'f

definition load_stats :: "'f float_ops \<Rightarrow> string \<Rightarrow> json option" where
  "load_stats F s =
     (case split_whitespace s of
        a # b # c # _ \<Rightarrow>
          (case (parse_f64 F a, parse_f64 F b, parse_f64 F c) of
             (Some one, Some five, Some fifteen) \<Rightarrow>
               Some (json_object [(''load1'', f64_json F one), (''load5'', f64_json F five),
                 (''load15'', f64_json F fifteen)])
           | _ \<Rightarrow> None)
      | _ \<Rightarrow> None)"

text \<open>One line of \<open>/proc/meminfo\<close>: the key before the first colon, and the first word after it as a number.\<close>

definition meminfo_line :: "string \<Rightarrow> (string \<times> nat) option" where
  "meminfo_line line =
     (case split_once '':'' line of
        None \<Rightarrow> None
      | Some (key, rest) \<Rightarrow>
          (case split_whitespace (str_trim rest) of
             [] \<Rightarrow> None
           | w # _ \<Rightarrow> map_option (Pair key) (parse_usize w)))"

text \<open>The loop over the lines: one line that does not parse gives up the whole section.\<close>

fun meminfo_table :: "string list \<Rightarrow> (string \<rightharpoonup> nat) \<Rightarrow> (string \<rightharpoonup> nat) option" where
  "meminfo_table [] kv = Some kv"
| "meminfo_table (line # lines) kv =
     (case meminfo_line line of
        None \<Rightarrow> None
      | Some (key, n) \<Rightarrow> meminfo_table lines (kv(key \<mapsto> n)))"

definition memory_json :: "'f float_ops \<Rightarrow> nat \<Rightarrow> nat \<Rightarrow> json" where
  "memory_json F total_kb avail_kb =
     (let used_kb = total_kb - avail_kb in
      json_object
        [(''total_mb'', JInt (int (total_kb div 1024))),
         (''used_mb'', JInt (int (used_kb div 1024))),
         (''available_mb'', JInt (int (avail_kb div 1024))),
         (''used_pct'', f64_json F (if 0 < total_kb then percent_of F used_kb total_kb else zero_f64 F))])"

definition memory_stats :: "'f float_ops \<Rightarrow> string \<Rightarrow> json option" where
  "memory_stats F s =
     (case meminfo_table (str_lines s) Map.empty of
        None \<Rightarrow> None
      | Some kv \<Rightarrow>
          (case (kv ''MemTotal'', kv ''MemAvailable'') of
             (Some total_kb, Some avail_kb) \<Rightarrow> Some (memory_json F total_kb avail_kb)
           | _ \<Rightarrow> None))"

definition native_host_stats :: "'f float_ops \<Rightarrow> string option \<Rightarrow> string option \<Rightarrow> nat option \<Rightarrow> json" where
  "native_host_stats F loadavg meminfo parallelism =
     json_object
       [(''load'', json_opt id (Option.bind loadavg (load_stats F))),
        (''memory'', json_opt id (Option.bind meminfo (memory_stats F))),
        (''cpu_count'', JInt (int (case parallelism of Some n \<Rightarrow> n | None \<Rightarrow> 0)))]"

subsection \<open>Status\<close>

definition preload_sql :: string where
  "preload_sql = ''SELECT current_setting('' @ [CHR 0x27] @ ''shared_preload_libraries'' @ [CHR 0x27] @ '', true)''"

definition preload_libraries :: "string pg" where
  "preload_libraries =
     pg_bind (spi preload_sql []) (\<lambda>r.
       pg_return (case Option.bind (ok_flatten r) as_str of Some s \<Rightarrow> s | None \<Rightarrow> []))"

definition is_preloaded :: "string \<Rightarrow> bool" where
  "is_preloaded preload = list_ex (\<lambda>x. str_trim x = ''allgres'') (split_str '','' preload)"

definition native_status :: "string \<Rightarrow> string \<Rightarrow> json pg" where
  "native_status VERSION socket_path =
     pg_bind preload_libraries (\<lambda>preload.
       pg_return (json_object
         [(''name'', JString ''Allgres''),
          (''tagline'', JString ''Postgres Is All You Need.''),
          (''version'', JString VERSION),
          (''preloaded'', JBool (is_preloaded preload)),
          (''runtime_worker'', JString ''allgres runtime''),
          (''web_worker'', JString ''allgres web''),
          (''web_default'', JString DEFAULT_HTTP_ADDR),
          (''rpc_socket'', JString socket_path)]))"

subsection \<open>Background workers\<close>

datatype bgw_start_time = PostmasterStart | ConsistentState | RecoveryFinished

record worker_builder =
  bgw_name :: string
  bgw_function :: string
  bgw_library :: string
  bgw_start_time :: bgw_start_time
  bgw_restart_secs :: nat
  bgw_spi_access :: bool
  bgw_notify_pid :: "nat option"

definition runtime_worker_builder :: worker_builder where
  "runtime_worker_builder =
     \<lparr>bgw_name = ''allgres runtime'', bgw_function = ''allgres_runtime_main'', bgw_library = ''allgres'', bgw_start_time = RecoveryFinished,
      bgw_restart_secs = 5, bgw_spi_access = True, bgw_notify_pid = None\<rparr>"

definition web_worker_builder :: worker_builder where
  "web_worker_builder =
     \<lparr>bgw_name = ''allgres web'', bgw_function = ''allgres_web_main'', bgw_library = ''allgres'', bgw_start_time = RecoveryFinished,
      bgw_restart_secs = 5, bgw_spi_access = False, bgw_notify_pid = None\<rparr>"

text \<open>The workers registered when the library is loaded.\<close>

definition PG_init :: "bool \<Rightarrow> worker_builder list" where
  "PG_init preload_in_progress =
     (if \<not> preload_in_progress then [] else [runtime_worker_builder, web_worker_builder])"

text \<open>What the postmaster does with a dynamic registration: refuse it, start the worker, or report another status.\<close>

datatype registration = Refused | Started nat | Not_started string

definition registration_json :: "string \<Rightarrow> registration \<Rightarrow> json" where
  "registration_json label r =
     (case r of
        Started pid \<Rightarrow>
          json_object [(''worker'', JString label), (''started'', JBool True), (''pid'', JInt (int pid))]
      | Not_started status \<Rightarrow>
          json_object [(''worker'', JString label), (''started'', JBool False), (''reason'', JString status)]
      | Refused \<Rightarrow>
          json_object [(''worker'', JString label), (''started'', JBool False),
            (''reason'', JString ''postmaster could not register the worker -- check max_worker_processes'')])"

definition running_sql :: string where
  "running_sql =
     ''SELECT count(*) FROM pg_stat_activity WHERE backend_type = '' @ [CHR 0x27] @ ''allgres runtime'' @ [CHR 0x27]"

text \<open>The reply, with the registrations asked of the postmaster.\<close>

definition native_start_dynamic_workers ::
    "(worker_builder \<Rightarrow> registration) \<Rightarrow> nat \<Rightarrow> (json \<times> worker_builder list) pg" where
  "native_start_dynamic_workers postmaster my_pid =
     pg_bind preload_libraries (\<lambda>preload.
       if is_preloaded preload then
         pg_return (json_object [(''ok'', JBool False), (''reason'', JString
           ''allgres is already in shared_preload_libraries; the postmaster owns these workers, dynamic start does not apply'')], [])
       else
         pg_bind (spi running_sql []) (\<lambda>r.
           let already_running = (case Option.bind (ok_flatten r) as_i64 of Some n \<Rightarrow> n | None \<Rightarrow> 0) in
           if 0 < already_running then
             pg_return (json_object [(''ok'', JBool True), (''already_running'', JBool True)], [])
           else
             let builders = map (\<lambda>b. b\<lparr>bgw_notify_pid := Some my_pid\<rparr>) [runtime_worker_builder, web_worker_builder] in
             pg_return (json_object [(''ok'', JBool True), (''already_running'', JBool False),
               (''results'', JArray (map (\<lambda>b. registration_json (bgw_name b) (postmaster b)) builders))], builders)))"

section \<open>Lemmas\<close>

lemma number_visible: "visible (nat_to_radix 10 n)"
proof -
  have "set (nat_to_radix 10 n) \<subseteq> hex_digit ` {..<10}" by (rule nat_to_radix_digits) simp_all
  then show ?thesis using byte_hex_digit by (fastforce simp: visible_def list_all_iff)
qed

lemma visible_is_printable: "visible s \<Longrightarrow> printable s"
  by (auto simp: visible_def printable_def list_all_iff)

lemma str_trim_padded:
  assumes "printable v" "trimmed v"
  shows "str_trim (replicate k (CHR '' '') @ v) = v"
proof -
  have "str_chars (replicate k (CHR '' '') @ v) = replicate k '' '' @ str_chars v"
    by (induction k) simp_all
  moreover have "dropWhile is_whitespace_char (replicate k '' '' @ str_chars v) = dropWhile is_whitespace_char (str_chars v)"
    by (induction k) simp_all
  ultimately show ?thesis using str_trim_printable(1) [OF assms] by (simp add: str_trim_def)
qed

subsection \<open>The preload setting\<close>

text \<open>The setting as PostgreSQL shows it: names separated by commas and spaces.\<close>

fun preload_text :: "string list \<Rightarrow> string" where
  "preload_text [] = []"
| "preload_text [l] = l"
| "preload_text (l # ls) = l @ '','' @ '' '' @ preload_text ls"

definition library_ok :: "string \<Rightarrow> bool" where
  "library_ok l \<longleftrightarrow> visible l \<and> CHR '','' \<notin> set l"

lemma split_preload:
  "ls \<noteq> [] \<Longrightarrow> list_all library_ok ls \<Longrightarrow>
     map str_trim (split_str '','' (pad @ preload_text ls)) = ls" if "pad = [] \<or> pad = '' ''" for pad
  using that
proof (induction ls arbitrary: pad rule: preload_text.induct)
  case (2 l)
  then have ok: "visible l" "CHR '','' \<notin> set (pad @ l)" by (auto simp: library_ok_def)
  from str_trim_printable [OF visible_is_printable visible_trimmed] ok(1) have "str_trim (pad @ l) = l"
    using 2 by auto
  with split_str_single [OF ok(2)] show ?case by simp
next
  case (3 l m ls)
  then have ok: "visible l" "CHR '','' \<notin> set (pad @ l)" by (auto simp: library_ok_def)
  from str_trim_printable [OF visible_is_printable visible_trimmed] ok(1) have "str_trim (pad @ l) = l"
    using 3 by auto
  with split_str_char [OF ok(2), of "'' '' @ preload_text (m # ls)"] "3.IH" [of "'' ''"] "3.prems" show ?case by simp
qed simp

lemma is_preloaded_text:
  assumes "list_all library_ok ls"
  shows "is_preloaded (preload_text ls) \<longleftrightarrow> ''allgres'' \<in> set ls"
proof (cases "ls = []")
  case True
  then show ?thesis by (simp add: is_preloaded_def split_str_single) (simp add: str_trim_def)
next
  case False
  have "set ls = str_trim ` set (split_str '','' (preload_text ls))"
    using split_preload [of "[]", OF _ False assms] by (metis append_Nil set_map)
  moreover have "a \<in> str_trim ` S \<longleftrightarrow> (\<exists>x \<in> S. str_trim x = a)" for a S by blast
  ultimately show ?thesis by (simp only: is_preloaded_def list_ex_iff)
qed

subsection \<open>Memory\<close>

text \<open>A line of \<open>/proc/meminfo\<close>: key, padding, amount, and the unit where there is one.\<close>

type_synonym mem_entry = "string \<times> nat \<times> nat \<times> bool"

definition mem_line :: "mem_entry \<Rightarrow> string" where
  "mem_line e = (case e of (key, pad, n, unit) \<Rightarrow>
     key @ '':'' @ replicate pad (CHR '' '') @ nat_to_radix 10 n @ (if unit then '' kB'' else []))"

definition mem_entry_ok :: "mem_entry \<Rightarrow> bool" where
  "mem_entry_ok e = (case e of (key, pad, n, unit) \<Rightarrow> visible key \<and> CHR '':'' \<notin> set key \<and> n < 2 ^ 64)"

definition mem_text :: "mem_entry list \<Rightarrow> string" where
  "mem_text es = concat (map (\<lambda>e. mem_line e @ [CHR 0x0A]) es)"

definition mem_table :: "mem_entry list \<Rightarrow> string \<rightharpoonup> nat" where
  "mem_table es = map_of (rev (map (\<lambda>(key, pad, n, unit). (key, n)) es))"

lemma meminfo_line_print:
  assumes "mem_entry_ok (key, pad, n, unit)"
  shows "meminfo_line (mem_line (key, pad, n, unit)) = Some (key, n)"
proof -
  let ?d = "nat_to_radix 10 n" and ?u = "if unit then '' kB'' else []"
  have d: "visible ?d" "?d \<noteq> []" using number_visible by simp_all
  have "printable (?d @ ?u)" using visible_is_printable [OF d(1)] by (auto simp: printable_def)
  moreover have "trimmed (?d @ ?u)"
    using visible_trimmed [OF d(1)] d(2) by (auto simp: trimmed_def)
  ultimately have trim: "str_trim (replicate pad (CHR '' '') @ ?d @ ?u) = ?d @ ?u" by (rule str_trim_padded)
  have "list_all (\<lambda>c. byte c < 128) (?d @ ?u)" using d(1) by (auto simp: visible_def list_all_iff)
  then have "split_whitespace (?d @ ?u) = ?d # (if unit then [''kB''] else [])"
    using words_of_visible [OF d(1), of "map (\<lambda>c. [c]) ?u" "[]"] d(2)
    by (auto simp: split_whitespace_def str_chars_ascii is_whitespace_char_def simp del: str_chars_ascii_Cons)
  with trim assms split_once_char [of "CHR '':''" key "replicate pad (CHR '' '') @ ?d @ ?u"] show ?thesis
    by (simp add: meminfo_line_def mem_line_def mem_entry_ok_def parse_usize_print)
qed

lemma mem_line_one:
  assumes "mem_entry_ok e"
  shows "CHR 0x0A \<notin> set (mem_line e)" "strip_cr (mem_line e) = mem_line e"
proof -
  have "c \<in> set (mem_line e) \<Longrightarrow> 32 \<le> byte c" for c
    using assms number_visible [of "fst (snd (snd e))"]
    by (auto simp: mem_line_def mem_entry_ok_def visible_def list_all_iff split: prod.splits if_splits)
  then have no: "c \<in> set (mem_line e) \<Longrightarrow> c \<noteq> CHR 0x0A \<and> c \<noteq> CHR 0x0D" for c by fastforce
  then show "CHR 0x0A \<notin> set (mem_line e)" by blast
  show "strip_cr (mem_line e) = mem_line e" using no [OF last_in_set] by (auto simp: strip_cr_def)
qed

lemma str_lines_mem: "list_all mem_entry_ok es \<Longrightarrow> str_lines (mem_text es) = map mem_line es"
proof (induction es)
  case (Cons e es)
  then have "mem_entry_ok e" by simp
  from str_lines_acc_plain [OF mem_line_one(1) [OF this], of "[]" "mem_text es"] mem_line_one(2) [OF this] Cons
  show ?case by (simp add: str_lines_def mem_text_def)
qed (simp add: str_lines_def mem_text_def)

lemma meminfo_table_print:
  "list_all mem_entry_ok es \<Longrightarrow> meminfo_table (map mem_line es) kv = Some (kv ++ mem_table es)"
proof (induction es arbitrary: kv)
  case (Cons e es)
  obtain key pad n unit where e: "e = (key, pad, n, unit)" by (cases e)
  with Cons meminfo_line_print [of key pad n unit] show ?case
    by (simp add: mem_table_def)
qed (simp add: mem_table_def)

section \<open>Properties\<close>

text \<open>The host's memory is read as the kernel writes it. For every \<open>/proc/meminfo\<close> of keys, padded amounts and
  optional units, whatever its keys and their order, the reported totals are those of \<open>MemTotal\<close> and
  \<open>MemAvailable\<close> (the last line of a key counts); without either of the two the section is null.\<close>

theorem memory_stats_reads_meminfo:
  assumes "list_all mem_entry_ok es"
  shows "memory_stats F (mem_text es) =
    (case (mem_table es ''MemTotal'', mem_table es ''MemAvailable'') of
       (Some total_kb, Some avail_kb) \<Rightarrow> Some (memory_json F total_kb avail_kb)
     | _ \<Rightarrow> None)"
  using str_lines_mem [OF assms] meminfo_table_print [OF assms, of Map.empty]
  by (simp add: memory_stats_def)

definition whole_percent :: "int float_ops" where
  "whole_percent = \<lparr>parse_f64 = (\<lambda>s. map_option int (parse_usize s)), f64_json = JInt,
     percent_of = (\<lambda>a b. int (100 * a div b)), zero_f64 = 0\<rparr>"

theorem memory_stats_reads_meminfo_witness:
  "memory_stats whole_percent (mem_text [(''MemTotal'', 7, 16384, True), (''HugePages_Total'', 3, 0, False),
       (''MemAvailable'', 1, 4096, True)]) = Some (memory_json whole_percent 16384 4096)"
  using memory_stats_reads_meminfo [of "[(''MemTotal'', 7, 16384, True), (''HugePages_Total'', 3, 0, False),
       (''MemAvailable'', 1, 4096, True)]" whole_percent]
  by (simp add: mem_entry_ok_def visible_def mem_table_def)

text \<open>The dynamic start never doubles a worker. When the server shows its preload setting as a list of names and
  the number of running runtime workers, both workers are registered, runtime first and reporting to the caller,
  exactly when the library is not in the list and no runtime worker runs; otherwise none is.\<close>

theorem dynamic_start_exact:
  assumes "list_all library_ok libs"
    and "db h preload_sql [] = Returned (Some (JString (preload_text libs)))"
    and "db (h @ [Spi preload_sql [] (Returned (Some (JString (preload_text libs))))]) running_sql [] =
      Returned (Some (JInt (int running)))" and "running < 2 ^ 63"
    and "native_start_dynamic_workers postmaster pid db h = (Value (reply, registered), es)"
  shows "registered =
    (if ''allgres'' \<in> set libs \<or> 0 < running then []
     else map (\<lambda>b. b\<lparr>bgw_notify_pid := Some pid\<rparr>) [runtime_worker_builder, web_worker_builder])"
  using assms is_preloaded_text [OF assms(1)]
  by (auto simp: native_start_dynamic_workers_def preload_libraries_def pg_bind_def spi_def ok_flatten_def as_str_def
      as_i64_def Let_def split: if_splits)

definition bare_db :: pg_db where
  "bare_db h q args =
     Returned (Some (if q = preload_sql then JString (preload_text [''pg_stat_statements'', ''auto_explain'']) else JInt 0))"

theorem dynamic_start_exact_witness:
  "\<exists>reply es. native_start_dynamic_workers (\<lambda>_. Started 42) 7 bare_db [] =
     (Value (reply, map (\<lambda>b. b\<lparr>bgw_notify_pid := Some 7\<rparr>) [runtime_worker_builder, web_worker_builder]), es)"
proof -
  have libs: "list_all library_ok [''pg_stat_statements'', ''auto_explain'']"
    by (simp add: library_ok_def visible_def)
  have db: "bare_db [] preload_sql [] = Returned (Some (JString (preload_text [''pg_stat_statements'', ''auto_explain''])))"
    "bare_db h running_sql [] = Returned (Some (JInt (int 0)))" for h
    by (simp_all add: bare_db_def preload_sql_def running_sql_def del: preload_text.simps)
  obtain reply registered es where run:
    "native_start_dynamic_workers (\<lambda>_. Started 42) 7 bare_db [] = (Value (reply, registered), es)"
    using is_preloaded_text [OF libs] db(1) db(2) [of "[Spi preload_sql [] (bare_db [] preload_sql [])]"]
    by (simp add: native_start_dynamic_workers_def preload_libraries_def pg_bind_def spi_def ok_flatten_def as_str_def
        as_i64_def Let_def del: preload_text.simps)
  from dynamic_start_exact [OF libs db(1) db(2) _ run] run show ?thesis by simp
qed

end
