(* ===== verification/Spec2Isabelle.thy ===== *)
theory Spec2Isabelle
  imports Sql_Parser Web_Threads Life_Accounting Pool_Faults Oauth_Exchange Lib_Native
begin

text \<open>
  Allgres: a PostgreSQL extension in Rust that runs AI agents out of the database. This development models
  its Rust sources, \<open>src/src/*.rs\<close>, and proves what makes them safe and correct.

  \<^bold>\<open>The program.\<close> Two background workers, registered by \<open>lib.rs\<close>. The \<open>web\<close> worker (\<open>web.rs\<close>,
  \<open>http_protocol.rs\<close>) serves the dashboard over HTTP, one thread per connection, and forwards requests over a
  Unix socket (\<open>config.rs\<close>) to the \<open>runtime\<close> worker (\<open>runtime_worker.rs\<close>, \<open>rpc.rs\<close>). The runtime worker owns the
  PostgreSQL session. Each turn of its loop answers the socket, records finished outbound calls, propagates
  cancellations, claims queued calls for a pool of HTTP threads (\<open>outbound.rs\<close>), and runs agents' SQL, functions
  and procedures itself (\<open>sandbox.rs\<close>, \<open>function_exec.rs\<close>, \<open>procedure_exec.rs\<close>). It connects as the
  bootstrap superuser and drops its privileges in every transaction. \<open>sql_parser.rs\<close> tells the database what a
  candidate statement reads, calls and writes, from PostgreSQL's own node dump.

  \<^bold>\<open>Theories.\<close>
  \<^item> \<open>Rust_Prelude\<close>, \<open>Rust_Str\<close>: what the sources use of Rust's standard library, on byte strings: searching,
    splitting, trimming, UTF-8 validity and decoding, number parsing and printing. A panic is \<^const>\<open>None\<close>.
  \<^item> \<open>Json_Value\<close>: \<open>serde_json::Value\<close> as a datatype; its text functions are a parameter (\<open>json_text\<close>).
  \<^item> \<open>Lib_Core\<close>: the constants of \<open>lib.rs\<close> and \<open>truncate_utf8\<close> (longest valid prefix within the limit).
  \<^item> \<open>Sql_Parser\<close>: \<open>sql_parser.rs\<close>, one definition per function and per part of \<open>analyze_dump\<close>. What is
    reported for every relation and function named in a dump, and which names are misread, against what PostgreSQL's
    \<open>outToken\<close> writes (\<open>token_value\<close>, \<open>quoted_list\<close>); a dump called a read-only select is one; no panic on dumps whose
    backslashes escape ASCII. Locale \<open>bracket_pair\<close>, for braces and for parentheses.
  \<^item> \<open>Http_Protocol\<close>: \<open>http_protocol.rs\<close>. Requests are read whole however the network cuts them, within the size limit and
    the deadline; parsing inverts printing; the one unchecked addition overflows.
  \<^item> \<open>Web_Guard\<close>: the first part of \<open>web.rs\<close>: tickets, rate windows, token comparison, decoding, authorization, origin.
    Locale \<open>hit_log\<close>, for the general window and for the failed logins.
  \<^item> \<open>Web_Server\<close>: the rest of \<open>web.rs\<close>: responses, routes, the connection handler as a function from its environment
    to its effects, event stream, exposure check, accept loop. Nothing is forwarded unguarded; threads
    are bounded; when a handler panics, and what that costs.
  \<^item> \<open>Web_Threads\<close>: the connection threads side by side, each in the stretches between its locks. How many tokens one
    address can try in a window whatever the interleaving, a run that tries that many, and that the handler of
    \<open>Web_Server\<close> is a run of one thread.
  \<^item> \<open>Pg_Session\<close>: the session as computations over a server that is a parameter, a function of the session's
    history and the statement; they give a value or raise, and the events they add. \<open>drop_privileges\<close>,
    \<open>run_in_subtransaction\<close>, and the claim, completion and pump shapes. Locale \<open>executor\<close>: what the pump relies
    on; then every claimed entry is accounted for exactly once, and the pump returns if the completions do.
  \<^item> \<open>Sandbox\<close>, \<open>Function_Exec\<close>, \<open>Procedure_Exec\<close>: the three executors, each an \<open>executor\<close>. Agent code only runs
    under the restrictions, dollar quoting cannot be escaped, a build sends its one statement and nothing else.
  \<^item> \<open>Outbound\<close>: \<open>outbound.rs\<close>. The blocklist as networks, the guarded resolver, cancellation flags as shared cells that
    refine a map, sliced waits that end, requests by kind, the turn of a pool thread.
  \<^item> \<open>Config\<close>: \<open>config.rs\<close>: settings, and the socket with its permissions over a file system with faults.
  \<^item> \<open>Runtime_Worker\<close>: \<open>runtime_worker.rs\<close> and \<open>rpc.rs\<close>: every transaction, the turn (\<open>tick\<close>) and the whole
    \<open>allgres_runtime_main\<close>. Well-typed jobs, bounded backoff, what a turn does to the count in flight.
  \<^item> \<open>Http_Pool\<close>: the pool's threads as a step relation (receive, register, return, send, die) beside whole turns of the
    worker: channels, threads, shared flags.
  \<^item> \<open>Pool_Steps\<close>: the worker's loop taken apart into its own steps, interleaved with those of the threads. No call is lost
    or received twice, the pool is never overrun, and a flag is up exactly if its call was reported lost, at
    every moment; the turns of \<open>Runtime_Worker\<close> are runs of these steps.
  \<^item> \<open>Pool_Faults\<close>: what can follow when a thread has died in a call, or no thread is left: the call is never answered and
    keeps its place in flight; a pool without threads goes on swallowing claimed calls.
  \<^item> \<open>Oauth_Exchange\<close>: the form of an OAuth token request from the row to the endpoint's reader. Locale \<open>form_encoder\<close>: what
    the reader relies on of the client's encoder, interpreted for percent and for plus encoding; then every string
    member of the row arrives as it was and nothing else.
  \<^item> \<open>Session_Policy\<close>: state machines over session events and the locale \<open>session_policy\<close>, in which it is proved once that
    the worker's whole life follows a policy that grants what the code relies on; interpreted for the
    privilege drop and for the order of transactions.
  \<^item> \<open>Life_Accounting\<close>: on the same judgement, what the worker owes on each of its five own queues: every claimed entry is
    answered for once, in order, before the next claim.
  \<^item> \<open>Lib_Native\<close>: the SQL-callable functions of \<open>lib.rs\<close> and worker registration.
  \<^item> This theory: a dashboard request through both workers, and the properties of the runtime worker's whole life.

  \<^bold>\<open>State and effects.\<close> Each struct is a record, each enum a datatype. Stateful code returns its new state; what
  it reads of the world (clocks, sockets, files, the server, other threads) is a record it is given, with
  one field per reading, so theorems quantify over every behaviour of it. Durations are milliseconds.
  Errors are sums or options with the source's messages; warnings are events.

  \<^bold>\<open>Bounds and fuel.\<close> No definition has fuel. Loops are structural or have a measure (\<open>stream_loop\<close>: time to the
  deadline; \<open>dollar_tag\<close>: body length minus tag length). \<open>sliced_wait\<close> can run forever on a stopped clock
  and is a \<open>partial_function\<close>; \<open>await_input_returns\<close> proves it returns once flag or deadline is reached, unless
  the deadline itself overflows the clock (\<open>instant_add\<close>), which panics.
  \<open>usize\<close> arithmetic is written out where it can overflow (\<open>usize_add\<close>); \<open>as i32\<close> wraps (\<open>as_i32\<close>);
  addresses, permission bits and compared bytes are words.

  \<^bold>\<open>Parameters.\<close> The server (\<open>pg_db\<close>), with the whole SQL control plane behind it; \<open>serde_json\<close>'s text functions
  (\<open>call_text_ok\<close> says what the end-to-end property relies on, for its own request and reply); \<open>ureq\<close> (\<open>http_client\<close>); \<open>raw_parser\<close> and
  \<open>nodeToString\<close>; the postmaster; \<open>f64\<close> arithmetic; claim functions that keep to their limit
  (\<open>claims_within_limit\<close>, for the capacity only); the text \<open>outToken\<close> writes.

  \<^bold>\<open>Not modelled.\<close> The SQL files under \<open>sql/\<close> (PL/pgSQL, behind the server), the dashboard page (a text), memory
  contexts and resource owners in \<open>run_in_subtransaction\<close>, socket timeouts beyond the error they cause, poisoned
  mutexes (no code panics while it holds one), file ownership, tests, scripts and documentation.

  \<^bold>\<open>Plan.\<close> Every function of the Rust sources but \<open>native_version\<close>, a build constant, has its definition; what the map leaves out is imports, attributes, macros,
  declarations of C functions, comments and tests. What could be added is composition: the web worker's threads
  (\<open>Web_Threads\<close>) and the steps of the runtime worker (\<open>Pool_Steps\<close>) as one system, where this theory joins one request
  with one turn.
\<close>

section \<open>From the web worker to the database\<close>

text \<open>The runtime worker as the web worker's peer: what it writes back, or nothing when the turn raises and the
  worker goes down with the connection.\<close>

definition runtime_peer ::
    "json_text \<Rightarrow> string option \<Rightarrow> bool \<Rightarrow> pg_db \<Rightarrow> pg_event list \<Rightarrow> string \<Rightarrow> bytes \<Rightarrow> rpc_outcome" where
  "runtime_peer jt dp is_ready db h sock sent =
     (case handle_rpc_stream jt dp is_ready (Some sent) db h of
        (Value reply, _) \<Rightarrow> Reply reply
      | (Raise _, _) \<Rightarrow> Reply [])"

text \<open>What the request means to the database: the privilege drop, then one call of \<open>allgres.dashboard_rpc\<close> on it.\<close>

definition database_answer :: "json_text \<Rightarrow> string option \<Rightarrow> pg_db \<Rightarrow> pg_event list \<Rightarrow> json \<Rightarrow> json" where
  "database_answer jt dp db h req =
     (case drop_privileges dp db (h @ [Begin_xact]) of
        (Raise _, _) \<Rightarrow> rpc_error ''invalid_rpc_response''
      | (Value False, _) \<Rightarrow> rpc_error ''privilege_drop_failed''
      | (Value True, es) \<Rightarrow>
          (case db (h @ [Begin_xact] @ es) dashboard_sql [AText (json_print jt req)] of
             Returned (Some j) \<Rightarrow> j
           | Raised _ \<Rightarrow> rpc_error ''invalid_rpc_response''
           | _ \<Rightarrow> rpc_error ''empty_rpc_result''))"

text \<open>What comes back to the web worker: an error reply while the extension is not installed, else the database's.\<close>

definition call_answer :: "json_text \<Rightarrow> string option \<Rightarrow> bool \<Rightarrow> pg_db \<Rightarrow> pg_event list \<Rightarrow> json \<Rightarrow> json" where
  "call_answer jt dp is_ready db h req =
     (if is_ready then database_answer jt dp db h req else rpc_error ''extension_not_installed'')"

text \<open>What one call relies on of \<open>serde_json\<close>, for its own request and reply: their printed text parses back to the value, the
  request's is UTF-8, and the empty text is not JSON.\<close>

definition reads_back :: "json_text \<Rightarrow> json \<Rightarrow> bool" where
  "reads_back jt j \<longleftrightarrow> json_parse jt (json_print jt j) = Some j"

definition call_text_ok :: "json_text \<Rightarrow> json \<Rightarrow> json \<Rightarrow> bool" where
  "call_text_ok jt req reply \<longleftrightarrow>
     reads_back jt req \<and> utf8_valid (json_print jt req) \<and> reads_back jt reply \<and> json_parse jt [] = None"

lemma dashboard_rpc_reply:
  assumes "reads_back jt (database_answer jt dp db h req)" and "json_parse jt [] = None"
  shows "(case json_parse jt (case dashboard_rpc jt dp (json_print jt req) db h of (Value reply, _) \<Rightarrow> reply | (Raise _, _) \<Rightarrow> []) of
      Some v \<Rightarrow> v | None \<Rightarrow> rpc_error ''invalid_rpc_response'') = database_answer jt dp db h req"
  using assms
  by (cases rule: drop_privileges_cases [of dp db "h @ [Begin_xact]"];
      cases "db (h @ [Begin_xact] @ snd (drop_privileges dp db (h @ [Begin_xact]))) dashboard_sql [AText (json_print jt req)]")
    (auto simp: dashboard_rpc_def database_answer_def transaction_eq pg_bind_def spi_def ok_flatten_def reads_back_def Let_def
      split: option.splits)

text \<open>For every request that fits the socket's limit, what the web worker gets back from its call is exactly what
  \<open>allgres.dashboard_rpc\<close> returned, in a transaction after the privilege drop, for exactly the request's JSON.\<close>

lemma web_call_reaches_database:
  assumes "call_text_ok jt req (call_answer jt dp is_ready db h req)" and "length (json_print jt req) \<le> MAX_REQUEST_BYTES"
  shows "rpc jt (runtime_peer jt dp is_ready db h) cfg req = call_answer jt dp is_ready db h req"
proof -
  from assms have stream: "handle_rpc_stream jt dp is_ready (Some (json_print jt req)) =
      (if is_ready then dashboard_rpc jt dp (json_print jt req)
       else pg_return (json_print jt (rpc_error ''extension_not_installed'')))"
    by (simp add: handle_rpc_stream_def call_text_ok_def reads_back_def)
  show ?thesis
  proof (cases is_ready)
    case True
    then show ?thesis
      using dashboard_rpc_reply [of jt dp db h req] stream assms(1)
      by (auto simp: rpc_def runtime_peer_def call_answer_def call_text_ok_def split: prod.splits pg_result.splits)
  next
    case False
    then show ?thesis using stream assms(1)
      by (simp add: rpc_def runtime_peer_def call_answer_def call_text_ok_def reads_back_def)
  qed
qed

text \<open>A text form of the status request and of the reply to it, as \<open>serde_json\<close> prints them.\<close>

definition overview_request :: json where
  "overview_request = json_object [(''action'', JString ''overview'')]"

definition overview_reply :: json where
  "overview_reply = json_object [(''ok'', JBool True)]"

definition overview_text :: json_text where
  "overview_text =
     \<lparr>json_print = (\<lambda>j. if j = overview_request then ''{\"action\":\"overview\"}'' else if j = overview_reply then ''{\"ok\":true}'' else ''null''),
      json_parse = (\<lambda>s. if s = ''{\"action\":\"overview\"}'' then Some overview_request
         else if s = ''{\"ok\":true}'' then Some overview_reply
         else if s = ''null'' then Some JNull else None)\<rparr>"

lemma overview_text_ok: "call_text_ok overview_text overview_request overview_reply"
proof -
  have "utf8_valid ''{\"action\":\"overview\"}''" by code_simp
  moreover have "overview_reply \<noteq> overview_request" by code_simp
  ultimately show ?thesis by (simp add: call_text_ok_def reads_back_def overview_text_def)
qed

text \<open>A route that forwards is an API route of its own, and neither the ticket nor the event stream.\<close>

lemma forwarded_route:
  assumes "route_request jt r = Some (Forward req)"
  shows "req_method r \<noteq> ''OPTIONS'' \<and> prefix ''/api/v1/'' (route r)
    \<and> route r \<noteq> ''/api/v1/events/ticket'' \<and> route r \<noteq> ''/api/v1/events''"
proof -
  have "prefix ''/api/v1/'' (route r)" if "prefix ''/api/v1/agents/'' (route r)"
    using prefix_order.trans [of "''/api/v1/''" "''/api/v1/agents/''"] that by simp
  then show ?thesis using assms by (auto simp: route_request_def agents_prefix_def Let_def split: if_splits)
qed

lemma guarded_request_served:
  assumes "prefix ''/api/v1/'' (route r)" and "req_method r \<noteq> ''OPTIONS''" and "csrf_ok r"
    and "case peer_ip env of None \<Rightarrow> True | Some ip \<Rightarrow> \<not> fst (auth_failures_exceeded ip (t_lockout env) (rate st))"
    and "fst (authorized r cfg (t_auth env) (ticket_table st))"
  shows "snd (handle_request env cfg r st) = snd (serve_api env cfg r
      (st\<lparr>rate := (case peer_ip env of None \<Rightarrow> rate st | Some ip \<Rightarrow> snd (auth_failures_exceeded ip (t_lockout env) (rate st))),
         ticket_table := snd (authorized r cfg (t_auth env) (ticket_table st))\<rparr>))"
  using assms by (auto simp: handle_request_def handle_api_def Let_def split_beta split: option.splits)

text \<open>C8: a dashboard request means the same to the database as to the client, from one socket to the other. A
  well-formed request that arrives in any pieces before the deadline, within the limits of its address, from
  the page's own origin and authorized, and whose JSON and reply \<open>serde_json\<close> reads back from their own text, is answered with exactly what \<open>allgres.dashboard_rpc\<close> returned, in a
  transaction after the privilege drop, for exactly the JSON its route stands for: reading, routing, printing,
  the socket between the workers and parsing on both sides add and lose nothing. Every failure on the way
  (not installed, no drop, no result, a raise that takes the runtime worker down) arrives as its own error
  reply, and the status is 400 exactly if the reply says \<open>"ok": false\<close>.\<close>

theorem dashboard_request_end_to_end:
  assumes json: "call_text_ok (jtext env) req (call_answer (jtext env) dp is_ready db h req)"
      "length (json_print (jtext env) req) \<le> MAX_REQUEST_BYTES"
    and runtime: "peer env 0 = runtime_peer (jtext env) dp is_ready db h"
    and sent: "request_ok r" "content_length_lines (request_lines r) = length (req_body r)"
      "length (print_request r) \<le> MAX_REQUEST_BYTES" "cs \<noteq> []" "[] \<notin> set cs" "concat cs = print_request r"
    and arrives: "\<And>j. j < length cs \<Longrightarrow> fst (reads env j) \<le> t_read env + REQUEST_DEADLINE \<and> snd (reads env j) = Some (cs ! j)"
    and guards: "case peer_ip env of None \<Rightarrow> True
      | Some ip \<Rightarrow> \<not> fst (rate_limited ip (t_rate env) (rate st))
          \<and> \<not> fst (auth_failures_exceeded ip (t_lockout env) (snd (rate_limited ip (t_rate env) (rate st))))"
      "csrf_ok r" "fst (authorized r cfg (t_auth env) (ticket_table st))"
    and route: "route_request (jtext env) r = Some (Forward req)"
  shows "snd (handle_web_connection env cfg st) =
    (let v = call_answer (jtext env) dp is_ready db h req in
     ([Forwarded req,
       Wrote (respond_json (if get_bool v ''ok'' = Some False then ''400 Bad Request'' else ''200 OK'') (json_print (jtext env) v))],
      Finished))"
proof -
  let ?st = "st\<lparr>rate := (case peer_ip env of None \<Rightarrow> rate st | Some ip \<Rightarrow> snd (rate_limited ip (t_rate env) (rate st)))\<rparr>"
  note fwd = forwarded_route [OF route]
  have "read_http_request (overflow_checks env) (t_read env) (reads env) = Some (Some r)"
    by (rule read_printed_request [OF sent arrives])
  then have "handle_web_connection env cfg st = handle_request env cfg r ?st"
    using guards(1) by (auto simp: handle_web_connection_def Let_def split_beta split: option.splits)
  moreover have "snd (serve_api env cfg r st') =
      (let v = rpc (jtext env) (peer env 0) cfg req in
       ([Forwarded req, Wrote (respond_json (if get_bool v ''ok'' = Some False then ''400 Bad Request'' else ''200 OK'')
          (json_print (jtext env) v))], Finished))" for st'
    using fwd route by (simp add: serve_api_def api_route_def Let_def)
  ultimately show ?thesis
    using guarded_request_served [of r env ?st cfg] fwd guards web_call_reaches_database [OF json, of cfg]
    by (auto simp: runtime split: option.splits)
qed

theorem dashboard_request_end_to_end_witness:
  "let env = sample_env\<lparr>jtext := overview_text, peer := (\<lambda>_. runtime_peer overview_text None True willing_db [])\<rparr> in
   snd (handle_web_connection env sample_config empty_state) =
     ([Forwarded overview_request, Wrote (respond_json ''200 OK'' ''{\"ok\":true}'')], Finished)"
proof -
  let ?env = "sample_env\<lparr>jtext := overview_text, peer := (\<lambda>_. runtime_peer overview_text None True willing_db [])\<rparr>"
  have "length (json_print overview_text overview_request) \<le> MAX_REQUEST_BYTES"
    by (simp add: overview_text_def MAX_REQUEST_BYTES_def)
  moreover have "route_request overview_text sample_status_request = Some (Forward overview_request)"
    using sample_status_guards
    by (simp add: route_request_def overview_request_def sample_status_request_def [THEN arg_cong, of req_method] Let_def)
  moreover have answer: "call_answer overview_text None True willing_db [] overview_request = overview_reply"
    by (simp add: call_answer_def overview_reply_def database_answer_def drop_privileges_def pg_bind_def spi_def willing_db_def
        dashboard_sql_def assume_worker_role_def Let_def)
  moreover have "json_print overview_text overview_reply = ''{\"ok\":true}''" "get_bool overview_reply ''ok'' = Some True"
    by code_simp+
  ultimately show ?thesis
    using dashboard_request_end_to_end [of ?env overview_request None True willing_db "[]" sample_status_request
        "[print_request sample_status_request]" empty_state sample_config]
      overview_text_ok sample_status_sent sample_status_guards
    by (simp add: sample_env_def sample_config_def empty_state_def rate_limited_def rate_check_def sweep_hits_def
        table_hits_def auth_failures_exceeded_def authorized_def RATE_GENERAL_LIMIT_def RATE_AUTH_FAIL_LIMIT_def Let_def)
qed

section \<open>The life of the runtime worker\<close>

text \<open>C1: the runtime worker never acts as the bootstrap superuser it connects as. Over its whole life, whatever
  the server answers, whatever arrives on its socket and whichever call raises, every statement it sends
  is sent with the privilege drop in effect in that very transaction (a rolled back subtransaction
  takes a drop made inside it back), except the drop itself and the look at \<open>pg_extension\<close>; only the
  setting \<open>ALLGRES_DROP_PRIVILEGES=0\<close> switches this off.\<close>

theorem worker_drops_privileges_first:
  "allowed priv_step (priv_ok (boot_vars b ''ALLGRES_DROP_PRIVILEGES'')) (False, []) (snd (allgres_runtime_main b db h))"
  by (rule privileges.main_allowed) (simp_all add: priv_at_def)

text \<open>C20: the worker's transactions are in order. Over its whole life its transactions do not nest, every statement and
  every statement timer belongs to one, and each has at most one subtransaction of its own open, which is the one
  it ends. At every moment \<open>k\<close> the session's subtransaction depth is that one, if it is open, and one for each
  earlier transaction that was committed with its own still open: as long as none was, the depth is at most one.\<close>

theorem worker_transactions_in_order:
  "allowed nest_step nest_ok (Idle, 0) (snd (allgres_runtime_main b db h))
   \<and> sub_depth (take k (snd (allgres_runtime_main b db h))) =
       int (open_subs (foldl nest_step (Idle, 0) (take k (snd (allgres_runtime_main b db h)))))"
proof -
  have life: "allowed nest_step nest_ok (Idle, 0) (snd (allgres_runtime_main b db h))" (is "allowed _ _ _ ?es")
    by (rule nesting.main_allowed) simp_all
  then have "allowed nest_step nest_ok (Idle, 0) (take k ?es)"
    using allowed_append [of nest_step nest_ok "(Idle, 0)" "take k ?es" "drop k ?es"] by simp
  from nest_depth [OF this] life show ?thesis by simp
qed

text \<open>C15: everything the worker claims to run itself is answered for exactly once. Over its whole life and for each of
  its five queues, the identifiers it reports back (or warns it could not report, when the privilege drop
  failed) are the readable ones it was handed, each once and in order; it claims nothing more of a
  queue while it owes an answer of it. A life that ends without a raise owes nothing; one that a raise ends
  leaves a tail of what was handed out unanswered, and answered nothing else.\<close>

theorem worker_answers_every_claim:
  "case allgres_runtime_main b db h of (r, es) \<Rightarrow>
     allowed (owed_step q) (owed_ok q) [] es
     \<and> (case r of
          Value _ \<Rightarrow> List.map_filter (answers q) es = concat (map (hands_out q) es)
        | Raise _ \<Rightarrow> prefix (List.map_filter (answers q) es) (concat (map (hands_out q) es)))"
proof -
  obtain r es where run: "allgres_runtime_main b db h = (r, es)" by force
  from followsD [OF settled_main [of q b, unfolded pays_def] refl run]
  have life: "allowed (owed_step q) (owed_ok q) [] es" "\<And>x. r = Value x \<Longrightarrow> foldl (owed_step q) [] es = []" by auto
  with allowed_balance [OF life(1)] run show ?thesis by (auto split: pg_result.splits)
qed

end
